(* ===== verification/Utf8.thy ===== *)
theory Utf8
  imports Prelude
begin

section \<open>Rust strings and their UTF-8 encoding\<close>

text \<open>
  Rust's text types and the part of \<open>core::str\<close> that converts them.  A \<open>char\<close> is its
  Unicode scalar value, a \<open>&str\<close> or \<open>String\<close> the list of its characters, and the bytes of a
  string are its UTF-8 encoding, so \<open>str::len\<close> is \<open>str_len\<close> (bytes, not characters).
  \<open>from_utf8\<close> accepts exactly the well-formed sequences of the Unicode standard (no overlong
  form, no surrogate, nothing above 10FFFF); the lemmas show that decoding and encoding are
  inverse to each other.
\<close>

type_synonym rchar = nat
type_synonym str = "rchar list"

definition lit :: "string \<Rightarrow> str" where
  "lit s = map of_char s"

abbreviation CR :: rchar where "CR \<equiv> 13"
abbreviation LF :: rchar where "LF \<equiv> 10"

definition crlf :: str where
  "crlf = [CR, LF]"

definition is_scalar :: "rchar \<Rightarrow> bool" where
  "is_scalar c \<longleftrightarrow> c < 0xD800 \<or> (0xE000 \<le> c \<and> c < 0x110000)"

definition valid_str :: "str \<Rightarrow> bool" where
  "valid_str s \<longleftrightarrow> (\<forall>c \<in> set s. is_scalar c)"

definition is_ascii :: "rchar \<Rightarrow> bool" where
  "is_ascii c \<longleftrightarrow> c < 0x80"

subsection \<open>UTF-8\<close>

definition len_utf8 :: "rchar \<Rightarrow> nat" where
  "len_utf8 c = (if c < 0x80 then 1 else if c < 0x800 then 2 else if c < 0x10000 then 3 else 4)"

definition str_len :: "str \<Rightarrow> nat" where
  "str_len s = sum_list (map len_utf8 s)"

definition byte :: "nat \<Rightarrow> u8" where
  "byte n = word_of_nat n"

definition encode_char :: "rchar \<Rightarrow> bytes" where
  "encode_char c =
     (if c < 0x80 then [byte c]
      else if c < 0x800 then
        [byte (0xC0 + c div 64), byte (0x80 + c mod 64)]
      else if c < 0x10000 then
        [byte (0xE0 + c div 4096), byte (0x80 + c div 64 mod 64),
         byte (0x80 + c mod 64)]
      else
        [byte (0xF0 + c div 262144), byte (0x80 + c div 4096 mod 64),
         byte (0x80 + c div 64 mod 64), byte (0x80 + c mod 64)])"

definition as_bytes :: "str \<Rightarrow> bytes" where
  "as_bytes s = concat (map encode_char s)"

definition is_cont :: "u8 \<Rightarrow> bool" where
  "is_cont b \<longleftrightarrow> 0x80 \<le> unat b \<and> unat b < 0xC0"

text \<open>The second byte of a three- and of a four-byte sequence, by its first byte.\<close>

definition second_of_three :: "u8 \<Rightarrow> u8 \<Rightarrow> bool" where
  "second_of_three a b \<longleftrightarrow>
     (let x = unat a; y = unat b in
       (x = 0xE0 \<and> 0xA0 \<le> y \<and> y < 0xC0) \<or> (0xE1 \<le> x \<and> x \<le> 0xEC \<and> is_cont b) \<or>
       (x = 0xED \<and> 0x80 \<le> y \<and> y < 0xA0) \<or> (0xEE \<le> x \<and> x \<le> 0xEF \<and> is_cont b))"

definition second_of_four :: "u8 \<Rightarrow> u8 \<Rightarrow> bool" where
  "second_of_four a b \<longleftrightarrow>
     (let x = unat a; y = unat b in
       (x = 0xF0 \<and> 0x90 \<le> y \<and> y < 0xC0) \<or> (0xF1 \<le> x \<and> x \<le> 0xF3 \<and> is_cont b) \<or>
       (x = 0xF4 \<and> 0x80 \<le> y \<and> y < 0x90))"

text \<open>One character off the front of a byte sequence; \<^term>\<open>None\<close> when it is ill-formed.\<close>

fun next_char :: "bytes \<Rightarrow> (rchar \<times> bytes) option" where
  "next_char [] = None"
| "next_char (a # bs) =
     (if unat a < 0x80 then Some (unat a, bs)
      else if 0xC2 \<le> unat a \<and> unat a < 0xE0 then
        (case bs of
           b # r \<Rightarrow> if is_cont b then Some ((unat a - 0xC0) * 64 + (unat b - 0x80), r) else None
         | _ \<Rightarrow> None)
      else
        (case bs of
           b # c # r \<Rightarrow>
             if second_of_three a b \<and> is_cont c
             then Some ((unat a - 0xE0) * 4096 + (unat b - 0x80) * 64 + (unat c - 0x80), r)
             else
               (case r of
                  d # r' \<Rightarrow>
                    if second_of_four a b \<and> is_cont c \<and> is_cont d
                    then Some ((unat a - 0xF0) * 262144 + (unat b - 0x80) * 4096
                               + (unat c - 0x80) * 64 + (unat d - 0x80), r')
                    else None
                | [] \<Rightarrow> None)
         | _ \<Rightarrow> None))"

lemma next_char_shorter: "next_char bs = Some (c, r) \<Longrightarrow> length r < length bs"
  by (induction bs rule: next_char.induct) (auto split: if_splits list.splits)

function from_utf8 :: "bytes \<Rightarrow> str option" where
  "from_utf8 bs =
     (if bs = [] then Some []
      else case next_char bs of
        None \<Rightarrow> None
      | Some (c, r) \<Rightarrow> map_option ((#) c) (from_utf8 r))"
  by pat_completeness auto
termination
  by (relation "measure length") (auto dest: next_char_shorter)

declare from_utf8.simps [simp del]

lemma from_utf8_Nil [simp]: "from_utf8 [] = Some []"
  by (simp add: from_utf8.simps)

subsubsection \<open>One character\<close>

lemma unat_byte [simp]: "n < 256 \<Longrightarrow> unat (byte n) = n"
  by (simp add: byte_def unat_of_nat)

lemma byte_unat [simp]: "byte (unat b) = b"
  by (simp add: byte_def)

lemma digits64:
  fixes q z :: nat
  assumes "z < 64"
  shows "(q * 64 + z) div 64 = q" and "(q * 64 + z) mod 64 = z"
  using assms by simp_all

lemma split64: "(c div 64) * 64 + c mod 64 = (c :: nat)"
  by simp

lemma div_powers64:
  "c div 4096 = c div 64 div (64 :: nat)" "c div 262144 = c div 64 div 64 div (64 :: nat)"
  by (simp_all flip: div_mult2_eq)

lemma encode_two:
  assumes "2 \<le> x" "x < 32" "y < 64"
  shows "encode_char (x * 64 + y) = [byte (0xC0 + x), byte (0x80 + y)]"
proof -
  note digits64 [OF assms(3), of x]
  moreover have "0x80 \<le> x * 64 + y" "x * 64 + y < 0x800" using assms by simp_all
  ultimately show ?thesis by (simp add: encode_char_def)
qed

lemma encode_three:
  assumes "x < 16" "y < 64" "z < 64" "x = 0 \<Longrightarrow> 32 \<le> y"
  shows "encode_char (x * 4096 + y * 64 + z) = [byte (0xE0 + x), byte (0x80 + y), byte (0x80 + z)]"
proof -
  let ?c = "x * 4096 + y * 64 + z"
  have c: "?c = (x * 64 + y) * 64 + z" by simp
  have "?c div 4096 = x" "?c div 64 mod 64 = y" "?c mod 64 = z"
    using assms(2,3) by (simp_all only: c div_powers64 digits64)
  moreover have "0x800 \<le> ?c" using assms(4) by (cases "x = 0") auto
  moreover have "?c < 0x10000" using assms(1-3) by simp
  ultimately show ?thesis by (simp add: encode_char_def)
qed

lemma encode_four:
  assumes "w \<le> 4" "x < 64" "y < 64" "z < 64" "w = 0 \<Longrightarrow> 16 \<le> x"
  shows "encode_char (w * 262144 + x * 4096 + y * 64 + z) =
    [byte (0xF0 + w), byte (0x80 + x), byte (0x80 + y), byte (0x80 + z)]"
proof -
  let ?c = "w * 262144 + x * 4096 + y * 64 + z"
  have c: "?c = ((w * 64 + x) * 64 + y) * 64 + z" by simp
  have "?c div 262144 = w" "?c div 4096 mod 64 = x" "?c div 64 mod 64 = y" "?c mod 64 = z"
    using assms(2-4) by (simp_all only: c div_powers64 digits64)
  moreover have "0x10000 \<le> ?c" using assms(5) by (cases "w = 0") auto
  ultimately show ?thesis by (simp add: encode_char_def)
qed

lemma next_char_encode:
  assumes "is_scalar c"
  shows "next_char (encode_char c @ bs) = Some (c, bs)"
proof -
  have c: "c < 0x110000" "c < 0xD800 \<or> 0xE000 \<le> c" using assms by (auto simp: is_scalar_def)
  consider "c < 0x80" | "0x80 \<le> c" "c < 0x800" | "0x800 \<le> c" "c < 0x10000" | "0x10000 \<le> c"
    by linarith
  then show ?thesis
  proof cases
    case 1
    then show ?thesis by (simp add: encode_char_def)
  next
    case 2
    define x y where "x = c div 64" and "y = c mod 64"
    then have "c = x * 64 + y" "2 \<le> x" "x < 32" "y < 64" using 2 by auto
    then show ?thesis by (simp add: encode_two is_cont_def)
  next
    case 3
    define x y z where "x = c div 64 div 64" and "y = c div 64 mod 64" and "z = c mod 64"
    have "(x * 64 + y) * 64 + z = c" unfolding x_def y_def z_def by (simp only: split64)
    then have "c = x * 4096 + y * 64 + z" by simp
    moreover have "x < 16" "y < 64" "z < 64"
      using 3 by (auto simp: x_def y_def z_def simp flip: div_mult2_eq)
    moreover from calculation have "x = 0 \<Longrightarrow> 32 \<le> y" "x = 13 \<Longrightarrow> y < 32"
      using 3 c by auto
    ultimately show ?thesis
      by (auto simp: encode_three is_cont_def second_of_three_def Let_def)
  next
    case 4
    define w x y z where "w = c div 64 div 64 div 64" and "x = c div 64 div 64 mod 64"
      and "y = c div 64 mod 64" and "z = c mod 64"
    have "((w * 64 + x) * 64 + y) * 64 + z = c"
      unfolding w_def x_def y_def z_def by (simp only: split64)
    then have "c = w * 262144 + x * 4096 + y * 64 + z" by simp
    moreover have "w \<le> 4" "x < 64" "y < 64" "z < 64"
      using c by (auto simp: w_def x_def y_def z_def simp flip: div_mult2_eq)
    moreover from calculation
    have "(w = 0 \<and> 16 \<le> x) \<or> (1 \<le> w \<and> w \<le> 3) \<or> (w = 4 \<and> x < 16)"
      using 4 c by linarith
    moreover from calculation
    have "encode_char c = [byte (0xF0 + w), byte (0x80 + x), byte (0x80 + y), byte (0x80 + z)]"
      by (auto simp only: intro!: encode_four)
    ultimately show ?thesis
      by (elim disjE conjE) (simp_all add: is_cont_def second_of_three_def second_of_four_def Let_def)
  qed
qed

lemma is_cont_byte: "is_cont b \<Longrightarrow> \<exists>y < 64. b = byte (0x80 + y)"
  by (rule exI [of _ "unat b - 0x80"]) (auto simp: is_cont_def)

lemma byte_eqI: "unat b = n \<Longrightarrow> b = byte n"
  by (metis byte_unat)

lemma second_of_three_byte:
  assumes "second_of_three a b"
  shows "\<exists>x y. x < 16 \<and> y < 64 \<and> (x = 0 \<longrightarrow> 32 \<le> y) \<and> (x = 13 \<longrightarrow> y < 32) \<and>
    a = byte (0xE0 + x) \<and> b = byte (0x80 + y)"
  using assms
  by (intro exI [of _ "unat a - 0xE0"] exI [of _ "unat b - 0x80"])
    (auto simp: second_of_three_def is_cont_def Let_def intro!: byte_eqI)

lemma second_of_four_byte:
  assumes "second_of_four a b"
  shows "\<exists>x y. x \<le> 4 \<and> y < 64 \<and> (x = 0 \<longrightarrow> 16 \<le> y) \<and> (x = 4 \<longrightarrow> y < 16) \<and>
    a = byte (0xF0 + x) \<and> b = byte (0x80 + y)"
  using assms
  by (intro exI [of _ "unat a - 0xF0"] exI [of _ "unat b - 0x80"])
    (auto simp: second_of_four_def is_cont_def Let_def intro!: byte_eqI)

lemma next_char_sound:
  assumes "next_char bs = Some (c, r)"
  shows "is_scalar c \<and> bs = encode_char c @ r"
proof -
  consider (one) a where "bs = a # r" "unat a < 0x80" "c = unat a"
    | (two) a b where "bs = a # b # r" "0xC2 \<le> unat a" "unat a < 0xE0" "is_cont b"
        "c = (unat a - 0xC0) * 64 + (unat b - 0x80)"
    | (three) a b d where "bs = a # b # d # r" "second_of_three a b" "is_cont d"
        "c = (unat a - 0xE0) * 4096 + (unat b - 0x80) * 64 + (unat d - 0x80)"
    | (four) a b d e where "bs = a # b # d # e # r" "second_of_four a b" "is_cont d" "is_cont e"
        "c = (unat a - 0xF0) * 262144 + (unat b - 0x80) * 4096 + (unat d - 0x80) * 64 + (unat e - 0x80)"
    using assms by (cases bs) (auto split: list.splits if_splits)
  then show ?thesis
  proof cases
    case one
    then show ?thesis by (simp add: encode_char_def is_scalar_def)
  next
    case two
    define x where "x = unat a - 0xC0"
    obtain y where "y < 64" "b = byte (0x80 + y)" using two(4) by (auto dest: is_cont_byte)
    moreover have "a = byte (0xC0 + x)" "2 \<le> x" "x < 32" using two by (auto simp: x_def)
    moreover from this calculation have "c = x * 64 + y" using two(5) by simp
    ultimately show ?thesis using two(1) by (auto simp: encode_two is_scalar_def)
  next
    case three
    obtain x y where "x < 16" "y < 64" "x = 0 \<Longrightarrow> 32 \<le> y" "x = 13 \<Longrightarrow> y < 32"
      "a = byte (0xE0 + x)" "b = byte (0x80 + y)" using second_of_three_byte [OF three(2)] by blast
    moreover obtain z where "z < 64" "d = byte (0x80 + z)" using three(3) by (auto dest: is_cont_byte)
    moreover from this calculation have "c = x * 4096 + y * 64 + z" using three(4) by simp
    moreover from calculation have "is_scalar c"
      by (cases "x = 13"; cases "x < 13") (auto simp: is_scalar_def)
    ultimately show ?thesis using three(1) by (simp add: encode_three)
  next
    case four
    obtain w x where "w \<le> 4" "x < 64" "w = 0 \<Longrightarrow> 16 \<le> x" "w = 4 \<Longrightarrow> x < 16"
      "a = byte (0xF0 + w)" "b = byte (0x80 + x)" using second_of_four_byte [OF four(2)] by blast
    moreover obtain y where "y < 64" "d = byte (0x80 + y)" using four(3) by (auto dest: is_cont_byte)
    moreover obtain z where "z < 64" "e = byte (0x80 + z)" using four(4) by (auto dest: is_cont_byte)
    moreover from this calculation have "c = w * 262144 + x * 4096 + y * 64 + z"
      using four(5) by simp
    moreover from calculation have "is_scalar c"
      by (cases "w = 0"; cases "w = 4") (auto simp: is_scalar_def)
    ultimately show ?thesis using four(1) by (simp add: encode_four)
  qed
qed

subsubsection \<open>Round trips\<close>

lemma encode_char_nonempty [simp]: "encode_char c \<noteq> []"
  by (simp add: encode_char_def)

lemma as_bytes_simps [simp]:
  "as_bytes [] = []"
  "as_bytes (c # s) = encode_char c @ as_bytes s"
  by (simp_all add: as_bytes_def)

lemma as_bytes_append: "as_bytes (s @ t) = as_bytes s @ as_bytes t"
  by (simp add: as_bytes_def)

lemma valid_str_simps [simp]:
  "valid_str []"
  "valid_str (c # s) \<longleftrightarrow> is_scalar c \<and> valid_str s"
  "valid_str (s @ t) \<longleftrightarrow> valid_str s \<and> valid_str t"
  by (auto simp: valid_str_def)

lemma from_utf8_encode: "is_scalar c \<Longrightarrow> from_utf8 (encode_char c @ bs) = map_option ((#) c) (from_utf8 bs)"
  by (simp add: from_utf8.simps [of "encode_char c @ bs"] next_char_encode)

text \<open>Decoding an encoded string gives it back; a decoded sequence is the encoding of its text.\<close>

lemma from_utf8_as_bytes [simp]: "valid_str s \<Longrightarrow> from_utf8 (as_bytes s) = Some s"
  by (induction s) (simp_all add: from_utf8_encode)

lemma from_utf8_sound: "from_utf8 bs = Some s \<Longrightarrow> valid_str s \<and> bs = as_bytes s"
proof (induction bs arbitrary: s rule: from_utf8.induct)
  case (1 bs)
  show ?case
  proof (cases "bs = []")
    case False
    then obtain c r t where n: "next_char bs = Some (c, r)" and t: "from_utf8 r = Some t" "s = c # t"
      using "1.prems" by (auto simp: from_utf8.simps [of bs] split: option.splits)
    then have "valid_str t \<and> r = as_bytes t" using "1.IH" False by blast
    with next_char_sound [OF n] t(2) show ?thesis by simp
  qed (use "1.prems" in simp)
qed

lemma from_utf8_iff: "from_utf8 bs = Some s \<longleftrightarrow> valid_str s \<and> bs = as_bytes s"
  using from_utf8_sound by auto

lemma as_bytes_inj: "valid_str s \<Longrightarrow> valid_str t \<Longrightarrow> as_bytes s = as_bytes t \<longleftrightarrow> s = t"
  by (metis from_utf8_as_bytes option.inject)

lemma length_encode_char [simp]: "length (encode_char c) = len_utf8 c"
  by (simp add: encode_char_def len_utf8_def)

lemma length_as_bytes: "length (as_bytes s) = str_len s"
  by (induction s) (simp_all add: str_len_def)

subsection \<open>Lengths\<close>

lemma len_utf8_bounds: "1 \<le> len_utf8 c" "len_utf8 c \<le> 4"
  by (simp_all add: len_utf8_def)

lemma str_len_simps [simp]:
  "str_len [] = 0"
  "str_len (c # s) = len_utf8 c + str_len s"
  "str_len (s @ t) = str_len s + str_len t"
  by (simp_all add: str_len_def)

lemma length_le_str_len: "length s \<le> str_len s"
  unfolding str_len_def by (rule sum_list_map_le) (rule len_utf8_bounds)

lemma str_len_ascii: "(\<And>c. c \<in> set s \<Longrightarrow> is_ascii c) \<Longrightarrow> str_len s = length s"
  unfolding str_len_def by (rule sum_list_map_one) (simp add: len_utf8_def is_ascii_def)

lemma is_ascii_scalar: "is_ascii c \<Longrightarrow> is_scalar c"
  by (simp add: is_ascii_def is_scalar_def)

lemma encode_ascii: "is_ascii c \<Longrightarrow> encode_char c = [byte c]"
  by (simp add: is_ascii_def encode_char_def)

text \<open>A byte below 80 in an encoding is the encoding of that ASCII character.\<close>

lemma encode_char_high:
  assumes "is_scalar c" "0x80 \<le> c" "b \<in> set (encode_char c)"
  shows "0x80 \<le> unat b"
proof -
  have "c < 0x110000" using assms(1) by (auto simp: is_scalar_def)
  then have "c < 0x800 \<Longrightarrow> c div 64 < 32" "c < 0x10000 \<Longrightarrow> c div 4096 < 16" "c div 262144 < 16"
    by linarith+
  moreover have "c mod 64 < 64" "c div 64 mod 64 < 64" "c div 4096 mod 64 < 64" by simp_all
  ultimately show ?thesis
    using assms(2,3) unfolding encode_char_def by (simp split: if_splits) (elim disjE; simp)+
qed

lemma encode_char_low:
  "b \<in> set (encode_char c) \<Longrightarrow> is_scalar c \<Longrightarrow> unat b < 0x80 \<Longrightarrow> c = unat b"
  by (cases "c < 0x80") (auto simp: encode_ascii is_ascii_def dest: encode_char_high)

end
