(* ===== verification/Text.thy ===== *)
theory Text
  imports Utf8
begin

section \<open>Rust string operations\<close>

text \<open>
  The methods of \<open>str\<close> and \<open>char\<close> from the Rust standard library that the server calls:
  whitespace (the Unicode property White\_Space, as \<open>char::is_whitespace\<close>), trimming,
  splitting, lines, ASCII case, suffixes and the decimal \<open>Display\<close> of an integer.  Each
  keeps the character order of the original and works on character lists; the lemmas are
  the facts about them the components share.
\<close>

subsection \<open>Characters\<close>

definition is_whitespace :: "rchar \<Rightarrow> bool" where
  "is_whitespace c \<longleftrightarrow>
     (9 \<le> c \<and> c \<le> 13) \<or> c = 0x20 \<or> c = 0x85 \<or> c = 0xA0 \<or> c = 0x1680 \<or>
     (0x2000 \<le> c \<and> c \<le> 0x200A) \<or> c = 0x2028 \<or> c = 0x2029 \<or> c = 0x202F \<or>
     c = 0x205F \<or> c = 0x3000"

definition is_lower :: "rchar \<Rightarrow> bool" where
  "is_lower c \<longleftrightarrow> 97 \<le> c \<and> c \<le> 122"

definition is_upper :: "rchar \<Rightarrow> bool" where
  "is_upper c \<longleftrightarrow> 65 \<le> c \<and> c \<le> 90"

definition is_digit :: "rchar \<Rightarrow> bool" where
  "is_digit c \<longleftrightarrow> 48 \<le> c \<and> c \<le> 57"

definition ascii_lower :: "rchar \<Rightarrow> rchar" where
  "ascii_lower c = (if is_upper c then c + 32 else c)"

definition ascii_upper :: "rchar \<Rightarrow> rchar" where
  "ascii_upper c = (if is_lower c then c - 32 else c)"

definition to_ascii_lowercase :: "str \<Rightarrow> str" where
  "to_ascii_lowercase s = map ascii_lower s"

definition eq_ignore_ascii_case :: "str \<Rightarrow> str \<Rightarrow> bool" where
  "eq_ignore_ascii_case s t \<longleftrightarrow> to_ascii_lowercase s = to_ascii_lowercase t"

lemma ascii_lower_idem [simp]: "ascii_lower (ascii_lower c) = ascii_lower c"
  by (simp add: ascii_lower_def is_upper_def)

lemma to_ascii_lowercase_simps [simp]:
  "to_ascii_lowercase [] = []"
  "to_ascii_lowercase (c # s) = ascii_lower c # to_ascii_lowercase s"
  "to_ascii_lowercase (s @ t) = to_ascii_lowercase s @ to_ascii_lowercase t"
  "to_ascii_lowercase (to_ascii_lowercase s) = to_ascii_lowercase s"
  "to_ascii_lowercase s = [] \<longleftrightarrow> s = []"
  by (simp_all add: to_ascii_lowercase_def)

lemma length_to_ascii_lowercase [simp]: "length (to_ascii_lowercase s) = length s"
  by (simp add: to_ascii_lowercase_def)

lemma len_utf8_ascii_lower [simp]: "len_utf8 (ascii_lower c) = len_utf8 c"
  by (simp add: ascii_lower_def is_upper_def len_utf8_def)

lemma str_len_lowercase [simp]: "str_len (to_ascii_lowercase s) = str_len s"
  by (induction s) simp_all

lemma to_ascii_lowercase_id: "(\<And>c. c \<in> set s \<Longrightarrow> \<not> is_upper c) \<Longrightarrow> to_ascii_lowercase s = s"
  unfolding to_ascii_lowercase_def by (rule map_idI) (simp add: ascii_lower_def)

lemma eq_ignore_ascii_case_refl [simp]: "eq_ignore_ascii_case s s"
  by (simp add: eq_ignore_ascii_case_def)

subsection \<open>Trimming\<close>

definition trim_end_matches :: "(rchar \<Rightarrow> bool) \<Rightarrow> str \<Rightarrow> str" where
  "trim_end_matches P s = rev (dropWhile P (rev s))"

definition trim_matches :: "(rchar \<Rightarrow> bool) \<Rightarrow> str \<Rightarrow> str" where
  "trim_matches P s = trim_end_matches P (dropWhile P s)"

definition trim :: "str \<Rightarrow> str" where
  "trim s = trim_matches is_whitespace s"

lemma trim_end_matches_prefix: "\<exists>t. s = trim_end_matches P s @ t \<and> (\<forall>c \<in> set t. P c)"
proof -
  have "rev s = takeWhile P (rev s) @ dropWhile P (rev s)" by simp
  then have "s = rev (dropWhile P (rev s)) @ rev (takeWhile P (rev s))"
    by (metis rev_append rev_rev_ident)
  then show ?thesis
    unfolding trim_end_matches_def by (metis set_rev set_takeWhileD)
qed

lemma set_trim_end_matches: "set (trim_end_matches P s) \<subseteq> set s"
  by (auto simp: trim_end_matches_def dest: set_dropWhileD)

lemma set_trim_matches: "set (trim_matches P s) \<subseteq> set s"
  unfolding trim_matches_def by (meson set_trim_end_matches set_dropWhile_subset order_trans)

lemma trim_end_matches_last: "trim_end_matches P s \<noteq> [] \<Longrightarrow> \<not> P (last (trim_end_matches P s))"
  by (metis hd_dropWhile last_rev rev_is_Nil_conv trim_end_matches_def)

lemma trim_end_matches_id: "(s \<noteq> [] \<Longrightarrow> \<not> P (last s)) \<Longrightarrow> trim_end_matches P s = s"
  unfolding trim_end_matches_def by (subst dropWhile_id) (simp_all add: hd_rev)

lemma trim_matches_id:
  assumes "s \<noteq> [] \<Longrightarrow> \<not> P (hd s)" and "s \<noteq> [] \<Longrightarrow> \<not> P (last s)"
  shows "trim_matches P s = s"
  unfolding trim_matches_def using assms by (simp add: dropWhile_id trim_end_matches_id)

lemma trim_matches_none: "(\<And>c. c \<in> set s \<Longrightarrow> \<not> P c) \<Longrightarrow> trim_matches P s = s"
  by (rule trim_matches_id) simp_all

lemma trim_none: "(\<And>c. c \<in> set s \<Longrightarrow> \<not> is_whitespace c) \<Longrightarrow> trim s = s"
  unfolding trim_def by (rule trim_matches_none)

lemma trim_matches_ends:
  assumes "trim_matches P s \<noteq> []"
  shows "\<not> P (hd (trim_matches P s))" and "\<not> P (last (trim_matches P s))"
proof -
  let ?d = "dropWhile P s"
  show "\<not> P (last (trim_matches P s))"
    using assms unfolding trim_matches_def by (rule trim_end_matches_last)
  obtain t where "?d = trim_matches P s @ t"
    using trim_end_matches_prefix [of ?d P] by (auto simp: trim_matches_def)
  then have "hd ?d = hd (trim_matches P s)" "?d \<noteq> []" using assms by (metis hd_append2, auto)
  then show "\<not> P (hd (trim_matches P s))" by (metis hd_dropWhile)
qed

lemma trim_matches_idem: "trim_matches P (trim_matches P s) = trim_matches P s"
  by (rule trim_matches_id) (simp_all add: trim_matches_ends)

lemma trim_matches_Nil_iff: "trim_matches P s = [] \<longleftrightarrow> (\<forall>c \<in> set s. P c)"
proof
  show "\<forall>c \<in> set s. P c \<Longrightarrow> trim_matches P s = []"
    by (simp add: trim_matches_def trim_end_matches_def dropWhile_Nil_iff [THEN iffD2])
next
  assume "trim_matches P s = []"
  then have "\<forall>c \<in> set (dropWhile P s). P c"
    by (simp add: trim_matches_def trim_end_matches_def dropWhile_Nil_iff)
  then have "dropWhile P s = []" by (metis hd_dropWhile list.set_sel(1))
  then show "\<forall>c \<in> set s. P c" by (simp add: dropWhile_Nil_iff)
qed

subsection \<open>Splitting\<close>

fun split_on :: "(rchar \<Rightarrow> bool) \<Rightarrow> str \<Rightarrow> str list" where
  "split_on P [] = [[]]"
| "split_on P (c # s) =
     (if P c then [] # split_on P s
      else case split_on P s of [] \<Rightarrow> [[c]] | x # xs \<Rightarrow> (c # x) # xs)"

definition split_whitespace :: "str \<Rightarrow> str list" where
  "split_whitespace s = filter (\<lambda>t. t \<noteq> []) (split_on is_whitespace s)"

text \<open>\<open>splitn(2, d)\<close>: at most one cut, at the first \<open>d\<close>.\<close>

definition splitn2 :: "rchar \<Rightarrow> str \<Rightarrow> str list" where
  "splitn2 d s =
     (case dropWhile (\<lambda>c. c \<noteq> d) s of
        [] \<Rightarrow> [s]
      | _ # rest \<Rightarrow> [takeWhile (\<lambda>c. c \<noteq> d) s, rest])"

fun join_with :: "str \<Rightarrow> str list \<Rightarrow> str" where
  "join_with sep [] = []"
| "join_with sep [s] = s"
| "join_with sep (s # ss) = s @ sep @ join_with sep ss"

lemma split_on_nonempty [simp]: "split_on P s \<noteq> []"
  by (induction s) (auto split: list.split)

lemma split_on_none: "(\<And>c. c \<in> set s \<Longrightarrow> \<not> P c) \<Longrightarrow> split_on P s = [s]"
  by (induction s) simp_all

lemma split_on_append: "P c \<Longrightarrow> split_on P (s @ c # t) = split_on P s @ split_on P t"
  by (induction s) (auto split: list.split)

lemma split_on_parts: "t \<in> set (split_on P s) \<Longrightarrow> c \<in> set t \<Longrightarrow> \<not> P c \<and> c \<in> set s"
proof (induction s arbitrary: t)
  case (Cons a s)
  obtain x xs where x: "split_on P s = x # xs" by (cases "split_on P s") simp_all
  then consider "t = []" | "t = a # x" "\<not> P a" | "t \<in> set (split_on P s)"
    using Cons.prems(1) by (auto split: if_splits)
  then show ?case using Cons.IH [of x] Cons.IH [of t] Cons.prems(2) x by cases auto
qed simp

lemma split_on_no_delim: "t \<in> set (split_on P s) \<Longrightarrow> c \<in> set t \<Longrightarrow> \<not> P c"
  using split_on_parts by blast

lemma split_on_subset: "t \<in> set (split_on P s) \<Longrightarrow> set t \<subseteq> set s"
  using split_on_parts by blast

lemma join_with_Cons: "ss \<noteq> [] \<Longrightarrow> join_with sep (s # ss) = s @ sep @ join_with sep ss"
  by (cases ss) simp_all

lemma join_split_on: "join_with [d] (split_on (\<lambda>c. c = d) s) = s"
proof (induction s)
  case (Cons c s)
  obtain x xs where x: "split_on (\<lambda>c. c = d) s = x # xs"
    by (cases "split_on (\<lambda>c. c = d) s") simp_all
  show ?case using Cons x by (cases xs) auto
qed simp

lemma split_on_join:
  assumes "ss \<noteq> []" "\<And>s. s \<in> set ss \<Longrightarrow> d \<notin> set s"
  shows "split_on (\<lambda>c. c = d) (join_with [d] ss) = ss"
  using assms
proof (induction ss)
  case (Cons s ss)
  have s: "split_on (\<lambda>c. c = d) s = [s]" using Cons.prems(2) by (intro split_on_none) auto
  show ?case
  proof (cases "ss = []")
    case True
    with s show ?thesis by simp
  next
    case False
    then have "split_on (\<lambda>c. c = d) (join_with [d] ss) = ss" using Cons by simp
    with False s show ?thesis by (simp add: join_with_Cons split_on_append)
  qed
qed simp

lemma split_whitespace_Nil [simp]: "split_whitespace [] = []"
  by (simp add: split_whitespace_def)

lemma split_whitespace_space:
  "is_whitespace c \<Longrightarrow> split_whitespace (s @ c # t) = split_whitespace s @ split_whitespace t"
  by (simp add: split_whitespace_def split_on_append)

lemma split_whitespace_Cons_space:
  "is_whitespace c \<Longrightarrow> split_whitespace (c # t) = split_whitespace t"
  using split_whitespace_space [of c "[]" t] by simp

lemma split_whitespace_word:
  "s \<noteq> [] \<Longrightarrow> (\<And>c. c \<in> set s \<Longrightarrow> \<not> is_whitespace c) \<Longrightarrow> split_whitespace s = [s]"
  by (simp add: split_whitespace_def split_on_none)

lemma split_whitespace_blank:
  "(\<And>c. c \<in> set s \<Longrightarrow> is_whitespace c) \<Longrightarrow> split_whitespace s = []"
  by (induction s) (auto simp: split_whitespace_Cons_space)

lemma split_whitespace_tokens:
  assumes "t \<in> set (split_whitespace s)"
  shows "t \<noteq> []" and "c \<in> set t \<Longrightarrow> \<not> is_whitespace c" and "set t \<subseteq> set s"
  using assms unfolding split_whitespace_def
  by (auto dest: split_on_no_delim split_on_parts)

lemma splitn2_none: "d \<notin> set s \<Longrightarrow> splitn2 d s = [s]"
  unfolding splitn2_def by (metis (mono_tags, lifting) dropWhile_Nil_iff list.simps(4))

lemma splitn2_at: "d \<notin> set s \<Longrightarrow> splitn2 d (s @ d # t) = [s, t]"
proof -
  assume "d \<notin> set s"
  then have "\<forall>c \<in> set s. c \<noteq> d" by auto
  then have "dropWhile (\<lambda>c. c \<noteq> d) (s @ d # t) = d # t" "takeWhile (\<lambda>c. c \<noteq> d) (s @ d # t) = s"
    by (simp_all add: dropWhile_append2 takeWhile_append2)
  then show ?thesis by (simp add: splitn2_def)
qed

lemma splitn2_cases:
  obtains "d \<notin> set s" "splitn2 d s = [s]"
  | a b where "s = a @ d # b" "d \<notin> set a" "splitn2 d s = [a, b]"
proof (cases "d \<in> set s")
  case True
  then obtain a b where "s = a @ d # b" "d \<notin> set a" by (auto dest: split_list_first)
  then show ?thesis using that(2) by (simp add: splitn2_at)
qed (use that(1) splitn2_none in blast)

subsection \<open>Suffixes, lines, numbers\<close>

definition strip_suffix :: "str \<Rightarrow> str \<Rightarrow> str option" where
  "strip_suffix suf s =
     (if length suf \<le> length s \<and> drop (length s - length suf) s = suf
      then Some (take (length s - length suf) s) else None)"

lemma strip_suffix_append [simp]: "strip_suffix suf (s @ suf) = Some s"
  by (simp add: strip_suffix_def)

lemma strip_suffix_Some: "strip_suffix suf s = Some t \<longleftrightarrow> s = t @ suf"
  by (auto simp: strip_suffix_def) (metis append_take_drop_id)

lemma strip_suffix_None: "strip_suffix suf s = None \<longleftrightarrow> (\<nexists>t. s = t @ suf)"
  by (metis not_None_eq strip_suffix_Some)

definition strip_cr :: "str \<Rightarrow> str" where
  "strip_cr s = (case strip_suffix [CR] s of None \<Rightarrow> s | Some t \<Rightarrow> t)"

text \<open>
  \<open>str::lines\<close>: the line feed and one carriage return before it end a line; a last line
  without a line feed keeps its carriage return, and an empty last piece is no line.
\<close>

definition str_lines :: "str \<Rightarrow> str list" where
  "str_lines s =
     (let pieces = split_on (\<lambda>c. c = LF) s
      in map strip_cr (butlast pieces) @ (if last pieces = [] then [] else [last pieces]))"

fun display_nat :: "nat \<Rightarrow> str" where
  "display_nat n = (if n < 10 then [48 + n] else display_nat (n div 10) @ [48 + n mod 10])"

declare display_nat.simps [simp del]

text \<open>Reading the digits back.\<close>

definition parse_nat :: "str \<Rightarrow> nat" where
  "parse_nat s = foldl (\<lambda>n c. 10 * n + (c - 48)) 0 s"

lemma parse_display_nat: "parse_nat (display_nat n) = n"
proof (induction n rule: display_nat.induct)
  case (1 n)
  then show ?case
    by (cases "n < 10") (simp_all add: display_nat.simps [of n] parse_nat_def)
qed

lemma display_nat_digits: "c \<in> set (display_nat n) \<Longrightarrow> 48 \<le> c \<and> c \<le> 57"
proof (induction n rule: display_nat.induct)
  case (1 n)
  then show ?case by (subst (asm) (2) display_nat.simps) (auto split: if_splits)
qed

lemma str_lines_Nil [simp]: "str_lines [] = []"
  by (simp add: str_lines_def)

lemma set_strip_cr: "set (strip_cr s) \<subseteq> set s"
  by (auto simp: strip_cr_def strip_suffix_Some split: option.splits)

lemmas text_defs [text_eval] =
  lit_def trim_def trim_matches_def trim_end_matches_def is_whitespace_def is_lower_def is_upper_def
  is_digit_def ascii_lower_def ascii_upper_def len_utf8_def

end
