(* ===== verification/Identity.thy ===== *)
theory Identity
  imports Text
begin

section \<open>Usernames and hostnames (src/identity.rs)\<close>

text \<open>
  \<open>Username\<close> and \<open>HostName\<close> are newtypes over a string whose only constructor outside the
  module is \<open>parse\<close>; \<open>username_wf\<close> and \<open>hostname_wf\<close> say what \<open>parse\<close> promises of their
  contents.  The definitions keep the checks of the code in its order; lengths are byte
  lengths.  The lemmas show that \<open>parse\<close> returns exactly the well-formed values, that it is
  idempotent and insensitive to case, and that the label loop of \<open>HostName::parse\<close> computes
  the lower-cased input.
\<close>

subsection \<open>Data\<close>

datatype identity_error =
    UsernameLength nat
  | UsernameCharacters
  | HostLength nat
  | HostCharacters
  | HostLabelHyphen
  | HostEmptyLabel

datatype username = Username (username_str: str)

datatype hostname = HostName (hostname_str: str)

definition username_max_len :: nat where
  "username_max_len = 32"

definition hostname_max_len :: nat where
  "hostname_max_len = 253"

text \<open>The \<open>Display\<close> text of an error, as the \<open>thiserror\<close> attributes give it.\<close>

fun display_identity_error :: "identity_error \<Rightarrow> str" where
  "display_identity_error (UsernameLength m) =
     lit ''username must be between 1 and '' @ display_nat m @ lit '' characters''"
| "display_identity_error UsernameCharacters =
     lit ''username may only contain ASCII letters, digits, hyphen, or underscore''"
| "display_identity_error (HostLength m) =
     lit ''hostname must be between 1 and '' @ display_nat m @ lit '' characters''"
| "display_identity_error HostCharacters = lit ''hostname contains invalid characters''"
| "display_identity_error HostLabelHyphen =
     lit ''hostname labels must not begin or end with a hyphen''"
| "display_identity_error HostEmptyLabel = lit ''hostname has empty label''"

subsection \<open>Operations\<close>

abbreviation hyphen :: rchar where "hyphen \<equiv> 45"
abbreviation dot :: rchar where "dot \<equiv> 46"
abbreviation underscore :: rchar where "underscore \<equiv> 95"

definition username_char :: "rchar \<Rightarrow> bool" where
  "username_char c \<longleftrightarrow> is_lower c \<or> is_upper c \<or> is_digit c \<or> c = hyphen \<or> c = underscore"

definition username_parse :: "str \<Rightarrow> identity_error + username" where
  "username_parse input =
     (let trimmed = trim input in
      if trimmed = [] \<or> username_max_len < str_len trimmed
      then Inl (UsernameLength username_max_len)
      else if list_all username_char trimmed
      then Inr (Username (to_ascii_lowercase trimmed))
      else Inl UsernameCharacters)"

definition label_char :: "rchar \<Rightarrow> bool" where
  "label_char c \<longleftrightarrow> is_lower c \<or> is_upper c \<or> is_digit c \<or> c = hyphen"

definition validate_label :: "str \<Rightarrow> identity_error + unit" where
  "validate_label label =
     (if label = [] then Inl HostEmptyLabel
      else if hd label = hyphen \<or> last label = hyphen then Inl HostLabelHyphen
      else if list_ex (\<lambda>c. \<not> label_char c) label then Inl HostCharacters
      else Inr ())"

text \<open>The loop over the labels of \<open>HostName::parse\<close>, with the output built so far.\<close>

fun hostname_labels :: "str list \<Rightarrow> str \<Rightarrow> identity_error + str" where
  "hostname_labels [] output = Inr output"
| "hostname_labels (label # labels) output =
     and_then (validate_label label) (\<lambda>_.
       hostname_labels labels
         ((if output \<noteq> [] then output @ [dot] else output) @ to_ascii_lowercase label))"

definition hostname_parse :: "str \<Rightarrow> identity_error + hostname" where
  "hostname_parse input =
     (let trimmed = trim input in
      if trimmed = [] \<or> hostname_max_len < str_len trimmed
      then Inl (HostLength hostname_max_len)
      else and_then (hostname_labels (split_on (\<lambda>c. c = dot) trimmed) [])
             (\<lambda>output. Inr (HostName output)))"

subsection \<open>Well-formed values\<close>

definition name_char :: "rchar \<Rightarrow> bool" where
  "name_char c \<longleftrightarrow> is_lower c \<or> is_digit c \<or> c = hyphen"

definition username_wf :: "username \<Rightarrow> bool" where
  "username_wf u \<longleftrightarrow>
     username_str u \<noteq> [] \<and> length (username_str u) \<le> username_max_len \<and>
     list_all (\<lambda>c. name_char c \<or> c = underscore) (username_str u)"

definition label_wf :: "str \<Rightarrow> bool" where
  "label_wf l \<longleftrightarrow> l \<noteq> [] \<and> hd l \<noteq> hyphen \<and> last l \<noteq> hyphen \<and> list_all name_char l"

definition hostname_wf :: "hostname \<Rightarrow> bool" where
  "hostname_wf h \<longleftrightarrow>
     length (hostname_str h) \<le> hostname_max_len \<and>
     list_all label_wf (split_on (\<lambda>c. c = dot) (hostname_str h))"

subsection \<open>Characters of names\<close>

lemmas char_class_defs =
  is_lower_def is_upper_def is_digit_def is_ascii_def is_whitespace_def

lemma username_char_props:
  assumes "username_char c"
  shows "is_ascii c" and "\<not> is_whitespace c"
    and "name_char (ascii_lower c) \<or> ascii_lower c = underscore"
  using assms by (auto simp: username_char_def name_char_def ascii_lower_def char_class_defs)

lemma label_char_props:
  assumes "label_char c"
  shows "is_ascii c" and "\<not> is_whitespace c" and "c \<noteq> dot" and "name_char (ascii_lower c)"
  using assms by (auto simp: label_char_def name_char_def ascii_lower_def char_class_defs)

lemma name_char_props:
  assumes "name_char c"
  shows "username_char c" and "label_char c" and "\<not> is_upper c"
  using assms
  by (auto simp: name_char_def username_char_def label_char_def char_class_defs)

lemma ascii_lower_classes:
  "username_char (ascii_lower c) \<longleftrightarrow> username_char c"
  "label_char (ascii_lower c) \<longleftrightarrow> label_char c"
  "is_whitespace (ascii_lower c) \<longleftrightarrow> is_whitespace c"
  "ascii_lower c = hyphen \<longleftrightarrow> c = hyphen"
  "ascii_lower c = dot \<longleftrightarrow> c = dot"
  by (auto simp: username_char_def label_char_def ascii_lower_def char_class_defs)

subsection \<open>Parsing commutes with lower-casing\<close>

lemma trim_matches_map:
  assumes "\<And>c. P (f c) \<longleftrightarrow> P c"
  shows "trim_matches P (map f s) = map f (trim_matches P s)"
proof -
  have "P \<circ> f = P" using assms by auto
  then show ?thesis
    by (simp add: trim_matches_def trim_end_matches_def dropWhile_map rev_map)
qed

lemma trim_lowercase [simp]: "trim (to_ascii_lowercase s) = to_ascii_lowercase (trim s)"
  unfolding trim_def to_ascii_lowercase_def by (rule trim_matches_map) (rule ascii_lower_classes)

lemma split_on_map:
  assumes "\<And>c. P (f c) \<longleftrightarrow> P c"
  shows "split_on P (map f s) = map (map f) (split_on P s)"
  using assms by (induction s) (auto split: list.split)

lemma split_dot_lowercase:
  "split_on (\<lambda>c. c = dot) (to_ascii_lowercase s) = map to_ascii_lowercase (split_on (\<lambda>c. c = dot) s)"
  unfolding to_ascii_lowercase_def
  by (simp add: split_on_map ascii_lower_classes to_ascii_lowercase_def [abs_def])

lemma validate_label_lowercase [simp]:
  "validate_label (to_ascii_lowercase l) = validate_label l"
  by (auto simp: validate_label_def to_ascii_lowercase_def hd_map last_map
      ascii_lower_classes list_ex_iff)

lemma hostname_labels_lowercase:
  "hostname_labels (map to_ascii_lowercase ls) out = hostname_labels ls out"
  by (induction ls arbitrary: out) (simp_all add: and_then_def split: sum.split)

subsection \<open>Usernames\<close>

lemma str_len_username: "list_all username_char t \<Longrightarrow> str_len t = length t"
  by (rule str_len_ascii) (auto simp: list_all_iff username_char_props)

lemma username_parse_Inr_iff [result_iff]:
  "username_parse s = Inr u \<longleftrightarrow>
     trim s \<noteq> [] \<and> length (trim s) \<le> username_max_len \<and> list_all username_char (trim s) \<and>
     u = Username (to_ascii_lowercase (trim s))"
  by (auto simp: username_parse_def Let_def str_len_username split: if_splits)

lemma username_wf_chars:
  assumes "username_wf u" and "c \<in> set (username_str u)"
  shows "name_char c \<or> c = underscore" and "username_char c" and "\<not> is_upper c"
    and "\<not> is_whitespace c" and "is_ascii c"
proof -
  show c: "name_char c \<or> c = underscore" using assms by (auto simp: username_wf_def list_all_iff)
  then show "username_char c" "\<not> is_upper c" 
    by (auto dest: name_char_props simp: username_char_def is_upper_def)
  then show "\<not> is_whitespace c" "is_ascii c" by (simp_all add: username_char_props)
qed

lemma username_parse_wf: "username_parse s = Inr u \<Longrightarrow> username_wf u"
  by (auto simp: username_parse_Inr_iff username_wf_def list_all_iff to_ascii_lowercase_def
      dest: username_char_props(3))

lemma username_wf_parse:
  assumes "username_wf u"
  shows "username_parse (username_str u) = Inr u"
proof -
  have "trim (username_str u) = username_str u"
    by (rule trim_none) (rule username_wf_chars [OF assms])
  moreover have "to_ascii_lowercase (username_str u) = username_str u"
    by (rule to_ascii_lowercase_id) (rule username_wf_chars [OF assms])
  ultimately show ?thesis
    using assms username_wf_chars(2) [OF assms]
    by (simp add: username_parse_Inr_iff username_wf_def list_all_iff)
qed

text \<open>
  \<open>Username::parse\<close> is a canonicalisation onto the well-formed usernames: a value it
  returns is well formed (1 to 32 characters out of a-z, 0-9, hyphen and underscore), and the
  well-formed usernames are exactly those that parse to themselves.
\<close>
lemma username_parse_canonical:
  "(case username_parse s of Inl _ \<Rightarrow> True | Inr u \<Rightarrow> username_wf u) \<and>
   (username_wf u \<longleftrightarrow> username_parse (username_str u) = Inr u)"
  by (auto split: sum.split dest: username_parse_wf intro: username_wf_parse)

text \<open>
  Both parsers ignore ASCII case: lower-casing the input changes neither the value nor
  the error.
\<close>
lemma identity_parse_ignores_case:
  "username_parse (to_ascii_lowercase s) = username_parse s \<and>
   hostname_parse (to_ascii_lowercase s) = hostname_parse s"
proof
  have "list_all username_char (to_ascii_lowercase t) = list_all username_char t" for t
    by (simp add: to_ascii_lowercase_def list_all_iff ascii_lower_classes)
  then show "username_parse (to_ascii_lowercase s) = username_parse s"
    by (simp add: username_parse_def Let_def)
  show "hostname_parse (to_ascii_lowercase s) = hostname_parse s"
    by (simp add: hostname_parse_def Let_def split_dot_lowercase hostname_labels_lowercase)
qed

subsection \<open>Hostnames\<close>

lemma validate_label_Inr_iff [result_iff]:
  "validate_label l = Inr x \<longleftrightarrow> l \<noteq> [] \<and> hd l \<noteq> hyphen \<and> last l \<noteq> hyphen \<and> list_all label_char l"
  by (auto simp: validate_label_def list_ex_iff list_all_iff)

lemma label_wf_lowercase:
  "validate_label l = Inr () \<longleftrightarrow> label_wf (to_ascii_lowercase l)"
proof -
  have "name_char (ascii_lower c) \<longleftrightarrow> label_char c" for c
    using label_char_props(4) name_char_props(2) ascii_lower_classes(2) by blast
  then have "list_all label_char l \<longleftrightarrow> list_all name_char (to_ascii_lowercase l)"
    by (simp add: list_all_iff to_ascii_lowercase_def)
  then show ?thesis
    by (auto simp: validate_label_Inr_iff label_wf_def to_ascii_lowercase_def hd_map last_map
        ascii_lower_classes)
qed

text \<open>The first label that fails, with its error, and the loop as a search for it.\<close>

fun first_label_error :: "str list \<Rightarrow> identity_error option" where
  "first_label_error [] = None"
| "first_label_error (l # ls) =
     (case validate_label l of Inl e \<Rightarrow> Some e | Inr _ \<Rightarrow> first_label_error ls)"

lemma first_label_error_None:
  "first_label_error ls = None \<longleftrightarrow> (\<forall>l \<in> set ls. validate_label l = Inr ())"
  by (induction ls) (auto split: sum.split)

lemma hostname_labels_acc:
  "out \<noteq> [] \<Longrightarrow> hostname_labels ls out =
     (case first_label_error ls of
        Some e \<Rightarrow> Inl e
      | None \<Rightarrow> Inr (join_with [dot] (out # map to_ascii_lowercase ls)))"
proof (induction ls arbitrary: out)
  case (Cons l ls)
  show ?case
  proof (cases "validate_label l")
    case (Inr x)
    have "hostname_labels (l # ls) out = hostname_labels ls (out @ [dot] @ to_ascii_lowercase l)"
      using Inr Cons.prems by simp
    also have "\<dots> = (case first_label_error ls of Some e \<Rightarrow> Inl e
        | None \<Rightarrow> Inr (join_with [dot] ((out @ [dot] @ to_ascii_lowercase l) # map to_ascii_lowercase ls)))"
      by (rule Cons.IH) simp
    finally show ?thesis using Inr by (cases ls) (auto split: option.split)
  qed simp
qed simp

lemma hostname_labels_spec:
  assumes "ls \<noteq> []"
  shows "hostname_labels ls [] =
     (case first_label_error ls of
        Some e \<Rightarrow> Inl e
      | None \<Rightarrow> Inr (join_with [dot] (map to_ascii_lowercase ls)))"
proof -
  obtain l ls' where ls: "ls = l # ls'" using assms by (cases ls) simp_all
  show ?thesis
  proof (cases "validate_label l")
    case (Inr x)
    then have "to_ascii_lowercase l \<noteq> []" by (simp add: validate_label_Inr_iff)
    with Inr ls show ?thesis by (simp add: hostname_labels_acc split: option.split)
  qed (simp add: ls)
qed

lemma hostname_parse_labels:
  "hostname_parse s =
     (if trim s = [] \<or> hostname_max_len < str_len (trim s)
      then Inl (HostLength hostname_max_len)
      else case first_label_error (split_on (\<lambda>c. c = dot) (trim s)) of
        Some e \<Rightarrow> Inl e
      | None \<Rightarrow> Inr (HostName (to_ascii_lowercase (trim s))))"
proof -
  have "join_with [dot] (map to_ascii_lowercase (split_on (\<lambda>c. c = dot) t)) = to_ascii_lowercase t" for t
    by (simp flip: split_dot_lowercase add: join_split_on)
  then show ?thesis
    by (simp add: hostname_parse_def Let_def hostname_labels_spec split: option.split)
qed

text \<open>
  C16: Parsing a host name meets a simple specification: after trimming and a check of the length, the
  error is that of the first invalid label, from left to right; without one the result is the whole
  trimmed input in lower case.
\<close>

theorem hostname_parse_spec:
  "hostname_parse s =
     (if trim s = [] \<or> hostname_max_len < str_len (trim s)
      then Inl (HostLength hostname_max_len)
      else case first_label_error (split_on (\<lambda>c. c = dot) (trim s)) of
        Some e \<Rightarrow> Inl e
      | None \<Rightarrow> Inr (HostName (to_ascii_lowercase (trim s))))"
  by (rule hostname_parse_labels)

lemma set_split_on: "c \<in> set s \<Longrightarrow> P c \<or> (\<exists>t \<in> set (split_on P s). c \<in> set t)"
  by (induction s) (auto split: list.splits)

lemma hostname_wf_chars:
  assumes "hostname_wf h" and "c \<in> set (hostname_str h)"
  shows "name_char c \<or> c = dot" and "\<not> is_upper c" and "\<not> is_whitespace c" and "is_ascii c"
proof -
  show c: "name_char c \<or> c = dot"
    using assms set_split_on [OF assms(2), of "\<lambda>c. c = dot"]
    by (auto simp: hostname_wf_def label_wf_def list_all_iff)
  then show "\<not> is_upper c" "\<not> is_whitespace c" "is_ascii c"
    by (auto simp: name_char_def char_class_defs)
qed

lemma label_wf_validate: "label_wf l \<Longrightarrow> validate_label l = Inr ()"
  by (auto simp: validate_label_Inr_iff label_wf_def list_all_iff dest: name_char_props(2))

lemma hostname_parse_Inr_iff [result_iff]:
  "hostname_parse s = Inr h \<longleftrightarrow>
     str_len (trim s) \<le> hostname_max_len \<and>
     (\<forall>l \<in> set (split_on (\<lambda>c. c = dot) (trim s)). validate_label l = Inr ()) \<and>
     h = HostName (to_ascii_lowercase (trim s))"
proof -
  have "validate_label [] = Inl HostEmptyLabel" by (simp add: validate_label_def)
  then show ?thesis
    by (auto simp: hostname_parse_labels simp flip: first_label_error_None
        split: option.splits if_splits)
qed

lemma hostname_parse_wf: "hostname_parse s = Inr h \<Longrightarrow> hostname_wf h"
  using length_le_str_len [of "trim s"]
  by (auto simp: hostname_parse_Inr_iff hostname_wf_def split_dot_lowercase list_all_iff
      label_wf_lowercase)

lemma hostname_wf_parse:
  assumes "hostname_wf h"
  shows "hostname_parse (hostname_str h) = Inr h"
proof -
  note chars = hostname_wf_chars [OF assms]
  have "trim (hostname_str h) = hostname_str h" by (rule trim_none) (rule chars)
  moreover have "to_ascii_lowercase (hostname_str h) = hostname_str h"
    by (rule to_ascii_lowercase_id) (rule chars)
  moreover have "str_len (hostname_str h) = length (hostname_str h)"
    by (rule str_len_ascii) (rule chars)
  ultimately show ?thesis
    using assms by (auto simp: hostname_parse_Inr_iff hostname_wf_def list_all_iff label_wf_validate)
qed

text \<open>
  \<open>HostName::parse\<close> is a canonicalisation onto the well-formed hostnames: a value it
  returns has at most 253 characters and consists of non-empty labels over a-z, 0-9 and hyphen
  that neither begin nor end with a hyphen, and the well-formed hostnames are exactly those
  that parse to themselves.
\<close>
lemma hostname_parse_canonical:
  "(case hostname_parse s of Inl _ \<Rightarrow> True | Inr h \<Rightarrow> hostname_wf h) \<and>
   (hostname_wf h \<longleftrightarrow> hostname_parse (hostname_str h) = Inr h)"
  by (auto split: sum.split dest: hostname_parse_wf intro: hostname_wf_parse)

lemmas identity_defs [text_eval] =
  username_parse_def username_char_def username_max_len_def hostname_parse_def hostname_max_len_def
  validate_label_def label_char_def

end
