(* ===== verification/Rate_Limit.thy ===== *)
theory Rate_Limit
  imports Prelude
begin

section \<open>The per-client rate limiter (src/rate\_limit.rs)\<close>

text \<open>
  A \<open>std::time::Duration\<close> is its number of nanoseconds; chrono's \<open>DateTime<Utc>\<close> (nanoseconds
  since the epoch) and \<open>Duration\<close> are integers.  The crates are parameters: \<open>chrono_ops\<close> holds
  the conversions and subtractions, where \<^term>\<open>None\<close> is an error of \<open>from_std\<close> and \<open>to_std\<close> and
  a panic of the operators; \<open>dash_map_ops\<close> holds the operations of \<open>dashmap::DashMap\<close>, with
  \<open>dm_iter\<close> listing the entries in the order of iteration.  The locales \<open>chrono\<close> and \<open>dash_map\<close>
  state the documented behaviour the code relies on; no law fixes an iteration order.

  \<open>check_inner\<close> passes the state of the limiter through the steps of the code.  A panic is an
  outcome that carries the state the shared map is left in, and the eviction loop is a partial
  function whose \<^term>\<open>None\<close> is divergence.  The gauge is the last value written to it.
\<close>

subsection \<open>Data\<close>

type_synonym instant = int
type_synonym duration = int
type_synonym std_duration = nat

datatype ip_addr = V4 u32 | V6 "128 word"

definition nanos_per_sec :: nat where
  "nanos_per_sec = 1000000000"

definition duration_from_secs :: "u64 \<Rightarrow> std_duration" where
  "duration_from_secs s = unat s * nanos_per_sec"

record rate_limit_settings =
  rs_max_requests :: u32
  rs_window :: std_duration
  rs_max_entries :: usize

datatype rate_limit_error = LimitExceeded (retry_in: std_duration)

record rate_entry =
  window_start :: instant
  re_count :: u32

record chrono_ops =
  ch_from_std :: "std_duration \<Rightarrow> duration option"
  ch_to_std :: "duration \<Rightarrow> std_duration option"
  ch_since :: "instant \<Rightarrow> instant \<Rightarrow> duration"
  ch_instant_sub :: "instant \<Rightarrow> duration \<Rightarrow> instant option"
  ch_duration_sub :: "duration \<Rightarrow> duration \<Rightarrow> duration option"

record 'd dash_map_ops =
  dm_new :: 'd
  dm_get :: "'d \<Rightarrow> ip_addr \<Rightarrow> rate_entry option"
  dm_put :: "'d \<Rightarrow> ip_addr \<Rightarrow> rate_entry \<Rightarrow> 'd"
  dm_retain :: "'d \<Rightarrow> (ip_addr \<Rightarrow> rate_entry \<Rightarrow> bool) \<Rightarrow> 'd"
  dm_remove :: "'d \<Rightarrow> ip_addr \<Rightarrow> 'd"
  dm_len :: "'d \<Rightarrow> nat"
  dm_iter :: "'d \<Rightarrow> (ip_addr \<times> rate_entry) list"

record 'd rate_limiter =
  rl_settings :: rate_limit_settings
  rl_window :: duration
  rl_entries :: 'd
  rl_gauge :: nat

text \<open>How a call ends: with a value, or in a panic; either way it leaves a state.\<close>

datatype ('a, 's) outcome = Done 'a 's | Panic 's

subsection \<open>Construction\<close>

definition chrono_duration :: "chrono_ops \<Rightarrow> std_duration \<Rightarrow> duration" where
  "chrono_duration C w =
     (case ch_from_std C w of Some d \<Rightarrow> d | None \<Rightarrow> int nanos_per_sec)"

definition with_clock ::
  "chrono_ops \<Rightarrow> 'd dash_map_ops \<Rightarrow> rate_limit_settings \<Rightarrow> 'd rate_limiter" where
  "with_clock C D settings =
     (let settings1 = (if rs_max_entries settings = 0 then settings\<lparr>rs_max_entries := 1\<rparr> else settings)
      in \<lparr>rl_settings = settings1, rl_window = chrono_duration C (rs_window settings1),
          rl_entries = dm_new D, rl_gauge = 0\<rparr>)"

subsection \<open>A check\<close>

definition prune_stale ::
  "chrono_ops \<Rightarrow> 'd dash_map_ops \<Rightarrow> 'd rate_limiter \<Rightarrow> instant \<Rightarrow> 'd rate_limiter option" where
  "prune_stale C D L now =
     (case ch_instant_sub C now (rl_window L) of
        None \<Rightarrow> None
      | Some cutoff \<Rightarrow>
          Some (L\<lparr>rl_entries := dm_retain D (rl_entries L) (\<lambda>_ e. cutoff \<le> window_start e)\<rparr>))"

text \<open>
  The block that holds the entry's lock: the verdict (\<^term>\<open>None\<close> for a panic) and the entry as
  the block leaves it.
\<close>

definition account ::
  "chrono_ops \<Rightarrow> 'd rate_limiter \<Rightarrow> instant \<Rightarrow> rate_entry \<Rightarrow>
   (rate_limit_error + unit) option \<times> rate_entry" where
  "account C L now entry0 =
     (let entry = (if rl_window L \<le> ch_since C now (window_start entry0)
                   then \<lparr>window_start = now, re_count = 0\<rparr> else entry0)
      in if rs_max_requests (rl_settings L) \<le> re_count entry
         then
           (case ch_duration_sub C (rl_window L) (ch_since C now (window_start entry)) of
              None \<Rightarrow> (None, entry)
            | Some remaining \<Rightarrow>
                (Some (Inl (LimitExceeded
                   (case ch_to_std C remaining of Some d \<Rightarrow> d | None \<Rightarrow> nanos_per_sec))), entry))
         else (Some (Inr ()), entry\<lparr>re_count := re_count entry + 1\<rparr>))"

text \<open>The scan for the oldest entry: \<open>selected\<close> is the best candidate so far.\<close>

fun oldest_scan ::
  "ip_addr option \<Rightarrow> (ip_addr \<times> rate_entry) list \<Rightarrow> (ip_addr \<times> instant) option \<Rightarrow>
   (ip_addr \<times> instant) option" where
  "oldest_scan excluded [] selected = selected"
| "oldest_scan excluded ((key, e) # entries) selected =
     (if excluded = Some key then oldest_scan excluded entries selected
      else
        let start = window_start e;
            should_replace = (case selected of Some (_, current_start) \<Rightarrow> start < current_start | None \<Rightarrow> True)
        in oldest_scan excluded entries (if should_replace then Some (key, start) else selected))"

definition oldest_key_excluding :: "'d dash_map_ops \<Rightarrow> 'd \<Rightarrow> ip_addr option \<Rightarrow> ip_addr option" where
  "oldest_key_excluding D m excluded = map_option fst (oldest_scan excluded (dm_iter D m) None)"

definition eviction_candidate :: "'d dash_map_ops \<Rightarrow> 'd \<Rightarrow> ip_addr \<Rightarrow> ip_addr option" where
  "eviction_candidate D m protected =
     (case oldest_key_excluding D m (Some protected) of
        Some key \<Rightarrow> Some key
      | None \<Rightarrow> oldest_key_excluding D m None)"

partial_function (option) evict_loop :: "'d dash_map_ops \<Rightarrow> nat \<Rightarrow> ip_addr \<Rightarrow> 'd \<Rightarrow> 'd option" where
  "evict_loop D max_entries protected m =
     (if max_entries < dm_len D m
      then
        (case eviction_candidate D m protected of
           None \<Rightarrow> Some m
         | Some key \<Rightarrow>
             if key = protected then Some m
             else evict_loop D max_entries protected (dm_remove D m key))
      else Some m)"

definition enforce_capacity ::
  "'d dash_map_ops \<Rightarrow> 'd rate_limiter \<Rightarrow> ip_addr \<Rightarrow> 'd rate_limiter option" where
  "enforce_capacity D L protected =
     (let max_entries = unat (rs_max_entries (rl_settings L))
      in if dm_len D (rl_entries L) \<le> max_entries then Some L
         else map_option (\<lambda>m. L\<lparr>rl_entries := m\<rparr>) (evict_loop D max_entries protected (rl_entries L)))"

definition record_entry_count :: "'d dash_map_ops \<Rightarrow> 'd rate_limiter \<Rightarrow> 'd rate_limiter" where
  "record_entry_count D L = L\<lparr>rl_gauge := dm_len D (rl_entries L)\<rparr>"

definition check_inner ::
  "chrono_ops \<Rightarrow> 'd dash_map_ops \<Rightarrow> 'd rate_limiter \<Rightarrow> ip_addr \<Rightarrow> instant \<Rightarrow>
   (rate_limit_error + unit, 'd rate_limiter) outcome option" where
  "check_inner C D L ip now =
     (case prune_stale C D L now of
        None \<Rightarrow> Some (Panic L)
      | Some L1 \<Rightarrow>
          let entry0 = (case dm_get D (rl_entries L1) ip of
                          Some e \<Rightarrow> e
                        | None \<Rightarrow> \<lparr>window_start = now, re_count = 0\<rparr>);
              (verdict, entry) = account C L1 now entry0;
              L2 = L1\<lparr>rl_entries := dm_put D (rl_entries L1) ip entry\<rparr>
          in case verdict of
               None \<Rightarrow> Some (Panic L2)
             | Some result \<Rightarrow>
                 map_option (\<lambda>L3. Done result (record_entry_count D L3)) (enforce_capacity D L2 ip))"

subsection \<open>The documented behaviour of the crates\<close>

locale dash_map =
  fixes D :: "'d dash_map_ops"
  assumes iter_distinct: "distinct (map fst (dm_iter D m))"
    and get_iter: "dm_get D m k = map_of (dm_iter D m) k"
    and len_iter: "dm_len D m = length (dm_iter D m)"
    and get_new [simp]: "dm_get D (dm_new D) k = None"
    and get_put [simp]: "dm_get D (dm_put D m k e) = (dm_get D m)(k \<mapsto> e)"
    and get_remove [simp]: "dm_get D (dm_remove D m k) = (dm_get D m)(k := None)"
    and get_retain: "dm_get D (dm_retain D m P) k =
      (case dm_get D m k of None \<Rightarrow> None | Some e \<Rightarrow> if P k e then Some e else None)"

locale chrono =
  fixes C :: chrono_ops
  assumes from_std: "ch_from_std C w = Some d \<Longrightarrow> d = int w"
    and to_std: "ch_to_std C d = (if 0 \<le> d then Some (nat d) else None)"
    and since [simp]: "ch_since C t s = t - s"
    and instant_sub: "ch_instant_sub C t d = Some s \<Longrightarrow> s = t - d"
    and duration_sub: "0 \<le> b \<Longrightarrow> b \<le> a \<Longrightarrow> ch_duration_sub C a b = Some (a - b)"

locale limiter_env = dash_map D + chrono C
  for C :: chrono_ops and D :: "'d dash_map_ops"

text \<open>
  The provider used in examples: an association list in which the first binding of a key
  counts, and chrono with a range of representable instants.
\<close>

definition assoc_dash_map :: "(ip_addr \<times> rate_entry) list dash_map_ops" where
  "assoc_dash_map =
     \<lparr>dm_new = [], dm_get = map_of, dm_put = \<lambda>m k e. AList.update k e m,
      dm_retain = \<lambda>m P. filter (\<lambda>(k, e). P k e) (AList.clearjunk m),
      dm_remove = \<lambda>m k. AList.delete k m, dm_len = \<lambda>m. length (AList.clearjunk m),
      dm_iter = AList.clearjunk\<rparr>"

definition ranged_chrono :: "nat \<Rightarrow> int \<Rightarrow> chrono_ops" where
  "ranged_chrono longest earliest =
     \<lparr>ch_from_std = \<lambda>w. (if w \<le> longest then Some (int w) else None),
      ch_to_std = \<lambda>d. (if 0 \<le> d then Some (nat d) else None),
      ch_since = \<lambda>t s. t - s,
      ch_instant_sub = \<lambda>t d. (if earliest \<le> t - d then Some (t - d) else None),
      ch_duration_sub = \<lambda>a b. (if \<bar>a - b\<bar> \<le> max \<bar>a\<bar> (int longest) then Some (a - b) else None)\<rparr>"

lemma map_of_filter_distinct:
  "distinct (map fst xs) \<Longrightarrow> map_of (filter (\<lambda>(k, e). P k e) xs) k =
     (case map_of xs k of None \<Rightarrow> None | Some e \<Rightarrow> if P k e then Some e else None)"
proof (induction xs)
  case (Cons x xs)
  then show ?case
    by (cases x) (auto simp: map_of_eq_None_iff split: option.split)
qed simp

interpretation assoc_env: limiter_env "ranged_chrono longest earliest" assoc_dash_map
  for longest earliest
  by unfold_locales
    (auto simp: assoc_dash_map_def ranged_chrono_def distinct_clearjunk map_of_clearjunk update_conv'
      delete_conv' map_of_filter_distinct split: if_splits)

subsection \<open>The eviction loop\<close>

context dash_map
begin

lemma iter_mem: "(k, e) \<in> set (dm_iter D m) \<longleftrightarrow> dm_get D m k = Some e"
  by (simp add: get_iter iter_distinct)

lemma dom_get: "dom (dm_get D m) = fst ` set (dm_iter D m)"
proof -
  have "dm_get D m = map_of (dm_iter D m)" by (rule ext) (rule get_iter)
  then show ?thesis by (simp add: dom_map_of_conv_image_fst)
qed

lemma finite_dom: "finite (dom (dm_get D m))"
  by (simp add: dom_get)

lemma len_dom: "dm_len D m = card (dom (dm_get D m))"
proof -
  have "card (fst ` set (dm_iter D m)) = length (map fst (dm_iter D m))"
    using iter_distinct distinct_card by (metis set_map)
  then show ?thesis by (simp add: len_iter dom_get)
qed

end

lemma oldest_scan_None:
  "oldest_scan ex es sel = None \<longleftrightarrow> sel = None \<and> (\<forall>(k, e) \<in> set es. ex = Some k)"
proof (induction es arbitrary: sel)
  case (Cons x es)
  obtain key e where x: "x = (key, e)" by (cases x)
  show ?case using x Cons.IH
    by (cases "ex = Some key"; cases sel) (simp_all add: Let_def split_def)
qed simp

lemma oldest_scan_Some:
  assumes "oldest_scan ex es sel = Some (k, s)"
  shows "sel = Some (k, s) \<or> (\<exists>e. (k, e) \<in> set es \<and> ex \<noteq> Some k \<and> window_start e = s)"
    and "sel = Some (k0, s0) \<Longrightarrow> s \<le> s0"
    and "(k', e') \<in> set es \<Longrightarrow> ex \<noteq> Some k' \<Longrightarrow> s \<le> window_start e'"
proof -
  have "(sel = Some (k, s) \<or> (\<exists>e. (k, e) \<in> set es \<and> ex \<noteq> Some k \<and> window_start e = s)) \<and>
      (\<forall>k0 s0. sel = Some (k0, s0) \<longrightarrow> s \<le> s0) \<and>
      (\<forall>(k', e') \<in> set es. ex \<noteq> Some k' \<longrightarrow> s \<le> window_start e')"
    using assms
  proof (induction es arbitrary: sel)
    case (Cons x es)
    obtain key e where x: "x = (key, e)" by (cases x)
    show ?case
    proof (cases "ex = Some key")
      case True
      then have "oldest_scan ex es sel = Some (k, s)" using Cons.prems x by simp
      from Cons.IH [OF this] True x show ?thesis by auto
    next
      case False
      let ?sel = "if (case sel of Some (_, c) \<Rightarrow> window_start e < c | None \<Rightarrow> True)
        then Some (key, window_start e) else sel"
      have "oldest_scan ex es ?sel = Some (k, s)" using Cons.prems x False by (simp add: Let_def)
      note IH = Cons.IH [OF this]
      show ?thesis
      proof (cases "case sel of Some (_, c) \<Rightarrow> window_start e < c | None \<Rightarrow> True")
        case True
        then show ?thesis using IH x False by (auto split: option.splits)
      next
        case False
        then show ?thesis using IH x \<open>ex \<noteq> Some key\<close> by (force split: option.splits)
      qed
    qed
  qed simp
  then show "sel = Some (k, s) \<or> (\<exists>e. (k, e) \<in> set es \<and> ex \<noteq> Some k \<and> window_start e = s)"
    and "sel = Some (k0, s0) \<Longrightarrow> s \<le> s0"
    and "(k', e') \<in> set es \<Longrightarrow> ex \<noteq> Some k' \<Longrightarrow> s \<le> window_start e'"
    by auto
qed

text \<open>What the loop may do to the map: drop entries other than \<open>p\<close>, oldest first.\<close>

definition evicts_oldest :: "ip_addr \<Rightarrow> (ip_addr \<rightharpoonup> rate_entry) \<Rightarrow> (ip_addr \<rightharpoonup> rate_entry) \<Rightarrow> bool" where
  "evicts_oldest p A B \<longleftrightarrow>
     B \<subseteq>\<^sub>m A \<and> B p = A p \<and>
     (\<forall>k e k' e'. A k = Some e \<and> B k = None \<and> k' \<noteq> p \<and> B k' = Some e' \<longrightarrow>
        window_start e \<le> window_start e')"

lemma evicts_oldest_refl: "evicts_oldest p A A"
  by (auto simp: evicts_oldest_def)

lemma evicts_oldest_step:
  assumes "evicts_oldest p (A(k := None)) B" and "k \<noteq> p" and "A k = Some e"
    and "\<And>k' e'. k' \<noteq> p \<Longrightarrow> A k' = Some e' \<Longrightarrow> window_start e \<le> window_start e'"
  shows "evicts_oldest p A B"
proof -
  have le: "B \<subseteq>\<^sub>m A"
    using assms(1) by (auto simp: evicts_oldest_def map_le_def) (metis domI option.distinct(1))
  moreover have "B p = A p" using assms(1,2) by (simp add: evicts_oldest_def)
  moreover have "window_start f \<le> window_start e'"
    if "A j = Some f" "B j = None" "k' \<noteq> p" "B k' = Some e'" for j f k' e'
  proof (cases "j = k")
    case True
    have "A k' = Some e'" using le that(4) by (metis domI map_le_def)
    with True assms(3,4) that show ?thesis by auto
  next
    case False
    then have "(A(k := None)) j = Some f" using that(1) by simp
    with assms(1) that(2-4) show ?thesis unfolding evicts_oldest_def by blast
  qed
  ultimately show ?thesis unfolding evicts_oldest_def by blast
qed

context dash_map
begin

lemma candidate_oldest:
  assumes "eviction_candidate D m p = Some k" and "k \<noteq> p"
  shows "\<exists>e. dm_get D m k = Some e \<and>
    (\<forall>k' e'. k' \<noteq> p \<longrightarrow> dm_get D m k' = Some e' \<longrightarrow> window_start e \<le> window_start e')"
proof (cases "oldest_key_excluding D m (Some p)")
  case None
  then have "\<forall>(k, e) \<in> set (dm_iter D m). k = p"
    by (auto simp: oldest_key_excluding_def oldest_scan_None)
  moreover have "oldest_key_excluding D m None = Some k"
    using assms(1) None by (simp add: eviction_candidate_def)
  then obtain s where "oldest_scan None (dm_iter D m) None = Some (k, s)"
    by (auto simp: oldest_key_excluding_def)
  then have "\<exists>e. (k, e) \<in> set (dm_iter D m)" using oldest_scan_Some(1) by fastforce
  ultimately show ?thesis using assms(2) by auto
next
  case (Some j)
  then have "j = k" using assms(1) by (simp add: eviction_candidate_def)
  then obtain s where s: "oldest_scan (Some p) (dm_iter D m) None = Some (k, s)"
    using Some by (auto simp: oldest_key_excluding_def)
  from oldest_scan_Some(1) [OF s] obtain e where "dm_get D m k = Some e" "window_start e = s"
    by (auto simp: iter_mem)
  moreover have "s \<le> window_start e'" if "k' \<noteq> p" "dm_get D m k' = Some e'" for k' e'
    using oldest_scan_Some(3) [OF s, of k' e'] that by (auto simp: iter_mem)
  ultimately show ?thesis by auto
qed

lemma candidate_stops:
  assumes "eviction_candidate D m p = None \<or> eviction_candidate D m p = Some p"
  shows "dom (dm_get D m) \<subseteq> {p}"
proof -
  have "oldest_key_excluding D m (Some p) = None"
  proof (rule ccontr)
    assume "oldest_key_excluding D m (Some p) \<noteq> None"
    then obtain k s where "oldest_scan (Some p) (dm_iter D m) None = Some (k, s)"
      and "eviction_candidate D m p = Some k"
      by (auto simp: oldest_key_excluding_def eviction_candidate_def)
    with assms show False using oldest_scan_Some(1) by fastforce
  qed
  then show ?thesis by (auto simp: oldest_key_excluding_def oldest_scan_None iter_mem)
qed

lemma evict_loop_spec:
  "\<exists>m'. evict_loop D n p m = Some m' \<and> evicts_oldest p (dm_get D m) (dm_get D m') \<and>
     (dm_len D m' \<le> n \<or> dom (dm_get D m') \<subseteq> {p}) \<and> (dm_len D m \<le> n \<longrightarrow> m' = m) \<and>
     min n (dm_len D m) \<le> dm_len D m'"
proof (induction "dm_len D m" arbitrary: m rule: less_induct)
  case less
  show ?case
  proof (cases "n < dm_len D m")
    case False
    then show ?thesis by (simp add: evict_loop.simps [of D n p m] evicts_oldest_refl)
  next
    case len: True
    show ?thesis
    proof (cases "eviction_candidate D m p = None \<or> eviction_candidate D m p = Some p")
      case True
      then have "evict_loop D n p m = Some m" using len by (auto simp: evict_loop.simps [of D n p m])
      then show ?thesis using candidate_stops [OF True] len by (simp add: evicts_oldest_refl)
    next
      case False
      then obtain k where k: "eviction_candidate D m p = Some k" "k \<noteq> p" by auto
      from candidate_oldest [OF k] obtain e where e: "dm_get D m k = Some e"
        "\<And>k' e'. k' \<noteq> p \<Longrightarrow> dm_get D m k' = Some e' \<Longrightarrow> window_start e \<le> window_start e'" by blast
      have "dm_len D m = Suc (dm_len D (dm_remove D m k))"
        using card.remove [OF finite_dom domI [of "dm_get D m", OF e(1)]] by (simp add: len_dom)
      then have smaller: "dm_len D (dm_remove D m k) < dm_len D m" "n \<le> dm_len D (dm_remove D m k)"
        using len by simp_all
      from less [OF smaller(1)] obtain m' where m': "evict_loop D n p (dm_remove D m k) = Some m'"
        "evicts_oldest p ((dm_get D m)(k := None)) (dm_get D m')"
        "dm_len D m' \<le> n \<or> dom (dm_get D m') \<subseteq> {p}" "n \<le> dm_len D m'"
        using smaller(2) by auto
      moreover have "evict_loop D n p m = Some m'"
        using len k m'(1) by (simp add: evict_loop.simps [of D n p m])
      ultimately show ?thesis using evicts_oldest_step [OF m'(2) k(2) e] len by auto
    qed
  qed
qed

end

subsection \<open>The abstract limiter: one fixed window per client\<close>

text \<open>
  Seen from outside, a client has at most one running window.  A check starts a fresh one when
  there is none or it has run out, refuses when the window's quota is used up (with the time
  that is left of it), and counts the request otherwise.
\<close>

definition live_entry :: "duration \<Rightarrow> instant \<Rightarrow> rate_entry option \<Rightarrow> rate_entry" where
  "live_entry w now eo =
     (case eo of
        Some e \<Rightarrow> if now - window_start e < w then e else \<lparr>window_start = now, re_count = 0\<rparr>
      | None \<Rightarrow> \<lparr>window_start = now, re_count = 0\<rparr>)"

definition fixed_window ::
  "u32 \<Rightarrow> duration \<Rightarrow> instant \<Rightarrow> rate_entry option \<Rightarrow> (rate_limit_error + unit) \<times> rate_entry" where
  "fixed_window max_requests w now eo =
     (let e = live_entry w now eo
      in if max_requests \<le> re_count e
         then (Inl (LimitExceeded (nat (w - (now - window_start e)))), e)
         else (Inr (), e\<lparr>re_count := re_count e + 1\<rparr>))"

definition limiter_wf :: "'d rate_limiter \<Rightarrow> bool" where
  "limiter_wf L \<longleftrightarrow> 0 \<le> rl_window L \<and> rs_max_entries (rl_settings L) \<noteq> 0"

text \<open>The clock has not run backwards past the entry, and chrono can represent the cutoff.\<close>

definition started_by :: "instant \<Rightarrow> (ip_addr \<rightharpoonup> rate_entry) \<Rightarrow> bool" where
  "started_by now A \<longleftrightarrow> (\<forall>k e. A k = Some e \<longrightarrow> window_start e \<le> now)"

definition cutoff_ok :: "chrono_ops \<Rightarrow> 'd rate_limiter \<Rightarrow> instant \<Rightarrow> bool" where
  "cutoff_ok C L now \<longleftrightarrow> ch_instant_sub C now (rl_window L) \<noteq> None"

text \<open>What a check by \<open>ip\<close> does to the entries: its own is set, stale ones are dropped, and at
  capacity the oldest ones go.\<close>

definition pruned :: "instant \<Rightarrow> (ip_addr \<rightharpoonup> rate_entry) \<Rightarrow> (ip_addr \<rightharpoonup> rate_entry)" where
  "pruned cutoff A =
     (\<lambda>k. case A k of Some e \<Rightarrow> if cutoff \<le> window_start e then Some e else None | None \<Rightarrow> None)"

lemma pruned_Some: "pruned cutoff A k = Some e \<longleftrightarrow> A k = Some e \<and> cutoff \<le> window_start e"
  by (auto simp: pruned_def split: option.splits)

lemma live_entry_pruned:
  "live_entry w now (pruned (now - w) A k) = live_entry w now (A k)"
  by (auto simp: live_entry_def pruned_def split: option.splits)

lemma live_entry_started:
  "0 \<le> w \<Longrightarrow> (\<And>e. eo = Some e \<Longrightarrow> window_start e \<le> now) \<Longrightarrow>
     window_start (live_entry w now eo) \<le> now \<and> now - window_start (live_entry w now eo) \<le> w"
  by (auto simp: live_entry_def split: option.splits)

context limiter_env
begin

lemma prune_get:
  "ch_instant_sub C now (rl_window L) = Some cutoff \<Longrightarrow>
     prune_stale C D L now =
       Some (L\<lparr>rl_entries := dm_retain D (rl_entries L) (\<lambda>_ e. cutoff \<le> window_start e)\<rparr>) \<and>
     dm_get D (dm_retain D (rl_entries L) (\<lambda>_ e. cutoff \<le> window_start e)) =
       pruned (now - rl_window L) (dm_get D (rl_entries L))"
  by (auto simp: prune_stale_def get_retain pruned_def fun_eq_iff dest: instant_sub split: option.split)

lemma account_fixed_window:
  assumes "0 \<le> rl_window L" and "window_start e \<le> now"
  shows "account C L now e =
    map_prod Some id (fixed_window (rs_max_requests (rl_settings L)) (rl_window L) now (Some e))"
proof -
  let ?e = "live_entry (rl_window L) now (Some e)"
  have e: "(if rl_window L \<le> now - window_start e then \<lparr>window_start = now, re_count = 0\<rparr> else e) = ?e"
    by (simp add: live_entry_def)
  have "0 \<le> now - window_start ?e" "now - window_start ?e \<le> rl_window L"
    using live_entry_started [OF assms(1), of "Some e" now] assms(2) by auto
  then show ?thesis
    unfolding account_def since e by (simp add: fixed_window_def duration_sub to_std Let_def)
qed

lemma account_fresh:
  "0 \<le> rl_window L \<Longrightarrow> account C L now \<lparr>window_start = now, re_count = 0\<rparr> =
    map_prod Some id (fixed_window (rs_max_requests (rl_settings L)) (rl_window L) now None)"
  by (simp add: account_fixed_window) (simp add: fixed_window_def live_entry_def)

text \<open>The whole check, in terms of the entries seen as a map.\<close>

lemma check_spec:
  assumes "limiter_wf L" "cutoff_ok C L now" "started_by now (dm_get D (rl_entries L))"
  shows "\<exists>L'. check_inner C D L ip now =
      Some (Done (fst (fixed_window (rs_max_requests (rl_settings L)) (rl_window L) now
                         (dm_get D (rl_entries L) ip))) L') \<and>
    rl_settings L' = rl_settings L \<and> rl_window L' = rl_window L \<and>
    rl_gauge L' = dm_len D (rl_entries L') \<and>
    dm_len D (rl_entries L') \<le> unat (rs_max_entries (rl_settings L)) \<and>
    evicts_oldest ip
      ((pruned (now - rl_window L) (dm_get D (rl_entries L)))
        (ip \<mapsto> snd (fixed_window (rs_max_requests (rl_settings L)) (rl_window L) now
                      (dm_get D (rl_entries L) ip))))
      (dm_get D (rl_entries L')) \<and>
    (card (insert ip (dom (pruned (now - rl_window L) (dm_get D (rl_entries L)))))
        \<le> unat (rs_max_entries (rl_settings L)) \<longrightarrow>
      dm_get D (rl_entries L') =
        (pruned (now - rl_window L) (dm_get D (rl_entries L)))
          (ip \<mapsto> snd (fixed_window (rs_max_requests (rl_settings L)) (rl_window L) now
                      (dm_get D (rl_entries L) ip)))) \<and>
    dm_len D (rl_entries L') = min (unat (rs_max_entries (rl_settings L)))
      (card (insert ip (dom (pruned (now - rl_window L) (dm_get D (rl_entries L))))))"
proof -
  let ?w = "rl_window L" and ?A = "dm_get D (rl_entries L)" and ?n = "unat (rs_max_entries (rl_settings L))"
  let ?fw = "fixed_window (rs_max_requests (rl_settings L)) ?w now (?A ip)"
  obtain cutoff where cut: "ch_instant_sub C now ?w = Some cutoff"
    using assms(2) by (auto simp: cutoff_ok_def)
  define m1 where "m1 = dm_retain D (rl_entries L) (\<lambda>_ e. cutoff \<le> window_start e)"
  have prune: "prune_stale C D L now = Some (L\<lparr>rl_entries := m1\<rparr>)"
    and A1: "dm_get D m1 = pruned (now - ?w) ?A" using prune_get [OF cut] by (auto simp: m1_def)
  have w: "0 \<le> ?w" and n: "?n \<ge> 1"
    using assms(1) by (simp_all add: limiter_wf_def unat_gt_0 Suc_le_eq)
  have acc: "account C (L\<lparr>rl_entries := m1\<rparr>) now
      (case dm_get D m1 ip of Some e \<Rightarrow> e | None \<Rightarrow> \<lparr>window_start = now, re_count = 0\<rparr>) =
    map_prod Some id ?fw"
  proof -
    have fw: "fixed_window q ?w now (dm_get D m1 ip) = fixed_window q ?w now (?A ip)" for q
      by (simp add: A1 fixed_window_def live_entry_pruned)
    show ?thesis
    proof (cases "dm_get D m1 ip")
      case None
      then show ?thesis using w fw by (simp add: account_fresh)
    next
      case (Some e)
      then have "window_start e \<le> now"
        using assms(3) by (auto simp: A1 pruned_Some started_by_def)
      then show ?thesis using w fw Some by (simp add: account_fixed_window)
    qed
  qed
  define m2 where "m2 = dm_put D m1 ip (snd ?fw)"
  have A2: "dm_get D m2 = (pruned (now - ?w) ?A)(ip \<mapsto> snd ?fw)" by (simp add: m2_def A1)
  obtain m3 where m3: "evict_loop D ?n ip m2 = Some m3" "evicts_oldest ip (dm_get D m2) (dm_get D m3)"
    "dm_len D m3 \<le> ?n \<or> dom (dm_get D m3) \<subseteq> {ip}" "dm_len D m2 \<le> ?n \<longrightarrow> m3 = m2"
    "min ?n (dm_len D m2) \<le> dm_len D m3"
    using evict_loop_spec by blast
  have "card (dom (dm_get D m3)) \<le> 1" if "dom (dm_get D m3) \<subseteq> {ip}"
    using card_mono [OF _ that] by simp
  then have len: "dm_len D m3 \<le> ?n" using m3(3) n by (auto simp: len_dom)
  let ?L2 = "L\<lparr>rl_entries := m2\<rparr>" and ?L3 = "L\<lparr>rl_entries := m3, rl_gauge := dm_len D m3\<rparr>"
  have "enforce_capacity D ?L2 ip = Some (L\<lparr>rl_entries := m3\<rparr>)"
    using m3(1,4) by (auto simp: enforce_capacity_def Let_def)
  then have "check_inner C D L ip now = Some (Done (fst ?fw) ?L3)"
    using acc by (simp add: check_inner_def prune Let_def map_prod_def case_prod_beta m2_def
        record_entry_count_def)
  moreover have size: "dm_len D m2 = card (insert ip (dom (pruned (now - ?w) ?A)))"
    by (simp add: len_dom A2)
  moreover have "dm_len D m3 = min ?n (dm_len D m2)"
    using len m3(4,5) by (cases "dm_len D m2 \<le> ?n") auto
  ultimately show ?thesis using len m3(2,4) A2 by (intro exI [of _ ?L3]) auto
qed

end

lemma limiter_wf_with_clock: "limiter_env C D \<Longrightarrow> limiter_wf (with_clock C D S)"
  by (auto simp: limiter_wf_def with_clock_def chrono_duration_def Let_def nanos_per_sec_def
      limiter_env_def dest: chrono.from_std split: option.split)

lemma evicts_oldest_le: "evicts_oldest p A B \<Longrightarrow> B k = Some e \<Longrightarrow> A k = Some e"
  by (auto simp: evicts_oldest_def map_le_def dom_def)

lemma fixed_window_live:
  "live_entry w now eo = live_entry w now eo' \<Longrightarrow> fixed_window q w now eo = fixed_window q w now eo'"
  by (simp add: fixed_window_def)

lemma fixed_window_start:
  "0 \<le> w \<Longrightarrow> (\<And>e. eo = Some e \<Longrightarrow> window_start e \<le> now) \<Longrightarrow>
     window_start (snd (fixed_window q w now eo)) \<le> now"
  using live_entry_started [of w eo now] by (simp add: fixed_window_def Let_def)

lemma fixed_window_count:
  "(\<And>e. eo = Some e \<Longrightarrow> re_count e \<le> q) \<Longrightarrow> re_count (snd (fixed_window q w now eo)) \<le> q"
  by (auto simp: fixed_window_def live_entry_def Let_def not_le less_imp_le inc_le split: option.splits)

lemma fixed_window_busy:
  assumes "0 < q"
  shows "0 < re_count (snd (fixed_window q w now eo))"
proof (cases "q \<le> re_count (live_entry w now eo)")
  case True
  with assms show ?thesis by (auto simp: fixed_window_def Let_def intro: order.strict_trans2)
next
  case False
  then have "unat (re_count (live_entry w now eo) + 1) > 0" by (simp add: unat_inc not_le)
  with False show ?thesis by (simp add: fixed_window_def Let_def unat_gt_0 word_neq_0_conv)
qed

lemma started_by_check:
  assumes "0 \<le> w" "started_by now A" "evicts_oldest ip ((pruned c A)(ip \<mapsto> snd (fixed_window q w now (A ip)))) B"
  shows "started_by now B"
proof (unfold started_by_def, intro allI impI)
  fix k e assume "B k = Some e"
  then have k: "((pruned c A)(ip \<mapsto> snd (fixed_window q w now (A ip)))) k = Some e"
    using assms(3) by (rule evicts_oldest_le [rotated])
  show "window_start e \<le> now"
  proof (cases "k = ip")
    case True
    then have "e = snd (fixed_window q w now (A ip))" using k by simp
    then show ?thesis using assms(1,2) by (auto simp: started_by_def intro!: fixed_window_start)
  next
    case False
    then show ?thesis using k assms(2) by (auto simp: pruned_Some started_by_def)
  qed
qed

lemma check_done:
  assumes "limiter_env C D" and "limiter_wf L" and "cutoff_ok C L now"
    and "started_by now (dm_get D (rl_entries L))"
    and "fixed_window (rs_max_requests (rl_settings L)) (rl_window L) now
      (dm_get D (rl_entries L) ip) = (r, e)"
  obtains L' where "check_inner C D L ip now = Some (Done r L')"
    and "rl_settings L' = rl_settings L" "rl_window L' = rl_window L"
    and "rl_gauge L' = dm_len D (rl_entries L')"
    and "dm_len D (rl_entries L') \<le> unat (rs_max_entries (rl_settings L))"
    and "evicts_oldest ip ((pruned (now - rl_window L) (dm_get D (rl_entries L)))(ip \<mapsto> e))
      (dm_get D (rl_entries L'))"
    and "card (insert ip (dom (pruned (now - rl_window L) (dm_get D (rl_entries L)))))
        \<le> unat (rs_max_entries (rl_settings L)) \<Longrightarrow>
      dm_get D (rl_entries L') = (pruned (now - rl_window L) (dm_get D (rl_entries L)))(ip \<mapsto> e)"
    and "dm_len D (rl_entries L') = min (unat (rs_max_entries (rl_settings L)))
      (card (insert ip (dom (pruned (now - rl_window L) (dm_get D (rl_entries L))))))"
  using limiter_env.check_spec [OF assms(1-4), of ip] unfolding assms(5) fst_conv snd_conv by blast

lemma check_keeps:
  assumes "limiter_env C D" and "limiter_wf L" and "cutoff_ok C L now"
    and "started_by now (dm_get D (rl_entries L))" and "check_inner C D L ip now = Some (Done r L')"
  shows "limiter_wf L'" "started_by now (dm_get D (rl_entries L'))"
    "rl_settings L' = rl_settings L" "rl_window L' = rl_window L"
proof -
  obtain v e where ve: "fixed_window (rs_max_requests (rl_settings L)) (rl_window L) now
      (dm_get D (rl_entries L) ip) = (v, e)" by fastforce
  from check_done [OF assms(1-4) ve] assms(5)
  show "rl_settings L' = rl_settings L" "rl_window L' = rl_window L"
    by (metis option.inject outcome.inject(1))+
  then show "limiter_wf L'" using assms(2) by (simp add: limiter_wf_def)
  have "evicts_oldest ip ((pruned (now - rl_window L) (dm_get D (rl_entries L)))(ip \<mapsto> e))
      (dm_get D (rl_entries L'))"
    using check_done [OF assms(1-4) ve] assms(5) by (metis option.inject outcome.inject(1))
  then show "started_by now (dm_get D (rl_entries L'))"
    using assms(2,4) started_by_check ve unfolding limiter_wf_def by (metis snd_conv)
qed

subsection \<open>Properties of a single check\<close>

text \<open>
  C3: A check answers exactly as the caller's own fixed window says, whatever the other entries
  are, and leaves that window as the caller's entry; of another client it keeps the entry as it
  was, if at all, and never one whose window started before the cutoff.
\<close>

theorem check_fixed_window:
  assumes "limiter_env C D" and "limiter_wf L" and "cutoff_ok C L now"
    and "started_by now (dm_get D (rl_entries L))"
  shows "\<exists>r e L'. fixed_window (rs_max_requests (rl_settings L)) (rl_window L) now
      (dm_get D (rl_entries L) ip) = (r, e) \<and>
    check_inner C D L ip now = Some (Done r L') \<and> dm_get D (rl_entries L') ip = Some e \<and>
    (\<forall>k e'. k \<noteq> ip \<longrightarrow> dm_get D (rl_entries L') k = Some e' \<longrightarrow>
       dm_get D (rl_entries L) k = Some e' \<and> now - rl_window L \<le> window_start e')"
proof -
  obtain r e where re: "fixed_window (rs_max_requests (rl_settings L)) (rl_window L) now
      (dm_get D (rl_entries L) ip) = (r, e)" by fastforce
  obtain L' where L': "check_inner C D L ip now = Some (Done r L')"
    "evicts_oldest ip ((pruned (now - rl_window L) (dm_get D (rl_entries L)))(ip \<mapsto> e))
      (dm_get D (rl_entries L'))"
    using check_done [OF assms re] by metis
  from L'(2) have "dm_get D (rl_entries L') ip = Some e" by (simp add: evicts_oldest_def)
  with L'(1) show ?thesis
    by (intro exI [of _ r] exI [of _ e] exI [of _ L'])
      (auto simp: re pruned_Some dest: evicts_oldest_le [OF L'(2)])
qed

definition client_a :: ip_addr where "client_a = V4 0xC0000201"

definition client_b :: ip_addr where "client_b = V4 0xC0000202"

definition sample_settings :: rate_limit_settings where
  "sample_settings = \<lparr>rs_max_requests = 2, rs_window = 60, rs_max_entries = 1\<rparr>"

definition sample_chrono :: chrono_ops where "sample_chrono = ranged_chrono 1000 0"

text \<open>Two requests per 60 time units, one entry at most; \<open>client_a\<close> has used up its window.\<close>

definition sample_limiter :: "(ip_addr \<times> rate_entry) list rate_limiter" where
  "sample_limiter =
     \<lparr>rl_settings = \<lparr>rs_max_requests = 2, rs_window = 60, rs_max_entries = 1\<rparr>, rl_window = 60,
      rl_entries = [(client_a, \<lparr>window_start = 100, re_count = 2\<rparr>)], rl_gauge = 1\<rparr>"

lemmas limiter_sample = client_a_def client_b_def sample_chrono_def sample_limiter_def
  assoc_dash_map_def ranged_chrono_def

lemma sample_limiter_ok:
  "limiter_env sample_chrono assoc_dash_map" "limiter_wf sample_limiter"
  "60 \<le> now \<Longrightarrow> cutoff_ok sample_chrono sample_limiter now"
  "100 \<le> now \<Longrightarrow> started_by now (dm_get assoc_dash_map (rl_entries sample_limiter))"
  using assoc_env.limiter_env_axioms [of 1000 0]
  by (auto simp: limiter_wf_def cutoff_ok_def started_by_def limiter_sample)

lemma check_fixed_window_witness:
  "\<exists>L'. check_inner sample_chrono assoc_dash_map sample_limiter client_a 120 =
      Some (Done (Inl (LimitExceeded 40)) L') \<and>
    dm_get assoc_dash_map (rl_entries L') client_a = Some \<lparr>window_start = 100, re_count = 2\<rparr>"
  using check_fixed_window [OF sample_limiter_ok(1,2) sample_limiter_ok(3,4), of 120 client_a]
  by (auto simp: fixed_window_def live_entry_def limiter_sample)

text \<open>
  C8: After a check the map holds the caller's entry and as many of the others that could still
  count as the configured number allows, no fewer, and the gauge says how many.  An entry that could still count is dropped only if there
  would otherwise be too many, and of the other clients' entries those that are dropped are
  never younger than those that are kept.
\<close>

theorem check_capacity:
  assumes "limiter_env C D" and "limiter_wf L" and "cutoff_ok C L now"
    and "started_by now (dm_get D (rl_entries L))"
  shows "\<exists>r L'. check_inner C D L ip now = Some (Done r L') \<and>
    dm_len D (rl_entries L') = min (unat (rs_max_entries (rl_settings L)))
      (card (insert ip {k. \<exists>e. dm_get D (rl_entries L) k = Some e \<and> now - rl_window L \<le> window_start e})) \<and>
    rl_gauge L' = dm_len D (rl_entries L') \<and> dm_get D (rl_entries L') ip \<noteq> None \<and>
    (\<forall>k e. k \<noteq> ip \<and> dm_get D (rl_entries L) k = Some e \<and> now - rl_window L \<le> window_start e \<and>
       dm_get D (rl_entries L') k = None \<longrightarrow>
       unat (rs_max_entries (rl_settings L)) <
         card (insert ip {k. \<exists>e. dm_get D (rl_entries L) k = Some e \<and> now - rl_window L \<le> window_start e}) \<and>
       (\<forall>k' e'. k' \<noteq> ip \<and> dm_get D (rl_entries L') k' = Some e' \<longrightarrow> window_start e \<le> window_start e'))"
proof -
  let ?P = "pruned (now - rl_window L) (dm_get D (rl_entries L))"
  obtain r e where re: "fixed_window (rs_max_requests (rl_settings L)) (rl_window L) now
      (dm_get D (rl_entries L) ip) = (r, e)" by fastforce
  obtain L' where L': "check_inner C D L ip now = Some (Done r L')"
    "rl_gauge L' = dm_len D (rl_entries L')"
    "dm_len D (rl_entries L') = min (unat (rs_max_entries (rl_settings L))) (card (insert ip (dom ?P)))"
    "evicts_oldest ip (?P(ip \<mapsto> e)) (dm_get D (rl_entries L'))"
    "card (insert ip (dom ?P)) \<le> unat (rs_max_entries (rl_settings L)) \<Longrightarrow>
      dm_get D (rl_entries L') = ?P(ip \<mapsto> e)"
    using check_done [OF assms re] by metis
  have dom: "dom ?P = {k. \<exists>e. dm_get D (rl_entries L) k = Some e \<and> now - rl_window L \<le> window_start e}"
    by (auto simp: dom_def pruned_Some)
  have own: "dm_get D (rl_entries L') ip \<noteq> None" using L'(4) by (simp add: evicts_oldest_def)
  have dropped: "unat (rs_max_entries (rl_settings L)) < card (insert ip (dom ?P)) \<and>
      (\<forall>k' e'. k' \<noteq> ip \<and> dm_get D (rl_entries L') k' = Some e' \<longrightarrow> window_start f \<le> window_start e')"
    if "k \<noteq> ip" "dm_get D (rl_entries L) k = Some f" "now - rl_window L \<le> window_start f"
      "dm_get D (rl_entries L') k = None" for k f
  proof -
    have k: "(?P(ip \<mapsto> e)) k = Some f" using that by (simp add: pruned_Some)
    then have "\<not> card (insert ip (dom ?P)) \<le> unat (rs_max_entries (rl_settings L))"
      using L'(5) that(4) by auto
    then show ?thesis using L'(4) k that(1,4) unfolding evicts_oldest_def by (metis not_le)
  qed
  show ?thesis
    using L'(1-3) own dropped unfolding dom
    by (intro exI [of _ r] exI [of _ L'] conjI allI impI) auto
qed

lemma check_capacity_witness:
  "\<exists>r L'. check_inner sample_chrono assoc_dash_map sample_limiter client_b 130 = Some (Done r L') \<and>
    length (AList.clearjunk (rl_entries L')) \<le> 1 \<and> map_of (rl_entries L') client_b \<noteq> None"
  using check_capacity [OF sample_limiter_ok(1,2) sample_limiter_ok(3,4), of 130 client_b]
  by (auto simp: limiter_sample)

text \<open>
  C27: A check always ends: the loop that evicts entries stops on every map, whatever order the
  map iterates in and whatever the clock and the settings are.
\<close>

theorem check_terminates:
  assumes "dash_map D"
  shows "check_inner C D L ip now \<noteq> None"
proof -
  have "enforce_capacity D M ip \<noteq> None" for M
    using dash_map.evict_loop_spec [OF assms] by (auto simp: enforce_capacity_def Let_def) (metis option.discI)
  then show ?thesis
    by (auto simp: check_inner_def Let_def split: option.split prod.split)
qed

lemma check_terminates_witness:
  "check_inner sample_chrono assoc_dash_map (sample_limiter\<lparr>rl_settings := \<lparr>rs_max_requests = 0, rs_window = 0, rs_max_entries = 0\<rparr>\<rparr>)
     client_b 200 \<noteq> None"
  by (rule check_terminates) (rule assoc_env.dash_map_axioms)

lemma check_panics:
  assumes "limiter_env C D" and "limiter_wf L" and "started_by now (dm_get D (rl_entries L))"
  shows "check_inner C D L ip now = Some (Panic L') \<longleftrightarrow> \<not> cutoff_ok C L now \<and> L' = L"
proof (cases "cutoff_ok C L now")
  case True
  obtain r e where "fixed_window (rs_max_requests (rl_settings L)) (rl_window L) now
      (dm_get D (rl_entries L) ip) = (r, e)" by fastforce
  from check_done [OF assms(1,2) True assms(3) this] True show ?thesis by (metis option.inject outcome.distinct(1))
next
  case False
  then show ?thesis by (auto simp: cutoff_ok_def check_inner_def prune_stale_def)
qed

text \<open>
  C29: A check panics exactly when chrono cannot represent the instant one window before the
  present, so with a window that is long enough every client's every check does; the entries are
  then left as they were.
\<close>

theorem check_panics_iff:
  assumes "limiter_env C D" and "limiter_wf L" and "started_by now (dm_get D (rl_entries L))"
  shows "check_inner C D L ip now = Some (Panic L') \<longleftrightarrow> \<not> cutoff_ok C L now \<and> L' = L"
  using assms by (rule check_panics)

lemma check_panics_iff_witness:
  "check_inner sample_chrono assoc_dash_map (sample_limiter\<lparr>rl_window := 500\<rparr>) client_b 200 =
     Some (Panic (sample_limiter\<lparr>rl_window := 500\<rparr>))"
proof -
  have "started_by 200 (dm_get assoc_dash_map (rl_entries (sample_limiter\<lparr>rl_window := 500\<rparr>)))"
    using sample_limiter_ok(4) [of 200] by simp
  then show ?thesis
    using check_panics_iff [OF sample_limiter_ok(1), of "sample_limiter\<lparr>rl_window := 500\<rparr>" 200]
    by (auto simp: limiter_wf_def cutoff_ok_def limiter_sample)
qed

text \<open>
  A new limiter is empty and well formed, keeps the quota it is given, has room for at least
  one entry, and applies the configured window where chrono can represent it; a longer one
  silently becomes one second.
\<close>

lemma with_clock_window:
  assumes "limiter_env C D"
  shows "limiter_wf (with_clock C D S) \<and> (\<forall>k. dm_get D (rl_entries (with_clock C D S)) k = None) \<and>
    rs_max_requests (rl_settings (with_clock C D S)) = rs_max_requests S \<and>
    unat (rs_max_entries (rl_settings (with_clock C D S))) = max 1 (unat (rs_max_entries S)) \<and>
    rl_window (with_clock C D S) =
      (if ch_from_std C (rs_window S) = None then 1000000000 else int (rs_window S))"
proof -
  have "max 1 (unat m) = unat m" if "m \<noteq> 0" for m :: usize
    using that by (simp add: max_def unat_gt_0 Suc_le_eq)
  moreover have "dash_map D" "chrono C" using assms by (simp_all add: limiter_env_def)
  ultimately show ?thesis
    using limiter_wf_with_clock [OF assms, of S]
    by (auto simp: with_clock_def Let_def chrono_duration_def nanos_per_sec_def dash_map.get_new
        dest: chrono.from_std split: option.split)
qed

lemma with_clock_window_witness:
  "rl_window (with_clock sample_chrono assoc_dash_map
     \<lparr>rs_max_requests = 5, rs_window = 2000, rs_max_entries = 0\<rparr>) = 1000000000"
  using with_clock_window [OF sample_limiter_ok(1), of "\<lparr>rs_max_requests = 5, rs_window = 2000, rs_max_entries = 0\<rparr>"]
  by (simp add: limiter_sample)

end
