(* ===== verification/Config.thy ===== *)
theory Config
  imports Identity Rate_Limit
begin

section \<open>Configuration (src/config.rs)\<close>

text \<open>
  From the options of the command line to the configuration of the server.  \<open>CliOptions\<close> is
  what clap has parsed.  \<open>indexmap::IndexSet\<close> is the parameter \<open>index_set_ops\<close> with the locale
  \<open>index_set\<close>; the file system that \<open>ensure_directory\<close> looks at and changes is the parameter
  \<open>fs_ops\<close> over a state, with the locale \<open>file_system\<close>.  Paths are their text, sockets their
  address and port.  An \<open>anyhow::Error\<close> is a message, a cause, or a cause under a context; the
  warning that the code logs when it clamps a value is not part of the model.
\<close>

datatype 'e anyhow = Message str | Wrapped str 'e | Source 'e

record socket_addr =
  sa_ip :: ip_addr
  sa_port :: "16 word"

record 's index_set_ops =
  is_from :: "hostname \<Rightarrow> 's"
  is_insert :: "'s \<Rightarrow> hostname \<Rightarrow> 's"
  is_contains :: "'s \<Rightarrow> hostname \<Rightarrow> bool"
  is_iter :: "'s \<Rightarrow> hostname list"

record cli_options =
  cli_listen :: socket_addr
  cli_default_host :: str
  cli_allowed_hosts :: "str option"
  cli_store_root :: str
  cli_profile_prefix :: str
  cli_plan_prefix :: str
  cli_rate_limit :: u32
  cli_rate_window_secs :: u64
  cli_rate_capacity :: usize
  cli_metrics_listen :: "socket_addr option"
  cli_request_timeout_ms :: u64
  cli_max_request_bytes :: usize

record 's server_config =
  cfg_listen :: socket_addr
  cfg_default_host :: hostname
  cfg_allowed_hosts :: 's
  cfg_store_root :: str
  cfg_profile_prefix :: str
  cfg_plan_prefix :: str
  cfg_rate :: rate_limit_settings
  cfg_metrics_listen :: "socket_addr option"
  cfg_request_timeout :: std_duration
  cfg_max_request_bytes :: usize

subsection \<open>Operations\<close>

abbreviation comma :: rchar where "comma \<equiv> 44"

definition duration_from_millis :: "u64 \<Rightarrow> std_duration" where
  "duration_from_millis ms = unat ms * 1000000"

definition describe_identity :: "identity_error \<Rightarrow> str" where
  "describe_identity err = display_identity_error err"

definition sanitise_prefix :: "str \<Rightarrow> str" where
  "sanitise_prefix input = trim_matches (\<lambda>c. c = 47) (trim input)"

definition min_request_bytes :: usize where "min_request_bytes = 64"

definition max_request_limit :: usize where "max_request_limit = 4096"

definition clamp :: "'a::linorder \<Rightarrow> 'a \<Rightarrow> 'a \<Rightarrow> 'a" where
  "clamp x lo hi = (if x < lo then lo else if hi < x then hi else x)"

definition host_candidates :: "str \<Rightarrow> str list" where
  "host_candidates hosts = filter (\<lambda>v. v \<noteq> []) (map trim (split_on (\<lambda>c. c = comma) hosts))"

fun insert_hosts :: "'s index_set_ops \<Rightarrow> str list \<Rightarrow> 's \<Rightarrow> 'e anyhow + 's" where
  "insert_hosts I [] hosts = Inr hosts"
| "insert_hosts I (candidate # candidates) hosts =
     and_then
       (map_err (\<lambda>err. Message (lit ''invalid host in allow list: '' @ describe_identity err))
          (hostname_parse candidate))
       (\<lambda>host. insert_hosts I candidates (is_insert I hosts host))"

definition extend_allowed_hosts :: "'s index_set_ops \<Rightarrow> str \<Rightarrow> 's \<Rightarrow> 'e anyhow + 's" where
  "extend_allowed_hosts I hosts allowed_hosts = insert_hosts I (host_candidates hosts) allowed_hosts"

definition from_cli :: "'s index_set_ops \<Rightarrow> cli_options \<Rightarrow> 'e anyhow + 's server_config" where
  "from_cli I cli =
     and_then
       (map_err (\<lambda>err. Message (lit ''invalid default host: '' @ describe_identity err))
          (hostname_parse (cli_default_host cli)))
       (\<lambda>default_host.
     and_then
       (case cli_allowed_hosts cli of
          Some hosts \<Rightarrow> extend_allowed_hosts I hosts (is_from I default_host)
        | None \<Rightarrow> Inr (is_from I default_host))
       (\<lambda>allowed_hosts.
     Inr \<lparr>cfg_listen = cli_listen cli, cfg_default_host = default_host,
          cfg_allowed_hosts = allowed_hosts, cfg_store_root = cli_store_root cli,
          cfg_profile_prefix = sanitise_prefix (cli_profile_prefix cli),
          cfg_plan_prefix = sanitise_prefix (cli_plan_prefix cli),
          cfg_rate =
            \<lparr>rs_max_requests = max (cli_rate_limit cli) 1,
             rs_window = duration_from_secs (max (cli_rate_window_secs cli) 1),
             rs_max_entries = max (cli_rate_capacity cli) 1\<rparr>,
          cfg_metrics_listen = cli_metrics_listen cli,
          cfg_request_timeout = duration_from_millis (max (cli_request_timeout_ms cli) 1),
          cfg_max_request_bytes = clamp (cli_max_request_bytes cli) min_request_bytes max_request_limit\<rparr>))"

definition accepts_host :: "'s index_set_ops \<Rightarrow> 's server_config \<Rightarrow> hostname \<Rightarrow> bool" where
  "accepts_host I cfg host = is_contains I (cfg_allowed_hosts cfg) host"

subsection \<open>The store root\<close>

record ('f, 'e) fs_ops =
  fs_exists :: "'f \<Rightarrow> str \<Rightarrow> bool"
  fs_is_dir :: "'f \<Rightarrow> str \<Rightarrow> bool"
  fs_create_dir_all :: "'f \<Rightarrow> str \<Rightarrow> 'e + 'f"

definition ensure_directory :: "('f, 'e) fs_ops \<Rightarrow> 'f \<Rightarrow> str \<Rightarrow> 'e anyhow + 'f" where
  "ensure_directory F fs path =
     (if fs_exists F fs path
      then if fs_is_dir F fs path then Inr fs
           else Inl (Message (lit ''store root must be a directory: '' @ path))
      else map_err (Wrapped (lit ''failed to create store root '' @ path)) (fs_create_dir_all F fs path))"

text \<open>\<open>new_with_prefix\<close> is \<open>LocalFileSystem::new_with_prefix\<close>, which looks at the file system.\<close>

definition build_store ::
  "('f, 'e) fs_ops \<Rightarrow> ('f \<Rightarrow> str \<Rightarrow> 'e + 'o) \<Rightarrow> 's server_config \<Rightarrow> 'f \<Rightarrow> 'e anyhow + 'o \<times> 'f" where
  "build_store F new_with_prefix cfg fs =
     and_then (ensure_directory F fs (cfg_store_root cfg)) (\<lambda>fs1.
     and_then (map_err (Wrapped (lit ''failed to initialise object store''))
                (new_with_prefix fs1 (cfg_store_root cfg))) (\<lambda>store.
     Inr (store, fs1)))"

subsection \<open>The documented behaviour of the libraries\<close>

locale index_set =
  fixes I :: "'s index_set_ops"
  assumes iter_from [simp]: "is_iter I (is_from I h) = [h]"
    and iter_insert [simp]: "is_iter I (is_insert I s h) =
      (if h \<in> set (is_iter I s) then is_iter I s else is_iter I s @ [h])"
    and contains_iter [simp]: "is_contains I s h \<longleftrightarrow> h \<in> set (is_iter I s)"
begin

lemma insert_hosts_Inr_iff:
  "insert_hosts I cs s = Inr s' \<longleftrightarrow>
     (\<exists>hs. map hostname_parse cs = map Inr hs \<and> s' = foldl (is_insert I) s hs)"
proof (induction cs arbitrary: s)
  case (Cons c cs)
  then show ?case
    by (cases "hostname_parse c") (auto simp: map_eq_Cons_conv Cons_eq_map_conv)
qed auto

lemma iter_foldl: "set (is_iter I (foldl (is_insert I) s hs)) = set (is_iter I s) \<union> set hs"
  by (induction hs arbitrary: s) auto

lemma iter_foldl_prefix:
  "distinct (is_iter I s) \<Longrightarrow> distinct (is_iter I (foldl (is_insert I) s hs)) \<and>
     (\<exists>t. is_iter I (foldl (is_insert I) s hs) = is_iter I s @ t)"
proof (induction hs arbitrary: s)
  case (Cons h hs)
  then have "distinct (is_iter I (is_insert I s h))" by simp
  from Cons.IH [OF this] show ?case by auto
qed simp

end

locale file_system =
  fixes F :: "('f, 'e) fs_ops"
  assumes dir_exists: "fs_is_dir F fs p \<Longrightarrow> fs_exists F fs p"
    and created: "fs_create_dir_all F fs p = Inr fs' \<Longrightarrow> fs_is_dir F fs' p"
    and others_kept: "fs_create_dir_all F fs p = Inr fs' \<Longrightarrow> fs_exists F fs q \<Longrightarrow>
      fs_exists F fs' q \<and> fs_is_dir F fs' q = fs_is_dir F fs q"

text \<open>The providers used in examples: a list without duplicates, and a flat table of nodes.\<close>

definition list_index_set :: "hostname list index_set_ops" where
  "list_index_set =
     \<lparr>is_from = \<lambda>h. [h], is_insert = \<lambda>s h. (if h \<in> set s then s else s @ [h]),
      is_contains = \<lambda>s h. h \<in> set s, is_iter = \<lambda>s. s\<rparr>"

definition table_fs :: "((str \<times> bool) list, unit) fs_ops" where
  "table_fs =
     \<lparr>fs_exists = \<lambda>fs p. map_of fs p \<noteq> None, fs_is_dir = \<lambda>fs p. map_of fs p = Some True,
      fs_create_dir_all = \<lambda>fs p.
        (case map_of fs p of None \<Rightarrow> Inr ((p, True) # fs) | Some d \<Rightarrow> if d then Inr fs else Inl ())\<rparr>"

interpretation list_set: index_set list_index_set
  by unfold_locales (auto simp: list_index_set_def)

interpretation table: file_system table_fs
  by unfold_locales (auto simp: table_fs_def split: option.splits if_splits)

subsection \<open>Properties\<close>

lemma max_one_word:
  fixes x :: "'a::len word"
  shows "1 \<le> max x 1" "x \<noteq> 0 \<Longrightarrow> max x 1 = x" "Suc 0 \<le> unat (max x 1)"
proof -
  have "1 \<le> x" if "x \<noteq> 0" using that by (simp add: word_le_nat_alt unat_gt_0 Suc_le_eq)
  then show "x \<noteq> 0 \<Longrightarrow> max x 1 = x" by simp
  show "1 \<le> max x 1" by simp
  then show "Suc 0 \<le> unat (max x 1)" by (simp add: word_le_nat_alt)
qed

text \<open>
  Whatever the options say, the configuration is within its bounds: at least one request
  per window, a window and a timeout that are not zero, room for an entry, and a request size
  from 64 to 4096; where an option is within its bounds it is taken as it is.
\<close>

lemma from_cli_bounds:
  assumes "from_cli I cli = Inr cfg"
  shows "1 \<le> rs_max_requests (cfg_rate cfg) \<and> 1 \<le> rs_max_entries (cfg_rate cfg) \<and>
    1000000000 \<le> rs_window (cfg_rate cfg) \<and> 1000000 \<le> cfg_request_timeout cfg \<and>
    64 \<le> cfg_max_request_bytes cfg \<and> cfg_max_request_bytes cfg \<le> 4096 \<and>
    (cli_rate_limit cli \<noteq> 0 \<longrightarrow> rs_max_requests (cfg_rate cfg) = cli_rate_limit cli) \<and>
    (cli_rate_capacity cli \<noteq> 0 \<longrightarrow> rs_max_entries (cfg_rate cfg) = cli_rate_capacity cli) \<and>
    (cli_rate_window_secs cli \<noteq> 0 \<longrightarrow>
       rs_window (cfg_rate cfg) = unat (cli_rate_window_secs cli) * 1000000000) \<and>
    (cli_request_timeout_ms cli \<noteq> 0 \<longrightarrow>
       cfg_request_timeout cfg = unat (cli_request_timeout_ms cli) * 1000000) \<and>
    (64 \<le> cli_max_request_bytes cli \<and> cli_max_request_bytes cli \<le> 4096 \<longrightarrow>
       cfg_max_request_bytes cfg = cli_max_request_bytes cli)"
proof -
  note max1 = max_one_word
  have "64 \<le> clamp x 64 4096" "clamp x 64 4096 \<le> 4096" "64 \<le> x \<Longrightarrow> x \<le> 4096 \<Longrightarrow> clamp x 64 4096 = x" for x :: usize
    by (auto simp: clamp_def not_less)
  with assms show ?thesis
    using max1(3) [of "cli_rate_window_secs cli"] max1(3) [of "cli_request_timeout_ms cli"]
    by (auto simp: from_cli_def result_iff max1(1,2) duration_from_secs_def duration_from_millis_def
        nanos_per_sec_def min_request_bytes_def max_request_limit_def)
qed

definition sample_cli :: cli_options where
  "sample_cli =
     \<lparr>cli_listen = \<lparr>sa_ip = V4 0, sa_port = 7979\<rparr>, cli_default_host = lit ''Example.com'',
      cli_allowed_hosts = Some (lit '' ,b.org, example.COM ''), cli_store_root = lit ''./data'',
      cli_profile_prefix = lit ''/profiles/'', cli_plan_prefix = lit ''plans'',
      cli_rate_limit = 0, cli_rate_window_secs = 0, cli_rate_capacity = 0,
      cli_metrics_listen = None, cli_request_timeout_ms = 0, cli_max_request_bytes = 100000\<rparr>"

lemma sample_hosts:
  "hostname_parse (lit ''Example.com'') = Inr (HostName (lit ''example.com''))"
  "host_candidates (lit '' ,b.org, example.COM '') = [lit ''b.org'', lit ''example.COM'']"
  "hostname_parse (lit ''b.org'') = Inr (HostName (lit ''b.org''))"
  "hostname_parse (lit ''example.COM'') = Inr (HostName (lit ''example.com''))"
  by (simp_all add: text_eval host_candidates_def)

lemma sample_config:
  "\<exists>cfg. (from_cli list_index_set sample_cli :: unit anyhow + _) = Inr cfg \<and>
     cfg_allowed_hosts cfg = [HostName (lit ''example.com''), HostName (lit ''b.org'')] \<and>
     cfg_default_host cfg = HostName (lit ''example.com'') \<and> cfg_max_request_bytes cfg = 4096"
  by (simp add: from_cli_def sample_cli_def sample_hosts extend_allowed_hosts_def)
    (simp add: list_index_set_def lit_def clamp_def min_request_bytes_def max_request_limit_def
      word_less_nat_alt)

lemma from_cli_bounds_witness:
  "\<exists>cfg. (from_cli list_index_set sample_cli :: unit anyhow + _) = Inr cfg \<and>
     1 \<le> rs_max_requests (cfg_rate cfg) \<and> cfg_max_request_bytes cfg \<le> 4096"
  using sample_config from_cli_bounds by blast

lemma allowed_hosts_exact:
  assumes "index_set I" and "from_cli I cli = Inr cfg"
  shows "hostname_parse (cli_default_host cli) = Inr (cfg_default_host cfg) \<and>
    hd (is_iter I (cfg_allowed_hosts cfg)) = cfg_default_host cfg \<and>
    distinct (is_iter I (cfg_allowed_hosts cfg)) \<and>
    (\<forall>h. accepts_host I cfg h \<longleftrightarrow>
       h = cfg_default_host cfg \<or>
       (\<exists>hosts c. cli_allowed_hosts cli = Some hosts \<and> c \<in> set (split_on (\<lambda>c. c = comma) hosts) \<and>
          hostname_parse (trim c) = Inr h))"
proof -
  define named where "named h \<longleftrightarrow> (\<exists>hosts c. cli_allowed_hosts cli = Some hosts \<and>
      c \<in> set (split_on (\<lambda>c. c = comma) hosts) \<and> hostname_parse (trim c) = Inr h)" for h
  have d: "hostname_parse (cli_default_host cli) = Inr (cfg_default_host cfg)"
    using assms(2) by (auto simp: from_cli_def result_iff)
  have "\<exists>hs. cfg_allowed_hosts cfg = foldl (is_insert I) (is_from I (cfg_default_host cfg)) hs \<and>
      (\<forall>h. h \<in> set hs \<longleftrightarrow> named h)"
  proof (cases "cli_allowed_hosts cli")
    case None
    then have "cfg_allowed_hosts cfg = is_from I (cfg_default_host cfg)"
      using assms(2) by (auto simp: from_cli_def result_iff)
    then show ?thesis using None by (intro exI [of _ "[]"]) (simp add: named_def)
  next
    case (Some hosts)
    then have "insert_hosts I (host_candidates hosts) (is_from I (cfg_default_host cfg)) =
        (Inr (cfg_allowed_hosts cfg) :: 'b anyhow + _)"
      using assms(2) by (auto simp: from_cli_def result_iff extend_allowed_hosts_def)
    then obtain hs where hs: "map hostname_parse (host_candidates hosts) = map Inr hs"
      "cfg_allowed_hosts cfg = foldl (is_insert I) (is_from I (cfg_default_host cfg)) hs"
      using index_set.insert_hosts_Inr_iff [OF assms(1)] by blast
    have "h \<in> set hs \<longleftrightarrow> Inr h \<in> set (map hostname_parse (host_candidates hosts))" for h
      by (auto simp: hs(1))
    moreover have "hostname_parse [] \<noteq> Inr h" for h
    using trim_none [of "[]"] by (simp add: hostname_parse_def Let_def)
    moreover have "Inr h \<in> set (map hostname_parse (host_candidates hosts)) \<longleftrightarrow>
        (\<exists>c \<in> set (split_on (\<lambda>c. c = comma) hosts). trim c \<noteq> [] \<and> hostname_parse (trim c) = Inr h)" for h
      by (auto simp: host_candidates_def image_iff dest: sym)
    ultimately have "h \<in> set hs \<longleftrightarrow> named h" for h
      unfolding named_def Some by (metis option.inject)
    then show ?thesis using hs(2) by blast
  qed
  then obtain hs where hs:
    "cfg_allowed_hosts cfg = foldl (is_insert I) (is_from I (cfg_default_host cfg)) hs"
    "\<And>h. h \<in> set hs \<longleftrightarrow> named h" by blast
  note I = index_set.iter_from [OF assms(1)]
  have "distinct (is_iter I (is_from I (cfg_default_host cfg)))" by (simp add: I)
  from index_set.iter_foldl_prefix [OF assms(1) this, of hs]
  have "hd (is_iter I (cfg_allowed_hosts cfg)) = cfg_default_host cfg"
    "distinct (is_iter I (cfg_allowed_hosts cfg))" by (auto simp: hs(1) I)
  moreover have "accepts_host I cfg h \<longleftrightarrow> h = cfg_default_host cfg \<or> named h" for h
    by (simp add: accepts_host_def hs index_set.contains_iter [OF assms(1)]
        index_set.iter_foldl [OF assms(1)] I)
  ultimately show ?thesis using d by (simp add: named_def)
qed

text \<open>
  C23: The allow list is exactly the default host and the hosts named between the commas of the
  option, each in canonical form and once, the default host first; the server accepts these and
  no others, and always its own default host.
\<close>

theorem from_cli_hosts:
  assumes "index_set I" and "from_cli I cli = Inr cfg"
  shows "hostname_parse (cli_default_host cli) = Inr (cfg_default_host cfg) \<and>
    hd (is_iter I (cfg_allowed_hosts cfg)) = cfg_default_host cfg \<and>
    distinct (is_iter I (cfg_allowed_hosts cfg)) \<and>
    (\<forall>h. accepts_host I cfg h \<longleftrightarrow>
       h = cfg_default_host cfg \<or>
       (\<exists>hosts c. cli_allowed_hosts cli = Some hosts \<and> c \<in> set (split_on (\<lambda>c. c = comma) hosts) \<and>
          hostname_parse (trim c) = Inr h))"
  using assms by (rule allowed_hosts_exact)

lemma from_cli_hosts_witness:
  "\<exists>cfg. (from_cli list_index_set sample_cli :: unit anyhow + _) = Inr cfg \<and>
     hd (is_iter list_index_set (cfg_allowed_hosts cfg)) = HostName (lit ''example.com'')"
  using sample_config from_cli_hosts [OF list_set.index_set_axioms] by fastforce

lemma insert_hosts_Inl_iff:
  "insert_hosts I cs s = Inl e \<longleftrightarrow>
     (\<exists>c d. find (\<lambda>c. isl (hostname_parse c)) cs = Some c \<and> hostname_parse c = Inl d \<and>
        e = Message (lit ''invalid host in allow list: '' @ describe_identity d))"
proof (induction cs arbitrary: s)
  case (Cons c cs)
  then show ?case by (cases "hostname_parse c") auto
qed simp

text \<open>
  C40: The configuration is refused exactly for a bad host name: with the error of the default host if
  that is bad, otherwise with that of the first bad name of the allow list.
\<close>

theorem from_cli_refused:
  "from_cli I cli = Inl e \<longleftrightarrow>
     (\<exists>d. hostname_parse (cli_default_host cli) = Inl d \<and>
        e = Message (lit ''invalid default host: '' @ display_identity_error d)) \<or>
     (\<exists>h hosts c d. hostname_parse (cli_default_host cli) = Inr h \<and> cli_allowed_hosts cli = Some hosts \<and>
        find (\<lambda>c. isl (hostname_parse c)) (host_candidates hosts) = Some c \<and> hostname_parse c = Inl d \<and>
        e = Message (lit ''invalid host in allow list: '' @ display_identity_error d))"
  by (auto simp: from_cli_def result_iff extend_allowed_hosts_def insert_hosts_Inl_iff
      describe_identity_def split: option.splits)

text \<open>
  When the store is built its root is a directory, made if there was nothing there and left
  alone otherwise, and nothing that existed is lost; a root that is not a directory is refused.
\<close>

lemma build_store_root:
  assumes "file_system F"
  shows "(build_store F new_store cfg fs = Inr (store, fs') \<longrightarrow>
      fs_is_dir F fs' (cfg_store_root cfg) \<and> (fs_exists F fs (cfg_store_root cfg) \<longrightarrow> fs' = fs) \<and>
      (\<forall>q. fs_exists F fs q \<longrightarrow> fs_exists F fs' q \<and> fs_is_dir F fs' q = fs_is_dir F fs q)) \<and>
    (fs_exists F fs (cfg_store_root cfg) \<and> \<not> fs_is_dir F fs (cfg_store_root cfg) \<longrightarrow>
      build_store F new_store cfg fs =
        Inl (Message (lit ''store root must be a directory: '' @ cfg_store_root cfg)))"
  using file_system.created [OF assms] file_system.others_kept [OF assms]
  by (auto simp: build_store_def ensure_directory_def result_iff split: if_splits)

lemma build_store_root_witness:
  "\<exists>cfg. (from_cli list_index_set sample_cli :: unit anyhow + _) = Inr cfg \<and>
     build_store table_fs (\<lambda>fs p. Inr ()) cfg [(cfg_store_root cfg, False)] =
       Inl (Message (lit ''store root must be a directory: '' @ cfg_store_root cfg))"
proof -
  obtain cfg where "(from_cli list_index_set sample_cli :: unit anyhow + _) = Inr cfg"
    using sample_config by blast
  moreover have node: "fs_exists table_fs [(r, False)] r \<and> \<not> fs_is_dir table_fs [(r, False)] r" for r
    by (auto simp: table_fs_def)
  have "build_store table_fs (\<lambda>fs p. Inr ()) cfg [(cfg_store_root cfg, False)] =
       Inl (Message (lit ''store root must be a directory: '' @ cfg_store_root cfg))" for cfg :: "'s server_config"
    by (rule build_store_root [OF table.file_system_axioms, THEN conjunct2, rule_format]) (rule node)
  ultimately show ?thesis by blast
qed

end
