(* ===== verification/Framing.thy ===== *)
theory Framing
  imports Text
begin

section \<open>CRLF framing (src/framing.rs)\<close>

text \<open>
  The buffer that turns lines into the bytes of a response.  \<open>push_line\<close> cuts trailing
  carriage returns and line feeds off a line and ends it with CRLF; the capacity of the
  buffer is not observable.  The lemmas show what the buffer holds after a list of lines and
  that a reader which splits at line ends gets the lines back.
\<close>

record crlf_buffer =
  buf_bytes :: bytes

definition crlf_with_capacity :: "nat \<Rightarrow> crlf_buffer" where
  "crlf_with_capacity capacity = \<lparr>buf_bytes = []\<rparr>"

definition line_ending :: "rchar \<Rightarrow> bool" where
  "line_ending c \<longleftrightarrow> c = CR \<or> c = LF"

definition trim_line_endings :: "str \<Rightarrow> str" where
  "trim_line_endings line = trim_end_matches line_ending line"

definition push_line :: "crlf_buffer \<Rightarrow> str \<Rightarrow> crlf_buffer" where
  "push_line buf line =
     (let trimmed = trim_line_endings line;
          buf1 = buf\<lparr>buf_bytes := buf_bytes buf @ as_bytes trimmed\<rparr>
      in buf1\<lparr>buf_bytes := buf_bytes buf1 @ as_bytes crlf\<rparr>)"

definition into_bytes :: "crlf_buffer \<Rightarrow> bytes" where
  "into_bytes buf = buf_bytes buf"

subsection \<open>What the buffer holds\<close>

text \<open>The text of a response: each line without its endings, followed by CRLF.\<close>

definition framed :: "str list \<Rightarrow> str" where
  "framed lines = concat (map (\<lambda>l. trim_line_endings l @ crlf) lines)"

lemma framed_simps [simp]:
  "framed [] = []"
  "framed (l # ls) = trim_line_endings l @ crlf @ framed ls"
  "framed (ls @ ls') = framed ls @ framed ls'"
  by (simp_all add: framed_def)

lemma push_line_bytes: "buf_bytes (push_line buf l) = buf_bytes buf @ as_bytes (framed [l])"
  by (simp add: push_line_def Let_def as_bytes_append)

lemma push_lines_bytes:
  "buf_bytes (foldl push_line buf ls) = buf_bytes buf @ as_bytes (framed ls)"
  by (induction ls arbitrary: buf) (simp_all add: push_line_bytes as_bytes_append)

lemma trim_line_endings_set: "set (trim_line_endings l) \<subseteq> set l"
  unfolding trim_line_endings_def by (rule set_trim_end_matches)

lemma trim_line_endings_id: "l = [] \<or> \<not> line_ending (last l) \<Longrightarrow> trim_line_endings l = l"
  unfolding trim_line_endings_def by (rule trim_end_matches_id) auto

lemma trim_line_endings_last:
  "trim_line_endings l \<noteq> [] \<Longrightarrow> \<not> line_ending (last (trim_line_endings l))"
  unfolding trim_line_endings_def by (rule trim_end_matches_last)

lemma trim_line_endings_idem [simp]: "trim_line_endings (trim_line_endings l) = trim_line_endings l"
  using trim_line_endings_last by (intro trim_line_endings_id) blast

lemma trim_line_endings_append:
  "list_all line_ending t \<Longrightarrow> trim_line_endings (l @ t) = trim_line_endings l"
  unfolding trim_line_endings_def trim_end_matches_def list_all_iff
  by (subst rev_append, subst dropWhile_append2) simp_all

lemma valid_framed: "(\<And>l. l \<in> set ls \<Longrightarrow> valid_str l) \<Longrightarrow> valid_str (framed ls)"
  by (induction ls) (auto simp: valid_str_def crlf_def is_scalar_def dest: subsetD [OF trim_line_endings_set])

subsection \<open>Reading the lines back\<close>

lemma str_lines_Cons:
  assumes "LF \<notin> set l"
  shows "str_lines (l @ LF # s) = strip_cr l # str_lines s"
proof -
  have "split_on (\<lambda>c. c = LF) l = [l]" using assms by (intro split_on_none) auto
  then have "split_on (\<lambda>c. c = LF) (l @ LF # s) = l # split_on (\<lambda>c. c = LF) s"
    by (simp add: split_on_append)
  then show ?thesis by (simp add: str_lines_def Let_def)
qed

lemma strip_cr_append [simp]: "strip_cr (l @ [CR]) = l"
  by (simp add: strip_cr_def)

lemma str_lines_framed:
  "(\<And>l. l \<in> set ls \<Longrightarrow> LF \<notin> set l) \<Longrightarrow> str_lines (framed ls) = map trim_line_endings ls"
proof (induction ls)
  case (Cons l ls)
  then have "LF \<notin> set (trim_line_endings l @ [CR])" using trim_line_endings_set [of l] by auto
  from str_lines_Cons [OF this, of "framed ls"] Cons show ?case by (simp add: crlf_def)
qed simp

text \<open>
  Pushing a line appends it with exactly one CRLF: whatever mixture of carriage returns
  and line feeds the line ends in, the bytes are those of the line without them, then CR LF,
  and what was in the buffer before stays in front.
\<close>
lemma push_line_one_ending:
  "into_bytes (push_line buf (l @ replicate i CR @ replicate j LF)) =
     into_bytes buf @ as_bytes (trim_line_endings l) @ [13, 10]"
proof -
  have "trim_line_endings (l @ replicate i CR @ replicate j LF) = trim_line_endings l"
    by (rule trim_line_endings_append) (auto simp: list_all_iff line_ending_def)
  then show ?thesis
    by (simp add: into_bytes_def push_line_bytes as_bytes_append crlf_def encode_char_def byte_def)
qed

end
