(* ===== verification/Telemetry.thy ===== *)
theory Telemetry
  imports Config Framing "HOL-Library.Sublist"
begin

section \<open>The metrics endpoint (src/telemetry.rs)\<close>

text \<open>
  A task of its own accepts connections one after the other, reads from each once, and answers
  with the rendered metrics; it ends when it is told to through a channel.  \<open>handle_connection\<close>
  is a function of what the peer does, a parameter of type \<open>metrics_socket\<close>, and says what was
  written and whether the handler came to an end: none of its reads and writes has a time limit.
  \<open>metrics_step\<close> is the select loop with the shutdown channel.  The rendered metrics are a
  parameter; log messages are left out.
\<close>

subsection \<open>A connection\<close>

text \<open>An operation on the socket may never complete.\<close>

datatype 'e completion = Pending | Failed 'e | Completed

datatype 'e read_completion = Read_pending | Read_error 'e | Read_bytes nat

record 'e metrics_socket =
  mk_read :: "nat \<Rightarrow> 'e read_completion"
  mk_write :: "bytes \<Rightarrow> 'e completion"
  mk_shutdown :: "'e completion"

datatype metrics_action = Sent bytes | Closed

text \<open>What was done, and how it ended: \<^term>\<open>None\<close> if it never does.\<close>

type_synonym ('e, 'a) attempt = "('e anyhow + 'a) option \<times> metrics_action list"

definition attempt_then :: "('e, unit) attempt \<Rightarrow> ('e, 'a) attempt \<Rightarrow> ('e, 'a) attempt" where
  "attempt_then m n =
     (case m of
        (Some (Inr _), acts) \<Rightarrow> (fst n, acts @ snd n)
      | (Some (Inl e), acts) \<Rightarrow> (Some (Inl e), acts)
      | (None, acts) \<Rightarrow> (None, acts))"

definition attempt :: "'e completion \<Rightarrow> str \<Rightarrow> metrics_action \<Rightarrow> ('e, unit) attempt" where
  "attempt c doing act =
     (case c of
        Pending \<Rightarrow> (None, [])
      | Failed e \<Rightarrow> (Some (Inl (Wrapped doing e)), [])
      | Completed \<Rightarrow> (Some (Inr ()), [act]))"

definition metrics_headers :: "nat \<Rightarrow> str" where
  "metrics_headers n =
     lit ''HTTP/1.1 200 OK'' @ crlf @ lit ''content-type: text/plain; version=0.0.4'' @ crlf @
     lit ''cache-control: no-cache'' @ crlf @ lit ''connection: close'' @ crlf @
     lit ''content-length: '' @ display_nat n @ crlf @ crlf"

definition respond_with_metrics :: "str \<Rightarrow> 'e metrics_socket \<Rightarrow> ('e, unit) attempt" where
  "respond_with_metrics body K =
     (let body_bytes = as_bytes body;
          headers = as_bytes (metrics_headers (length body_bytes))
      in attempt_then (attempt (mk_write K headers) (lit ''failed to stream metrics headers'') (Sent headers))
        (attempt_then (attempt (mk_write K body_bytes) (lit ''failed to stream metrics payload'') (Sent body_bytes))
          (attempt (mk_shutdown K) (lit ''failed to shutdown metrics connection'') Closed)))"

definition discard_request :: "'e metrics_socket \<Rightarrow> ('e + unit) option" where
  "discard_request K =
     (case mk_read K 1024 of
        Read_pending \<Rightarrow> None
      | Read_error e \<Rightarrow> Some (Inl e)
      | Read_bytes bytes_read \<Rightarrow> if bytes_read = 0 then Some (Inr ()) else Some (Inr ()))"

text \<open>The handler logs errors and returns; it says whether it returns, and what it did.\<close>

definition handle_connection :: "str \<Rightarrow> 'e metrics_socket \<Rightarrow> bool \<times> metrics_action list" where
  "handle_connection body K =
     (case discard_request K of
        None \<Rightarrow> (False, [])
      | Some (Inl e) \<Rightarrow> (True, [])
      | Some (Inr _) \<Rightarrow>
          (case respond_with_metrics body K of
             (None, acts) \<Rightarrow> (False, acts)
           | (Some _, acts) \<Rightarrow> (True, acts)))"

subsection \<open>The endpoint and its task\<close>

text \<open>
  The endpoint holds the sender of the shutdown channel and the handle of the task until it gives
  them up; the receiver is ready once something was sent.
\<close>

datatype 'e metrics_task = Selecting | Handling "'e metrics_socket" | Backing_off nat | Stopped

text \<open>What the task does with a connection, or with an error of \<open>accept\<close>: it sleeps 100 ms.\<close>

definition handle_accept_error :: "'e \<Rightarrow> 'e metrics_task" where
  "handle_accept_error err = Backing_off 100"

definition handle_accept :: "'e + 'e metrics_socket \<Rightarrow> 'e metrics_task" where
  "handle_accept accepted =
     (case accepted of
        Inr socket \<Rightarrow> Handling socket
      | Inl err \<Rightarrow> handle_accept_error err)"

record 'e endpoint_state =
  ep_shutdown :: bool
  ep_join :: bool
  ep_ready :: bool
  ep_sends :: nat
  ep_task :: "'e metrics_task"
  ep_log :: "metrics_action list list"

text \<open>\<open>show_addr\<close> is the \<open>Display\<close> of a socket address, used in one error text.\<close>

definition spawn_metrics_endpoint ::
  "(socket_addr \<Rightarrow> str) \<Rightarrow> (socket_addr \<Rightarrow> 'e + unit) \<Rightarrow> socket_addr \<Rightarrow> 'e anyhow + 'e endpoint_state" where
  "spawn_metrics_endpoint show_addr bind addr =
     and_then (map_err (Wrapped (lit ''failed to bind metrics listener on '' @ show_addr addr)) (bind addr))
       (\<lambda>listener. Inr \<lparr>ep_shutdown = True, ep_join = True, ep_ready = False, ep_sends = 0,
                        ep_task = Selecting, ep_log = []\<rparr>)"

definition install_metrics ::
  "'e + unit \<Rightarrow> (socket_addr \<Rightarrow> str) \<Rightarrow> (socket_addr \<Rightarrow> 'e + unit) \<Rightarrow> socket_addr option \<Rightarrow>
   'e anyhow + 'e endpoint_state option" where
  "install_metrics recorder show_addr bind listen =
     and_then (map_err (Wrapped (lit ''failed to install metrics recorder'')) recorder) (\<lambda>handle.
     and_then
       (case listen of
          Some addr \<Rightarrow> and_then (spawn_metrics_endpoint show_addr bind addr) (\<lambda>endpoint. Inr (Some endpoint))
        | None \<Rightarrow> Inr None)
       (\<lambda>endpoint. Inr endpoint))"

text \<open>Taking the sender, if it is still there, and sending: what \<open>shutdown\<close> and \<open>drop\<close> begin with.\<close>

definition take_and_send :: "'e endpoint_state \<Rightarrow> 'e endpoint_state" where
  "take_and_send s =
     (if ep_shutdown s then s\<lparr>ep_shutdown := False, ep_ready := True, ep_sends := Suc (ep_sends s)\<rparr> else s)"

definition drop_endpoint :: "'e endpoint_state \<Rightarrow> 'e endpoint_state" where
  "drop_endpoint s = take_and_send s"

text \<open>
  \<open>shutdown\<close> sends and takes the handle; with a handle it then waits for the task, and returns in
  the states in which \<open>joined\<close> holds.
\<close>

definition begin_shutdown :: "'e endpoint_state \<Rightarrow> 'e endpoint_state" where
  "begin_shutdown s = (take_and_send s)\<lparr>ep_join := False\<rparr>"

definition joined :: "'e endpoint_state \<Rightarrow> bool" where
  "joined s \<longleftrightarrow> (case ep_task s of Stopped \<Rightarrow> True | _ \<Rightarrow> False)"

text \<open>The task: its select loop, and the handling of what it accepted.\<close>

inductive task_step :: "'e endpoint_state \<Rightarrow> 'e endpoint_state \<Rightarrow> bool" where
  select_shutdown:
    "ep_task s = Selecting \<Longrightarrow> ep_ready s \<Longrightarrow> task_step s (s\<lparr>ep_task := Stopped\<rparr>)"
| select_accept:
    "ep_task s = Selecting \<Longrightarrow> task_step s (s\<lparr>ep_task := handle_accept accepted\<rparr>)"
| backed_off:
    "ep_task s = Backing_off ms \<Longrightarrow> task_step s (s\<lparr>ep_task := Selecting\<rparr>)"
| connection_handled:
    "ep_task s = Handling K \<Longrightarrow> handle_connection body K = (True, acts) \<Longrightarrow>
     task_step s (s\<lparr>ep_task := Selecting, ep_log := ep_log s @ [acts]\<rparr>)"

text \<open>The task and the owner of the endpoint.\<close>

inductive metrics_step :: "'e endpoint_state \<Rightarrow> 'e endpoint_state \<Rightarrow> bool" where
  task_moves: "task_step s s' \<Longrightarrow> metrics_step s s'"
| owner_shutdown: "ep_join s \<Longrightarrow> metrics_step s (begin_shutdown s)"
| owner_drop: "metrics_step s (drop_endpoint s)"

abbreviation task_steps :: "'e endpoint_state \<Rightarrow> 'e endpoint_state \<Rightarrow> bool" where
  "task_steps \<equiv> task_step\<^sup>*\<^sup>*"

abbreviation metrics_steps :: "'e endpoint_state \<Rightarrow> 'e endpoint_state \<Rightarrow> bool" where
  "metrics_steps \<equiv> metrics_step\<^sup>*\<^sup>*"

inductive_cases task_stepE: "task_step s s'"
inductive_cases metrics_stepE: "metrics_step s s'"

lemma task_steps_metrics: "task_steps s s' \<Longrightarrow> metrics_steps s s'"
  by (induction rule: rtranclp_induct) (auto intro: rtranclp.rtrancl_into_rtrancl task_moves)

subsection \<open>The response\<close>

definition header_lines :: "nat \<Rightarrow> str list" where
  "header_lines n =
     [lit ''HTTP/1.1 200 OK'', lit ''content-type: text/plain; version=0.0.4'',
      lit ''cache-control: no-cache'', lit ''connection: close'',
      lit ''content-length: '' @ display_nat n, []]"

lemma metrics_headers_lines: "str_lines (metrics_headers n) = header_lines n"
proof -
  have cr: "str_lines (l @ crlf @ s) = l # str_lines s" if "LF \<notin> set l" for l s
    using str_lines_Cons [of "l @ [CR]" s] that by (simp add: crlf_def)
  have no_LF: "LF \<notin> set (lit ''HTTP/1.1 200 OK'')" "LF \<notin> set (lit ''content-type: text/plain; version=0.0.4'')"
    "LF \<notin> set (lit ''cache-control: no-cache'')" "LF \<notin> set (lit ''connection: close'')"
    "LF \<notin> set (lit ''content-length: '')"
    by (simp_all add: lit_def)
  have "LF \<notin> set (display_nat n)" using display_nat_digits by fastforce
  with no_LF(5) have last: "LF \<notin> set (lit ''content-length: '' @ display_nat n)" by simp
  have nil: "str_lines crlf = [[]]" using cr [of "[]" "[]"] by simp
  show ?thesis
    using cr [OF last, of crlf] nil unfolding metrics_headers_def header_lines_def
    by (simp add: cr [OF no_LF(1)] cr [OF no_LF(2)] cr [OF no_LF(3)] cr [OF no_LF(4)])
qed

definition full_response :: "str \<Rightarrow> metrics_action list" where
  "full_response body =
     [Sent (as_bytes (metrics_headers (length (as_bytes body)))), Sent (as_bytes body), Closed]"

text \<open>
  C17: What the endpoint sends is, in order, the headers, the rendered metrics and the end of the
  stream, cut short only by an error or a peer that stalls: a client that got the headers reads in
  them, after a status line of success, the exact number of bytes of the body; and all of it is
  sent when every operation completes.
\<close>

theorem metrics_response:
  "prefix (snd (handle_connection body K)) (full_response body) \<and>
   str_lines (metrics_headers (length (as_bytes body))) = header_lines (length (as_bytes body)) \<and>
   parse_nat (display_nat (length (as_bytes body))) = length (as_bytes body) \<and>
   (handle_connection body K = (True, full_response body) \<longleftrightarrow>
      (\<exists>n. mk_read K 1024 = Read_bytes n) \<and>
      mk_write K (as_bytes (metrics_headers (length (as_bytes body)))) = Completed \<and>
      mk_write K (as_bytes body) = Completed \<and> mk_shutdown K = Completed)"
proof -
  note defs = handle_connection_def discard_request_def respond_with_metrics_def attempt_then_def
    attempt_def full_response_def Let_def
  have "prefix (snd (handle_connection body K)) (full_response body)"
    by (auto simp: defs split: completion.split read_completion.split)
  moreover have "handle_connection body K = (True, full_response body) \<longleftrightarrow>
      (\<exists>n. mk_read K 1024 = Read_bytes n) \<and>
      mk_write K (as_bytes (metrics_headers (length (as_bytes body)))) = Completed \<and>
      mk_write K (as_bytes body) = Completed \<and> mk_shutdown K = Completed"
    by (auto simp: defs split: completion.split read_completion.split)
  ultimately show ?thesis by (simp add: metrics_headers_lines parse_display_nat)
qed

subsection \<open>Stopping the endpoint\<close>

definition endpoint_inv :: "'e endpoint_state \<Rightarrow> bool" where
  "endpoint_inv s \<longleftrightarrow>
     ep_sends s = (if ep_shutdown s then 0 else 1) \<and> (ep_ready s \<longleftrightarrow> ep_sends s = 1) \<and>
     (ep_task s = Stopped \<longrightarrow> ep_ready s)"

lemma endpoint_inv_step: "metrics_step s s' \<Longrightarrow> endpoint_inv s \<Longrightarrow> endpoint_inv s'"
  by (erule metrics_stepE; (erule task_stepE)?)
    (auto simp: endpoint_inv_def begin_shutdown_def drop_endpoint_def take_and_send_def
      handle_accept_def handle_accept_error_def split: sum.splits)

lemma endpoint_inv_steps: "metrics_steps s s' \<Longrightarrow> endpoint_inv s \<Longrightarrow> endpoint_inv s'"
  by (induction rule: rtranclp_induct) (auto intro: endpoint_inv_step)

lemma spawned_inv: "spawn_metrics_endpoint show_addr bind addr = Inr s \<Longrightarrow> endpoint_inv s \<and> ep_join s"
  by (auto simp: spawn_metrics_endpoint_def result_iff endpoint_inv_def)

text \<open>
  The endpoint is told to stop at most once, whether it is shut down, dropped or both, and its
  task never stops unless it was.
\<close>

lemma endpoint_signalled_once:
  assumes "spawn_metrics_endpoint show_addr bind addr = Inr s0" and "metrics_steps s0 s"
  shows "ep_sends s \<le> 1 \<and> (ep_sends s = 1 \<longleftrightarrow> \<not> ep_shutdown s) \<and>
    (ep_task s = Stopped \<longrightarrow> ep_sends s = 1) \<and> drop_endpoint (begin_shutdown s) = begin_shutdown s"
  using endpoint_inv_steps [OF assms(2)] spawned_inv [OF assms(1)]
  by (auto simp: endpoint_inv_def drop_endpoint_def begin_shutdown_def take_and_send_def split: if_splits)

text \<open>A handler that never returns, whatever the metrics are.\<close>

definition stalls :: "'e metrics_socket \<Rightarrow> bool" where
  "stalls K \<longleftrightarrow> (\<forall>body. \<not> fst (handle_connection body K))"

lemma silent_peer_stalls: "mk_read K 1024 = Read_pending \<Longrightarrow> stalls K"
  by (simp add: stalls_def handle_connection_def discard_request_def)

lemma stalled_step:
  "metrics_step s s' \<Longrightarrow> ep_task s = Handling K \<Longrightarrow> stalls K \<Longrightarrow>
     ep_task s' = Handling K \<and> ep_log s' = ep_log s"
  by (erule metrics_stepE; (erule task_stepE)?)
    (auto simp: begin_shutdown_def drop_endpoint_def take_and_send_def stalls_def dest: arg_cong [where f = fst])

lemma stalled_steps:
  "metrics_steps s s' \<Longrightarrow> ep_task s = Handling K \<Longrightarrow> stalls K \<Longrightarrow>
     ep_task s' = Handling K \<and> ep_log s' = ep_log s"
  by (induction rule: rtranclp_induct) (auto dest: stalled_step)

lemma task_can_stop:
  assumes "ep_ready s" and "\<And>K. ep_task s = Handling K \<Longrightarrow> \<not> stalls K"
  shows "\<exists>s'. task_steps s s' \<and> joined s'"
proof -
  have stop: "\<exists>s'. task_steps s1 s' \<and> joined s'" if "ep_task s1 = Selecting" "ep_ready s1" for s1 :: "'a endpoint_state"
    using select_shutdown [OF that] by (intro exI [of _ "s1\<lparr>ep_task := Stopped\<rparr>"]) (auto simp: joined_def)
  show ?thesis
  proof (cases "ep_task s")
    case Selecting
    then show ?thesis using stop assms(1) by blast
  next
    case (Handling K)
    then obtain body where "fst (handle_connection body K)" using assms(2) by (auto simp: stalls_def)
    then obtain acts where "handle_connection body K = (True, acts)" by (metis prod.collapse)
    from connection_handled [OF Handling this] stop [of "s\<lparr>ep_task := Selecting, ep_log := ep_log s @ [acts]\<rparr>"] assms(1)
    show ?thesis by (auto intro: converse_rtranclp_into_rtranclp)
  next
    case (Backing_off ms)
    from backed_off [OF this] stop [of "s\<lparr>ep_task := Selecting\<rparr>"] assms(1)
    show ?thesis by (auto intro: converse_rtranclp_into_rtranclp)
  next
    case Stopped
    then show ?thesis by (intro exI [of _ s]) (simp add: joined_def)
  qed
qed

text \<open>
  Once signalled, the task can always still stop, within the steps it has to take for the
  connection at hand, unless that connection's handler never returns.
\<close>

lemma endpoint_can_stop:
  assumes "ep_ready s" and "\<And>K. ep_task s = Handling K \<Longrightarrow> \<not> stalls K"
  shows "\<exists>s'. metrics_steps s s' \<and> joined s'"
  using task_can_stop [OF assms] task_steps_metrics by blast

text \<open>
  One silent peer holds up the endpoint for good: while the task handles a connection from
  which nothing is ever read, it serves no other and never stops, whatever is signalled, so
  \<open>shutdown\<close> never returns.
\<close>

lemma silent_peer_blocks_shutdown:
  fixes K :: "'e metrics_socket" and s :: "'e endpoint_state"
  assumes "spawn_metrics_endpoint show_addr bind addr = Inr s" and "mk_read K 1024 = Read_pending"
  shows "\<exists>s1. metrics_steps s s1 \<and> ep_ready s1 \<and> \<not> ep_join s1 \<and>
    (\<forall>s2. metrics_steps s1 s2 \<longrightarrow> \<not> joined s2 \<and> ep_log s2 = [])"
proof -
  have s: "ep_task s = Selecting" "ep_join s" "ep_shutdown s" "ep_log s = []"
    using assms(1) by (auto simp: spawn_metrics_endpoint_def result_iff)
  let ?h = "s\<lparr>ep_task := Handling K\<rparr>"
  have "metrics_step s ?h" "metrics_step ?h (begin_shutdown ?h)"
    using task_moves [OF select_accept [OF s(1), of "Inr K"]] owner_shutdown [of ?h] s(2) by (simp_all add: handle_accept_def)
  then have "metrics_steps s (begin_shutdown ?h)" by (meson converse_rtranclp_into_rtranclp r_into_rtranclp)
  moreover have b: "ep_task (begin_shutdown ?h) = Handling K" "ep_log (begin_shutdown ?h) = []"
    "ep_ready (begin_shutdown ?h)" "\<not> ep_join (begin_shutdown ?h)"
    using s by (simp_all add: begin_shutdown_def take_and_send_def)
  moreover have "\<not> joined s2 \<and> ep_log s2 = []" if "metrics_steps (begin_shutdown ?h) s2" for s2
    using stalled_steps [OF that b(1) silent_peer_stalls [OF assms(2)]] b(2) by (simp add: joined_def)
  ultimately show ?thesis by (intro exI [of _ "begin_shutdown ?h"]) simp
qed

definition scripted_metrics :: "unit read_completion \<Rightarrow> unit metrics_socket" where
  "scripted_metrics r = \<lparr>mk_read = \<lambda>n. r, mk_write = \<lambda>b. Completed, mk_shutdown = Completed\<rparr>"

definition sample_endpoint :: "unit endpoint_state" where
  "sample_endpoint = \<lparr>ep_shutdown = True, ep_join = True, ep_ready = False, ep_sends = 0,
     ep_task = Selecting, ep_log = []\<rparr>"

lemma sample_endpoint_spawned:
  "spawn_metrics_endpoint (\<lambda>a. []) (\<lambda>a. Inr ()) \<lparr>sa_ip = V4 0, sa_port = 9100\<rparr> = Inr sample_endpoint"
  by (simp add: spawn_metrics_endpoint_def sample_endpoint_def)

lemma endpoint_signalled_once_witness:
  "ep_sends (begin_shutdown sample_endpoint) = 1 \<and>
   drop_endpoint (begin_shutdown (begin_shutdown sample_endpoint)) = begin_shutdown (begin_shutdown sample_endpoint)"
proof -
  have "metrics_steps sample_endpoint (begin_shutdown sample_endpoint)"
    by (intro r_into_rtranclp owner_shutdown) (simp add: sample_endpoint_def)
  from endpoint_signalled_once [OF sample_endpoint_spawned this] show ?thesis
    by (simp add: begin_shutdown_def take_and_send_def sample_endpoint_def)
qed

lemma endpoint_can_stop_witness:
  "\<exists>s'. metrics_steps (begin_shutdown (sample_endpoint\<lparr>ep_task := Handling (scripted_metrics (Read_bytes 0))\<rparr>)) s' \<and> joined s'"
proof (rule endpoint_can_stop)
  let ?s = "sample_endpoint\<lparr>ep_task := Handling (scripted_metrics (Read_bytes 0))\<rparr>"
  show "ep_ready (begin_shutdown ?s)" by (simp add: begin_shutdown_def take_and_send_def sample_endpoint_def)
  have "fst (handle_connection [] (scripted_metrics (Read_bytes 0)))"
    by (simp add: handle_connection_def discard_request_def respond_with_metrics_def scripted_metrics_def
        attempt_then_def attempt_def Let_def)
  then show "\<not> stalls K" if "ep_task (begin_shutdown ?s) = Handling K" for K
    using that by (auto simp: begin_shutdown_def take_and_send_def sample_endpoint_def stalls_def)
qed

lemma silent_peer_blocks_shutdown_witness:
  "\<exists>s1. metrics_steps sample_endpoint s1 \<and> ep_ready s1 \<and> \<not> joined s1"
proof -
  have "mk_read (scripted_metrics Read_pending) 1024 = Read_pending" by (simp add: scripted_metrics_def)
  from silent_peer_blocks_shutdown [OF sample_endpoint_spawned this] show ?thesis by blast
qed

end
