(* ===== verification/Query.thy ===== *)
theory Query
  imports Identity
begin

section \<open>The finger query line (src/query.rs)\<close>

text \<open>
  \<open>query_parse\<close> is \<open>query::parse\<close>: validation of the raw bytes, the optional \<open>/W\<close> flag, the
  token count and the user and host parts, each with its error.  The token iterator of the
  code is the list of tokens still to come.  The inductive \<open>query_line\<close> is the grammar of the
  accepted lines, and the parser is shown equivalent to it.
\<close>

subsection \<open>Data\<close>

record finger_query =
  fq_username :: username
  fq_host :: "hostname option"
  fq_verbose :: bool

datatype query_error =
    MissingCrlf
  | ControlCharacter
  | MissingUsername
  | UnknownOption
  | TrailingInput
  | InvalidUsername str
  | InvalidHostname str
  | InvalidEncoding

fun display_query_error :: "query_error \<Rightarrow> str" where
  "display_query_error MissingCrlf = lit ''request must terminate with CRLF''"
| "display_query_error ControlCharacter = lit ''query may not contain embedded control characters''"
| "display_query_error MissingUsername = lit ''query must specify a username''"
| "display_query_error UnknownOption = lit ''unrecognised option''"
| "display_query_error TrailingInput = lit ''unexpected trailing input''"
| "display_query_error (InvalidUsername e) = lit ''invalid username: '' @ e"
| "display_query_error (InvalidHostname e) = lit ''invalid hostname: '' @ e"
| "display_query_error InvalidEncoding = lit ''query contains invalid UTF-8''"

subsection \<open>Operations\<close>

abbreviation at_sign :: rchar where "at_sign \<equiv> 64"
abbreviation slash :: rchar where "slash \<equiv> 47"

definition is_embedded_control_char :: "u8 \<Rightarrow> bool" where
  "is_embedded_control_char b \<longleftrightarrow> (0x00 \<le> b \<and> b \<le> 0x1f) \<and> b \<noteq> 13 \<and> b \<noteq> 10"

definition validate_input :: "bytes \<Rightarrow> query_error + str" where
  "validate_input line =
     and_then (ok_or (from_utf8 line) InvalidEncoding) (\<lambda>raw.
     and_then (ok_or (strip_suffix crlf raw) MissingCrlf) (\<lambda>stripped.
       if list_ex is_embedded_control_char (as_bytes stripped) then Inl ControlCharacter
       else Inr stripped))"

definition ensure_valid :: "str \<Rightarrow> query_error + str" where
  "ensure_valid token =
     (if token = [] then Inl MissingUsername
      else if hd token = slash then Inl UnknownOption
      else Inr token)"

text \<open>The result holds the flag, the user token and what is left in the iterator.\<close>

definition parse_verbose_flag :: "str list \<Rightarrow> str \<Rightarrow> query_error + bool \<times> str \<times> str list" where
  "parse_verbose_flag tokens first =
     (if eq_ignore_ascii_case first (lit ''/W'') then
        (case tokens of
           [] \<Rightarrow> Inl MissingUsername
         | next # rest \<Rightarrow> and_then (ensure_valid next) (\<lambda>token. Inr (True, token, rest)))
      else and_then (ensure_valid first) (\<lambda>token. Inr (False, token, tokens)))"

definition format_error :: "identity_error \<Rightarrow> str" where
  "format_error err = display_identity_error err"

definition host_fragment :: "str list \<Rightarrow> str option" where
  "host_fragment parts =
     (case parts of
        [] \<Rightarrow> None
      | fragment # _ \<Rightarrow>
          (case split_on (\<lambda>c. c = at_sign) fragment of
             [] \<Rightarrow> None
           | host # _ \<Rightarrow> if host = [] then None else Some host))"

definition parse_user_host :: "str \<Rightarrow> query_error + username \<times> hostname option" where
  "parse_user_host user_token =
     (case splitn2 at_sign user_token of
        [] \<Rightarrow> Inl MissingUsername
      | user # parts \<Rightarrow>
          if user = [] then Inl MissingUsername
          else
            and_then (map_err (\<lambda>err. InvalidUsername (format_error err)) (username_parse user))
              (\<lambda>username.
                case host_fragment parts of
                  None \<Rightarrow> Inr (username, None)
                | Some fragment \<Rightarrow>
                    and_then (map_err (\<lambda>err. InvalidHostname (format_error err))
                               (hostname_parse fragment))
                      (\<lambda>host. Inr (username, Some host))))"

definition query_parse :: "bytes \<Rightarrow> query_error + finger_query" where
  "query_parse line =
     and_then (validate_input line) (\<lambda>raw.
       case split_whitespace raw of
         [] \<Rightarrow> Inl MissingUsername
       | first # tokens \<Rightarrow>
           and_then (parse_verbose_flag tokens first) (\<lambda>(verbose, user_token, rest).
             if rest \<noteq> [] then Inl TrailingInput
             else
               and_then (parse_user_host user_token) (\<lambda>(username, host).
                 Inr \<lparr>fq_username = username, fq_host = host, fq_verbose = verbose\<rparr>)))"

definition host_display :: "finger_query \<Rightarrow> str" where
  "host_display q = (case fq_host q of None \<Rightarrow> lit ''<default>'' | Some h \<Rightarrow> hostname_str h)"

definition display_finger_query :: "finger_query \<Rightarrow> str" where
  "display_finger_query q = username_str (fq_username q) @ [at_sign] @ host_display q"

subsection \<open>Validation of the raw line, in terms of its text\<close>

definition control_char :: "rchar \<Rightarrow> bool" where
  "control_char c \<longleftrightarrow> c < 0x20 \<and> c \<noteq> CR \<and> c \<noteq> LF"

lemma embedded_control_unat: "is_embedded_control_char b \<longleftrightarrow> control_char (unat b)"
proof -
  have "b = 13 \<longleftrightarrow> unat b = 13" "b = 10 \<longleftrightarrow> unat b = 10"
    by (simp_all add: word_unat_eq_iff)
  moreover have "b \<le> 0x1f \<longleftrightarrow> unat b < 0x20" by (simp add: word_le_nat_alt) arith
  ultimately show ?thesis by (simp add: is_embedded_control_char_def control_char_def)
qed

lemma control_bytes_iff:
  assumes "valid_str s"
  shows "list_ex is_embedded_control_char (as_bytes s) \<longleftrightarrow> list_ex control_char s"
  using assms
proof (induction s)
  case (Cons c s)
  have "list_ex is_embedded_control_char (encode_char c) \<longleftrightarrow> control_char c"
  proof
    assume "list_ex is_embedded_control_char (encode_char c)"
    then obtain b where "b \<in> set (encode_char c)" "control_char (unat b)"
      by (auto simp: list_ex_iff embedded_control_unat)
    with Cons.prems show "control_char c" by (auto simp: control_char_def dest: encode_char_low)
  next
    assume c: "control_char c"
    then have "encode_char c = [byte c]" "unat (byte c) = c"
      by (simp_all add: control_char_def encode_ascii is_ascii_def)
    with c show "list_ex is_embedded_control_char (encode_char c)"
      by (simp add: embedded_control_unat)
  qed
  with Cons show ?case by simp
qed simp

lemma valid_crlf [simp]: "valid_str crlf"
  by (simp add: crlf_def is_scalar_def)

lemma validate_input_text:
  "valid_str s \<Longrightarrow> validate_input (as_bytes (s @ crlf)) =
     (if list_ex control_char s then Inl ControlCharacter else Inr s)"
  by (simp add: validate_input_def control_bytes_iff)

lemma validate_input_Inr_iff [result_iff]:
  "validate_input line = Inr s \<longleftrightarrow>
     valid_str s \<and> line = as_bytes (s @ crlf) \<and> \<not> list_ex control_char s"
proof
  assume "validate_input line = Inr s"
  then obtain raw where "from_utf8 line = Some raw" "raw = s @ crlf"
    and c: "\<not> list_ex is_embedded_control_char (as_bytes s)"
    by (auto simp: validate_input_def result_iff strip_suffix_Some split: if_splits)
  then have "valid_str s" "line = as_bytes (s @ crlf)" by (auto simp: from_utf8_iff)
  with c show "valid_str s \<and> line = as_bytes (s @ crlf) \<and> \<not> list_ex control_char s"
    by (simp add: control_bytes_iff)
qed (auto simp: validate_input_text)

lemma validate_input_Inl_iff [result_iff]:
  "validate_input line = Inl e \<longleftrightarrow>
     (e = InvalidEncoding \<and> (\<nexists>s. valid_str s \<and> line = as_bytes s)) \<or>
     (e = MissingCrlf \<and> (\<exists>s. valid_str s \<and> line = as_bytes s \<and> (\<nexists>t. s = t @ crlf))) \<or>
     (e = ControlCharacter \<and>
        (\<exists>s. valid_str s \<and> line = as_bytes (s @ crlf) \<and> list_ex control_char s))"
proof (cases "from_utf8 line")
  case None
  then have "\<And>s. valid_str s \<Longrightarrow> line \<noteq> as_bytes s" by auto
  then have "\<And>s. valid_str s \<Longrightarrow> line \<noteq> as_bytes (s @ crlf)" by simp
  with None \<open>\<And>s. valid_str s \<Longrightarrow> line \<noteq> as_bytes s\<close> show ?thesis
    by (auto simp: validate_input_def)
next
  case (Some raw)
  then have raw: "valid_str raw" "line = as_bytes raw" by (simp_all add: from_utf8_iff)
  show ?thesis
  proof (cases "strip_suffix crlf raw")
    case None
    then have "\<nexists>t. raw = t @ crlf" by (simp add: strip_suffix_None)
    moreover have "validate_input line = Inl MissingCrlf"
      using Some None by (simp add: validate_input_def)
    ultimately show ?thesis using raw by (auto simp: as_bytes_inj)
  next
    case s: (Some s)
    then have "raw = s @ crlf" by (simp add: strip_suffix_Some)
    then show ?thesis using raw
      by (auto simp: validate_input_text as_bytes_inj dest: spec [of _ "s @ crlf"])
  qed
qed

subsection \<open>The grammar of accepted lines\<close>

text \<open>
  A user token is a username, optionally followed by an at sign and a host; whatever follows a
  second at sign is ignored, and an empty host counts as none.
\<close>

definition host_tail :: "str \<Rightarrow> bool" where
  "host_tail t \<longleftrightarrow> t = [] \<or> hd t = at_sign"

inductive user_host_token :: "str \<Rightarrow> username \<Rightarrow> hostname option \<Rightarrow> bool" where
  bare: "username_parse u = Inr n \<Longrightarrow> at_sign \<notin> set u \<Longrightarrow> user_host_token u n None"
| empty_host: "username_parse u = Inr n \<Longrightarrow> at_sign \<notin> set u \<Longrightarrow> host_tail t \<Longrightarrow>
    user_host_token (u @ at_sign # t) n None"
| host: "username_parse u = Inr n \<Longrightarrow> at_sign \<notin> set u \<Longrightarrow> hostname_parse h = Inr m \<Longrightarrow>
    at_sign \<notin> set h \<Longrightarrow> host_tail t \<Longrightarrow> user_host_token (u @ at_sign # h @ t) n (Some m)"

inductive query_line :: "str \<Rightarrow> finger_query \<Rightarrow> bool" where
  plain: "split_whitespace s = [tok] \<Longrightarrow> user_host_token tok n h \<Longrightarrow>
    query_line s \<lparr>fq_username = n, fq_host = h, fq_verbose = False\<rparr>"
| verbose: "split_whitespace s = [flag, tok] \<Longrightarrow> eq_ignore_ascii_case flag (lit ''/W'') \<Longrightarrow>
    user_host_token tok n h \<Longrightarrow>
    query_line s \<lparr>fq_username = n, fq_host = h, fq_verbose = True\<rparr>"

lemma username_parse_nonempty: "username_parse u = Inr n \<Longrightarrow> u \<noteq> []"
  by (auto simp: username_parse_Inr_iff trim_def trim_matches_def trim_end_matches_def)

lemma hostname_parse_nonempty: "hostname_parse h = Inr m \<Longrightarrow> h \<noteq> []"
  by (auto simp: hostname_parse_labels trim_def trim_matches_def trim_end_matches_def)

lemma host_fragment_none [simp]: "host_fragment [] = None"
  by (simp add: host_fragment_def)

lemma host_fragment_at:
  assumes "at_sign \<notin> set h" and "host_tail t"
  shows "host_fragment [h @ t] = (if h = [] then None else Some h)"
proof -
  have h: "split_on (\<lambda>c. c = at_sign) h = [h]" using assms(1) by (intro split_on_none) auto
  show ?thesis
  proof (cases t)
    case Nil
    with h show ?thesis by (simp add: host_fragment_def)
  next
    case (Cons c t')
    with assms(2) have "c = at_sign" by (simp add: host_tail_def)
    with Cons h show ?thesis by (simp add: host_fragment_def split_on_append)
  qed
qed

lemma split_host_tail:
  obtains h t where "rest = h @ t" "at_sign \<notin> set h" "host_tail t"
  by (metis append_Nil2 host_tail_def list.sel(1) split_list_first)

lemma parse_user_host_iff: "parse_user_host tok = Inr (n, h) \<longleftrightarrow> user_host_token tok n h"
proof
  assume ok: "parse_user_host tok = Inr (n, h)"
  show "user_host_token tok n h"
  proof (rule splitn2_cases [of at_sign tok])
    assume "at_sign \<notin> set tok" "splitn2 at_sign tok = [tok]"
    then show ?thesis using ok
      by (auto simp: parse_user_host_def result_iff split: if_splits intro: user_host_token.bare)
  next
    fix u rest assume u: "tok = u @ at_sign # rest" "at_sign \<notin> set u" "splitn2 at_sign tok = [u, rest]"
    obtain f t where f: "rest = f @ t" "at_sign \<notin> set f" "host_tail t" by (rule split_host_tail)
    then show ?thesis using ok u host_fragment_at [OF f(2,3)]
      by (auto simp: parse_user_host_def result_iff split: if_splits
          intro: user_host_token.empty_host user_host_token.host)
  qed
next
  assume "user_host_token tok n h"
  then show "parse_user_host tok = Inr (n, h)"
  proof cases
    case bare
    then show ?thesis
      by (simp add: parse_user_host_def splitn2_none username_parse_nonempty)
  next
    case (empty_host u t)
    then show ?thesis using host_fragment_at [of "[]" t]
      by (simp add: parse_user_host_def splitn2_at username_parse_nonempty)
  next
    case (host u f m t)
    then show ?thesis
      by (simp add: parse_user_host_def splitn2_at host_fragment_at username_parse_nonempty
          hostname_parse_nonempty)
  qed
qed

lemma user_host_token_start:
  assumes "user_host_token tok n h" and "\<And>c. c \<in> set tok \<Longrightarrow> \<not> is_whitespace c"
  shows "tok \<noteq> [] \<and> hd tok \<noteq> slash"
proof -
  obtain u r where u: "tok = u @ r" "username_parse u = Inr n"
    using assms(1) by cases auto
  then have "u \<noteq> []" by (simp add: username_parse_nonempty)
  moreover have "trim u = u" using u(1) assms(2) by (intro trim_none) auto
  ultimately have "username_char (hd u)"
    using u(2) by (auto simp: username_parse_Inr_iff list_all_iff)
  then have "hd u \<noteq> slash" by (auto simp: username_char_def char_class_defs)
  with \<open>u \<noteq> []\<close> u(1) show ?thesis by simp
qed

lemma ensure_valid_Inr_iff [result_iff]:
  "ensure_valid tok = Inr x \<longleftrightarrow> tok \<noteq> [] \<and> hd tok \<noteq> slash \<and> x = tok"
  by (auto simp: ensure_valid_def)

lemma flag_slash: "eq_ignore_ascii_case tok (lit ''/W'') \<Longrightarrow> hd tok = slash"
proof -
  assume "eq_ignore_ascii_case tok (lit ''/W'')"
  then have "to_ascii_lowercase tok = [slash, 119]"
    by (simp add: eq_ignore_ascii_case_def lit_def ascii_lower_def is_upper_def)
  then obtain c d where "tok = [c, d]" "ascii_lower c = slash"
    by (auto simp: to_ascii_lowercase_def)
  then show ?thesis by (auto simp: ascii_lower_def is_upper_def split: if_splits)
qed

lemma query_parse_line:
  "query_parse line = Inr q \<longleftrightarrow>
     (\<exists>s. valid_str s \<and> line = as_bytes (s @ crlf) \<and> \<not> list_ex control_char s \<and> query_line s q)"
proof
  assume ok: "query_parse line = Inr q"
  then obtain s where s: "validate_input line = Inr s"
    by (auto simp: query_parse_def and_then_Inr_iff)
  obtain first tokens where toks: "split_whitespace s = first # tokens"
    using ok s by (cases "split_whitespace s") (auto simp: query_parse_def)
  obtain verbose tok n h where
    flag: "parse_verbose_flag tokens first = Inr (verbose, tok, [])"
    and uh: "parse_user_host tok = Inr (n, h)"
    and q: "q = \<lparr>fq_username = n, fq_host = h, fq_verbose = verbose\<rparr>"
    using ok s toks by (auto simp: query_parse_def and_then_Inr_iff split: if_splits)
  have "query_line s q"
  proof (cases "eq_ignore_ascii_case first (lit ''/W'')")
    case True
    then show ?thesis using flag toks uh q
      by (auto simp: parse_verbose_flag_def result_iff parse_user_host_iff split: list.splits
          intro: query_line.verbose)
  next
    case False
    then show ?thesis using flag toks uh q
      by (auto simp: parse_verbose_flag_def result_iff parse_user_host_iff intro: query_line.plain)
  qed
  with s show "\<exists>s. valid_str s \<and> line = as_bytes (s @ crlf) \<and> \<not> list_ex control_char s \<and> query_line s q"
    by (auto simp: validate_input_Inr_iff)
next
  assume "\<exists>s. valid_str s \<and> line = as_bytes (s @ crlf) \<and> \<not> list_ex control_char s \<and> query_line s q"
  then obtain s where s: "validate_input line = Inr s" "query_line s q"
    by (auto simp: validate_input_Inr_iff)
  note words = split_whitespace_tokens(2) [of _ s]
  from s(2) show "query_parse line = Inr q"
  proof cases
    case (plain tok n h)
    then have "tok \<noteq> [] \<and> hd tok \<noteq> slash" using words by (intro user_host_token_start) auto
    with plain s(1) show ?thesis
      by (auto simp: query_parse_def parse_verbose_flag_def ensure_valid_def parse_user_host_iff
          [symmetric] dest: flag_slash)
  next
    case (verbose flag tok n h)
    then have "tok \<noteq> [] \<and> hd tok \<noteq> slash" using words by (intro user_host_token_start) auto
    with verbose s(1) show ?thesis
      by (simp add: query_parse_def parse_verbose_flag_def ensure_valid_def parse_user_host_iff
          [symmetric])
  qed
qed

text \<open>
  C2: the parser accepts exactly the lines of the grammar: valid UTF-8 ending in CRLF, with no
  control character other than carriage return and line feed, made of an optional /W flag and
  one user token, and it returns the query that the grammar reads off the line.
\<close>
theorem query_parse_grammar:
  "query_parse line = Inr q \<longleftrightarrow>
     (\<exists>s. valid_str s \<and> line = as_bytes (s @ crlf) \<and> \<not> list_ex control_char s \<and> query_line s q)"
  by (rule query_parse_line)

subsection \<open>Queries on the wire\<close>

definition query_wf :: "finger_query \<Rightarrow> bool" where
  "query_wf q \<longleftrightarrow>
     username_wf (fq_username q) \<and> (case fq_host q of None \<Rightarrow> True | Some h \<Rightarrow> hostname_wf h)"

text \<open>The text a client sends for a query, with \<open>sep\<close> between the flag and the user token.\<close>

definition user_token :: "finger_query \<Rightarrow> str" where
  "user_token q =
     username_str (fq_username q) @
     (case fq_host q of None \<Rightarrow> [] | Some h \<Rightarrow> at_sign # hostname_str h)"

definition wire_text :: "str \<Rightarrow> finger_query \<Rightarrow> str" where
  "wire_text sep q = (if fq_verbose q then lit ''/W'' @ sep else []) @ user_token q"

lemma user_host_token_wf:
  assumes "user_host_token tok n h"
  shows "username_wf n" and "h = Some m \<Longrightarrow> hostname_wf m"
  using assms by (cases; auto dest: username_parse_wf hostname_parse_wf)+

lemma query_parse_wf: "query_parse line = Inr q \<Longrightarrow> query_wf q"
  unfolding query_parse_line
  by (auto simp: query_wf_def elim!: query_line.cases dest: user_host_token_wf split: option.split)

lemma user_token_chars:
  assumes "query_wf q" and "c \<in> set (user_token q)"
  shows "is_ascii c" and "\<not> is_whitespace c" and "\<not> control_char c"
proof -
  have "username_char c \<or> name_char c \<or> c = dot \<or> c = at_sign"
    using assms username_wf_chars(2) [of "fq_username q" c] hostname_wf_chars(1) [of _ c]
    by (fastforce simp: query_wf_def user_token_def split: option.splits)
  then show "is_ascii c" "\<not> is_whitespace c" "\<not> control_char c"
    by (auto simp: username_char_def name_char_def char_class_defs control_char_def)
qed

lemma user_token_parses:
  assumes "query_wf q"
  shows "user_host_token (user_token q) (fq_username q) (fq_host q)"
proof -
  let ?u = "username_str (fq_username q)"
  have u: "username_parse ?u = Inr (fq_username q)"
    using assms by (simp add: query_wf_def username_wf_parse)
  have at: "at_sign \<notin> set ?u"
    using assms username_wf_chars(2) [of "fq_username q" at_sign]
    by (auto simp: query_wf_def username_char_def char_class_defs)
  show ?thesis
  proof (cases "fq_host q")
    case None
    with u at show ?thesis by (simp add: user_token_def user_host_token.bare)
  next
    case (Some h)
    then have wf: "hostname_wf h" using assms by (simp add: query_wf_def)
    have "at_sign \<notin> set (hostname_str h)"
      using hostname_wf_chars(1) [OF wf, of at_sign] by (auto simp: name_char_def char_class_defs)
    with u at wf Some show ?thesis
      using user_host_token.host [of ?u "fq_username q" "hostname_str h" h "[]"]
      by (simp add: user_token_def hostname_wf_parse host_tail_def)
  qed
qed

lemma user_token_nonempty: "query_wf q \<Longrightarrow> user_token q \<noteq> []"
  by (simp add: query_wf_def username_wf_def user_token_def)

lemma flag_word: "split_whitespace (lit ''/W'') = [lit ''/W'']"
  by (rule split_whitespace_word) (auto simp: lit_def is_whitespace_def)

lemma split_whitespace_sep:
  assumes "sep \<noteq> []" "list_all is_whitespace sep"
  shows "split_whitespace (s @ sep @ t) = split_whitespace s @ split_whitespace t"
  using assms
proof (induction sep arbitrary: s)
  case (Cons c sep)
  then show ?case by (cases sep) (simp_all add: split_whitespace_space split_whitespace_Cons_space)
qed simp

lemma wire_text_line:
  assumes "query_wf q" "sep \<noteq> []" "list_all is_whitespace sep"
  shows "query_line (wire_text sep q) q"
proof -
  have tok: "split_whitespace (user_token q) = [user_token q]"
    using assms(1) by (intro split_whitespace_word user_token_nonempty user_token_chars)
  note uh = user_token_parses [OF assms(1)]
  show ?thesis
  proof (cases "fq_verbose q")
    case True
    then have "split_whitespace (wire_text sep q) = [lit ''/W'', user_token q]"
      using assms(2,3) tok by (simp add: wire_text_def split_whitespace_sep flag_word)
    moreover have "\<lparr>fq_username = fq_username q, fq_host = fq_host q, fq_verbose = True\<rparr> = q"
      using True by (cases q) simp
    ultimately show ?thesis
      using query_line.verbose [OF _ eq_ignore_ascii_case_refl uh] by metis
  next
    case False
    then have "split_whitespace (wire_text sep q) = [user_token q]" using tok by (simp add: wire_text_def)
    moreover have "\<lparr>fq_username = fq_username q, fq_host = fq_host q, fq_verbose = False\<rparr> = q"
      using False by (cases q) simp
    ultimately show ?thesis using query_line.plain [OF _ uh] by metis
  qed
qed

lemma query_parse_wire:
  assumes "query_wf q" "sep \<noteq> []" "list_all is_whitespace sep"
    and "valid_str sep" "\<not> list_ex control_char sep"
  shows "query_parse (as_bytes (wire_text sep q @ crlf)) = Inr q"
proof -
  have "valid_str (user_token q)" "\<not> list_ex control_char (user_token q)"
    using user_token_chars [OF assms(1)] by (auto simp: valid_str_def list_ex_iff is_ascii_scalar)
  then have "valid_str (wire_text sep q) \<and> \<not> list_ex control_char (wire_text sep q)"
    using assms(4,5) by (simp add: wire_text_def lit_def is_scalar_def control_char_def)
  then show ?thesis
    using wire_text_line [OF assms(1-3)] unfolding query_parse_line by blast
qed

text \<open>
  C10: printing and parsing round-trip.  The queries the parser can return are exactly the
  well-formed ones, and each is recovered from its line as a client writes it (an optional
  /W and one space, the username, an optional at sign and host, CRLF).
\<close>
theorem query_roundtrip:
  "query_wf q \<longleftrightarrow> query_parse (as_bytes (wire_text (lit '' '') q @ crlf)) = Inr q"
proof
  assume "query_wf q"
  then show "query_parse (as_bytes (wire_text (lit '' '') q @ crlf)) = Inr q"
    by (rule query_parse_wire) (simp_all add: lit_def is_whitespace_def is_scalar_def control_char_def)
qed (rule query_parse_wf)

text \<open>
  C35: Any non-empty run of Unicode whitespace stands between the flag and the user token of a
  query, if every character of it is from 0x20 up, a carriage return or a line feed; with any other
  whitespace in it (a tab, a vertical tab, a form feed) the line is refused for a control character.  So
  carriage return and line feed separate tokens inside a line, although the text of the error
  forbids embedded control characters.
\<close>
theorem query_parse_separators:
  assumes "query_wf q" and "fq_verbose q" and "sep \<noteq> []" and "valid_str sep" and "list_all is_whitespace sep"
  shows "query_parse (as_bytes (wire_text sep q @ crlf)) =
    (if list_all (\<lambda>c. 0x20 \<le> c \<or> c = CR \<or> c = LF) sep then Inr q else Inl ControlCharacter)"
proof (cases "list_ex control_char sep")
  case False
  then have "list_all (\<lambda>c. 0x20 \<le> c \<or> c = CR \<or> c = LF) sep"
    by (auto simp: list_all_iff list_ex_iff control_char_def not_less)
  then show ?thesis using query_parse_wire [OF assms(1,3,5,4) False] by simp
next
  case True
  then have sep: "\<not> list_all (\<lambda>c. 0x20 \<le> c \<or> c = CR \<or> c = LF) sep"
    by (auto simp: list_all_iff list_ex_iff control_char_def not_le)
  have "valid_str (user_token q)"
    using user_token_chars [OF assms(1)] by (auto simp: valid_str_def list_ex_iff is_ascii_scalar)
  then have "valid_str (wire_text sep q)" "list_ex control_char (wire_text sep q)"
    using assms(2,4) True by (simp_all add: wire_text_def lit_def is_scalar_def)
  then have "query_parse (as_bytes (wire_text sep q @ crlf)) = Inl ControlCharacter"
    by (simp add: query_parse_def validate_input_text)
  then show ?thesis using sep by simp
qed

definition sample_query :: finger_query where
  "sample_query = \<lparr>fq_username = Username (lit ''alice''),
     fq_host = Some (HostName (lit ''example.com'')), fq_verbose = True\<rparr>"

lemma sample_query_wf: "query_wf sample_query"
  by code_simp

lemma query_parse_separators_witness:
  "query_parse (as_bytes (wire_text [CR, LF, 0x20] sample_query @ crlf)) = Inr sample_query \<and>
   query_parse (as_bytes (wire_text [0x20, 9] sample_query @ crlf)) = Inl ControlCharacter"
proof -
  have verbose: "fq_verbose sample_query" by (simp add: sample_query_def)
  show ?thesis
    using query_parse_separators [OF sample_query_wf verbose, of "[CR, LF, 0x20]"]
      query_parse_separators [OF sample_query_wf verbose, of "[0x20, 9]"]
    by (simp add: is_scalar_def is_whitespace_def)
qed

subsection \<open>Rejected lines\<close>

lemma ensure_valid_Inl_iff [result_iff]:
  "ensure_valid tok = Inl e \<longleftrightarrow>
     (tok = [] \<and> e = MissingUsername) \<or> (tok \<noteq> [] \<and> hd tok = slash \<and> e = UnknownOption)"
  by (auto simp: ensure_valid_def)

lemma parse_verbose_flag_errors:
  "parse_verbose_flag tokens first = Inl e \<Longrightarrow> e = MissingUsername \<or> e = UnknownOption"
  by (auto simp: parse_verbose_flag_def result_iff split: if_splits list.splits)

lemma parse_user_host_errors:
  "parse_user_host tok = Inl e \<Longrightarrow>
     e = MissingUsername \<or> (\<exists>m. e = InvalidUsername m) \<or> (\<exists>m. e = InvalidHostname m)"
  by (auto simp: parse_user_host_def result_iff split: if_splits list.splits option.splits)

lemma parse_user_host_missing:
  "tok \<noteq> [] \<Longrightarrow> parse_user_host tok = Inl MissingUsername \<longleftrightarrow> hd tok = at_sign"
  by (rule splitn2_cases [of at_sign tok])
    (auto simp: parse_user_host_def result_iff hd_append split: option.splits, (metis hd_in_set)+)

text \<open>After validation, only errors about tokens are left.\<close>

definition token_error :: "query_error \<Rightarrow> bool" where
  "token_error e \<longleftrightarrow> e \<notin> {InvalidEncoding, MissingCrlf, ControlCharacter}"

lemma query_parse_token_error:
  assumes "validate_input line = Inr s" and "query_parse line = Inl e"
  shows "token_error e"
  using assms
  by (auto simp: query_parse_def and_then_Inl_iff token_error_def split: list.splits if_splits
      dest!: parse_verbose_flag_errors parse_user_host_errors)

lemma query_parse_framing:
  assumes "\<not> token_error e"
  shows "query_parse line = Inl e \<longleftrightarrow> validate_input line = Inl e"
proof (cases "validate_input line")
  case (Inl f)
  then show ?thesis by (simp add: query_parse_def)
qed (use assms query_parse_token_error in auto)

text \<open>
  the framing errors are reported exactly when they occur, whatever else is wrong with the
  line, and in this order: invalid UTF-8, a missing final CRLF, a forbidden control character
  before the final CRLF.
\<close>
lemma query_parse_framing_errors:
  "(query_parse line = Inl InvalidEncoding \<longleftrightarrow> (\<nexists>s. valid_str s \<and> line = as_bytes s)) \<and>
   (query_parse line = Inl MissingCrlf \<longleftrightarrow>
      (\<exists>s. valid_str s \<and> line = as_bytes s \<and> (\<nexists>t. s = t @ crlf))) \<and>
   (query_parse line = Inl ControlCharacter \<longleftrightarrow>
      (\<exists>s. valid_str s \<and> line = as_bytes (s @ crlf) \<and> list_ex control_char s))"
  by (simp add: query_parse_framing token_error_def validate_input_Inl_iff)

text \<open>
  A line that names no user is refused, so that the server never lists its users: after
  validation, the error is a missing username exactly when there is no token, only the /W
  flag, or a user token whose name part is empty.
\<close>
lemma query_parse_missing_username:
  assumes "validate_input line = Inr s"
  shows "query_parse line = Inl MissingUsername \<longleftrightarrow>
    (case split_whitespace s of
       [] \<Rightarrow> True
     | [t] \<Rightarrow> eq_ignore_ascii_case t (lit ''/W'') \<or> hd t = at_sign
     | [t, u] \<Rightarrow> eq_ignore_ascii_case t (lit ''/W'') \<and> hd u = at_sign
     | _ \<Rightarrow> False)"
proof -
  have words: "t \<in> set (split_whitespace s) \<Longrightarrow> t \<noteq> []" for t
    by (rule split_whitespace_tokens(1))
  have flag: "eq_ignore_ascii_case t (lit ''/W'') \<Longrightarrow> hd t \<noteq> at_sign" for t
    by (auto dest: flag_slash)
  show ?thesis
    using assms words flag
    by (auto simp: query_parse_def parse_verbose_flag_def and_then_Inl_iff ensure_valid_def
        parse_user_host_missing split: list.splits)
qed

theorem query_parse_missing_username_witness:
  "query_parse (as_bytes ([0x20, 0x20] @ crlf)) = Inl MissingUsername"
proof -
  have blank: "split_whitespace [0x20, 0x20] = []"
    by (rule split_whitespace_blank) (auto simp: is_whitespace_def)
  have "validate_input (as_bytes ([0x20, 0x20] @ crlf)) = Inr [0x20, 0x20]"
    by (subst validate_input_text) (simp_all add: is_scalar_def control_char_def)
  from query_parse_missing_username [OF this] blank show ?thesis by simp
qed

end
