(* ===== verification/Profile.thy ===== *)
theory Profile
  imports Framing Identity
begin

section \<open>User profiles and their rendering (src/user.rs)\<close>

text \<open>
  Two crates are parameters here.  \<open>toml_ops\<close> holds what the code calls of the \<open>toml\<close> crate:
  the parser, \<open>Value::as_table\<close> as the entries of the table in iteration order, and
  \<open>Value::as_str\<close>.  \<open>index_map_ops\<close> holds the operations of \<open>indexmap::IndexMap\<close>; the locale
  \<open>index_map\<close> states the documented behaviour the code relies on, namely that iteration
  follows insertion and that inserting an existing key replaces its value in place.  The
  lemmas of the locale are about the loop that fills the attributes; it is interpreted on
  association lists.
\<close>

subsection \<open>The crates the module uses\<close>

record ('v, 'e) toml_ops =
  toml_from_str :: "str \<Rightarrow> 'e + 'v"
  toml_as_table :: "'v \<Rightarrow> (str \<times> 'v) list option"
  toml_as_str :: "'v \<Rightarrow> str option"

record 'm index_map_ops =
  im_with_capacity :: "nat \<Rightarrow> 'm"
  im_insert :: "'m \<Rightarrow> str \<Rightarrow> str \<Rightarrow> 'm"
  im_iter :: "'m \<Rightarrow> (str \<times> str) list"

subsection \<open>Data\<close>

record 'm finger_profile =
  fp_username :: username
  fp_attributes :: 'm

datatype 'e profile_error =
    NotATable
  | NonStringValue str
  | UsernameMismatch
  | UsernameInvalid identity_error
  | MissingUsername
  | InvalidEncoding
  | Toml 'e

record response_body =
  body_lines :: "str list"

subsection \<open>Parsing\<close>

definition username_key :: str where
  "username_key = lit ''username''"

text \<open>The loop over the table, with the attributes and the declared username so far.\<close>

fun profile_fields ::
  "('v, 'e) toml_ops \<Rightarrow> 'm index_map_ops \<Rightarrow> (str \<times> 'v) list \<Rightarrow> 'm \<Rightarrow> str option \<Rightarrow>
   'e profile_error + 'm \<times> str option" where
  "profile_fields T IM [] attributes declared = Inr (attributes, declared)"
| "profile_fields T IM ((key, v) # table) attributes declared =
     (if key = username_key then
        and_then (ok_or (toml_as_str T v) (NonStringValue key)) (\<lambda>name.
          profile_fields T IM table attributes (Some name))
      else
        and_then (ok_or (toml_as_str T v) (NonStringValue key)) (\<lambda>entry.
          profile_fields T IM table (im_insert IM attributes key entry) declared))"

definition profile_parse ::
  "('v, 'e) toml_ops \<Rightarrow> 'm index_map_ops \<Rightarrow> username \<Rightarrow> bytes \<Rightarrow>
   'e profile_error + 'm finger_profile" where
  "profile_parse T IM username payload =
     and_then (ok_or (from_utf8 payload) InvalidEncoding) (\<lambda>text.
     and_then (map_err Toml (toml_from_str T text)) (\<lambda>document.
     and_then (ok_or (toml_as_table T document) NotATable) (\<lambda>table.
     and_then (profile_fields T IM table (im_with_capacity IM (length table)) None)
       (\<lambda>(attributes, declared_username).
     and_then (ok_or declared_username MissingUsername) (\<lambda>declared.
     and_then (map_err UsernameInvalid (username_parse declared)) (\<lambda>parsed.
       if parsed \<noteq> username then Inl UsernameMismatch
       else Inr \<lparr>fp_username = username, fp_attributes = attributes\<rparr>))))))"

subsection \<open>Rendering\<close>

fun normalise_key :: "str \<Rightarrow> str" where
  "normalise_key [] = []"
| "normalise_key (first # chars) =
     ascii_upper first # map (\<lambda>ch. if ch = underscore then 0x20 else ch) chars"

definition printable :: "rchar \<Rightarrow> bool" where
  "printable c \<longleftrightarrow> 0x20 \<le> c \<and> c \<le> 0x7E"

definition sanitise_line :: "str \<Rightarrow> str" where
  "sanitise_line input = filter printable input"

definition append_plan_lines :: "str list \<Rightarrow> str option \<Rightarrow> str list" where
  "append_plan_lines lines plan =
     (case plan of
        Some content \<Rightarrow>
          if trim content = [] then lines @ [lit ''(empty plan)'']
          else lines @ map sanitise_line (str_lines content)
      | None \<Rightarrow> lines @ [lit ''(no plan)''])"

definition render :: "'m index_map_ops \<Rightarrow> 'm finger_profile \<Rightarrow> bool \<Rightarrow> str option \<Rightarrow> response_body" where
  "render IM profile include_plan plan =
     (let lines0 = [lit ''User: '' @ username_str (fp_username profile)];
          lines1 = lines0 @ map (\<lambda>(key, v). normalise_key key @ lit '': '' @ sanitise_line v)
                              (im_iter IM (fp_attributes profile));
          lines2 = (if include_plan
                    then append_plan_lines (lines1 @ [[]] @ [lit ''Plan:'']) plan
                    else lines1)
      in \<lparr>body_lines = lines2 @ [[]] @ [lit ''Powered by fingermouse'']\<rparr>)"

definition response_as_bytes :: "response_body \<Rightarrow> bytes" where
  "response_as_bytes body =
     (let estimated = sum_list (map (\<lambda>line. str_len line + 2) (body_lines body))
      in into_bytes (foldl push_line (crlf_with_capacity estimated) (body_lines body)))"

definition display_response_body :: "response_body \<Rightarrow> str" where
  "display_response_body body = concat (map (\<lambda>line. line @ [LF]) (body_lines body))"

subsection \<open>The documented behaviour of the map\<close>

locale index_map =
  fixes IM :: "'m index_map_ops"
  assumes iter_new [simp]: "im_iter IM (im_with_capacity IM n) = []"
    and iter_insert [simp]: "im_iter IM (im_insert IM m k v) = AList.update k v (im_iter IM m)"
begin

lemma iter_insert_new:
  "k \<notin> fst ` set (im_iter IM m) \<Longrightarrow> im_iter IM (im_insert IM m k v) = im_iter IM m @ [(k, v)]"
proof -
  assume "k \<notin> fst ` set (im_iter IM m)"
  moreover have "k \<notin> fst ` set xs \<Longrightarrow> AList.update k v xs = xs @ [(k, v)]" for xs :: "(str \<times> str) list"
    by (induction xs) auto
  ultimately show ?thesis by simp
qed

end

definition assoc_index_map :: "(str \<times> str) list index_map_ops" where
  "assoc_index_map = \<lparr>im_with_capacity = \<lambda>n. [], im_insert = \<lambda>m k v. AList.update k v m, im_iter = id\<rparr>"

interpretation assoc_im: index_map assoc_index_map
  by unfold_locales (simp_all add: assoc_index_map_def)

subsection \<open>Parsing against its specification\<close>

definition string_of :: "('v, 'e) toml_ops \<Rightarrow> 'v \<Rightarrow> str" where
  "string_of T v = (case toml_as_str T v of Some s \<Rightarrow> s | None \<Rightarrow> [])"

text \<open>The attributes of a table: its string fields other than the username, in order.\<close>

definition attributes_of :: "('v, 'e) toml_ops \<Rightarrow> (str \<times> 'v) list \<Rightarrow> (str \<times> str) list" where
  "attributes_of T table =
     map (\<lambda>(k, v). (k, string_of T v)) (filter (\<lambda>(k, v). k \<noteq> username_key) table)"

definition profile_spec ::
  "('v, 'e) toml_ops \<Rightarrow> username \<Rightarrow> (str \<times> 'v) list \<Rightarrow>
   'e profile_error + username \<times> (str \<times> str) list" where
  "profile_spec T username table =
     (case find (\<lambda>(k, v). toml_as_str T v = None) table of
        Some (k, v) \<Rightarrow> Inl (NonStringValue k)
      | None \<Rightarrow>
          (case map_of table username_key of
             None \<Rightarrow> Inl MissingUsername
           | Some v \<Rightarrow>
               (case username_parse (string_of T v) of
                  Inl e \<Rightarrow> Inl (UsernameInvalid e)
                | Inr n \<Rightarrow> if n \<noteq> username then Inl UsernameMismatch
                          else Inr (username, attributes_of T table))))"

definition profile_view :: "'m index_map_ops \<Rightarrow> 'm finger_profile \<Rightarrow> username \<times> (str \<times> str) list" where
  "profile_view IM p = (fp_username p, im_iter IM (fp_attributes p))"

definition insert_all :: "'m index_map_ops \<Rightarrow> (str \<times> str) list \<Rightarrow> 'm \<Rightarrow> 'm" where
  "insert_all IM kvs m = foldl (\<lambda>m (k, v). im_insert IM m k v) m kvs"

context index_map
begin

lemma iter_insert_all:
  "distinct (map fst kvs) \<Longrightarrow> fst ` set kvs \<inter> fst ` set (im_iter IM m) = {} \<Longrightarrow>
   im_iter IM (insert_all IM kvs m) = im_iter IM m @ kvs"
proof (induction kvs arbitrary: m)
  case (Cons kv kvs)
  obtain k v where kv: "kv = (k, v)" by (cases kv)
  have new: "im_iter IM (im_insert IM m k v) = im_iter IM m @ [(k, v)]"
    by (rule iter_insert_new) (use Cons.prems(2) kv in auto)
  have "im_iter IM (insert_all IM kvs (im_insert IM m k v)) = im_iter IM (im_insert IM m k v) @ kvs"
    by (rule Cons.IH) (use Cons.prems kv new in \<open>auto simp del: iter_insert\<close>)
  then show ?case by (simp add: insert_all_def kv new del: iter_insert)
qed (simp add: insert_all_def)

lemma fields_spec:
  "profile_fields T IM table m d =
     (case find (\<lambda>(k, v). toml_as_str T v = None) table of
        Some (k, v) \<Rightarrow> Inl (NonStringValue k)
      | None \<Rightarrow> Inr (insert_all IM (attributes_of T table) m,
          case map_of (rev table) username_key of None \<Rightarrow> d | Some v \<Rightarrow> Some (string_of T v)))"
proof (induction table arbitrary: m d)
  case (Cons kv table)
  obtain k v where "kv = (k, v)" by (cases kv)
  then show ?case using Cons.IH
    by (cases "toml_as_str T v")
      (auto simp: attributes_of_def insert_all_def string_of_def map_add_def split: option.splits)
qed (simp add: insert_all_def attributes_of_def)

lemma parse_spec:
  assumes "from_utf8 payload = Some contents" "toml_from_str T contents = Inr doc"
    and "toml_as_table T doc = Some table" "distinct (map fst table)"
  shows "(case profile_parse T IM u payload of Inl e \<Rightarrow> Inl e | Inr p \<Rightarrow> Inr (profile_view IM p)) =
    profile_spec T u table"
proof -
  have rev: "map_of (rev table) = map_of table" using assms(4) by (subst map_of_inject_set) (simp_all flip: rev_map)
  have "distinct (map fst (attributes_of T table))"
    using assms(4) by (auto simp: attributes_of_def distinct_map inj_on_def distinct_filter split_def)
  then have iter: "im_iter IM (insert_all IM (attributes_of T table) (im_with_capacity IM n)) = attributes_of T table" for n
    by (simp add: iter_insert_all)
  show ?thesis
    by (cases "find (\<lambda>(k, v). toml_as_str T v = None) table")
      (auto simp: profile_parse_def assms(1-3) fields_spec profile_spec_def rev profile_view_def iter
        and_then_def map_err_def split: option.splits sum.splits)
qed

end

text \<open>
  C12: \<open>FingerProfile::parse\<close> refines a declarative specification over the parsed table.  The
  first field that is not a string is reported with its key, before anything about the
  username; then a missing, an invalid and a mismatched username are told apart; otherwise
  the profile holds the requested username and every other field of the table, with its
  value, in the table's order.
\<close>
theorem profile_parse_refines:
  assumes "index_map IM" and "from_utf8 payload = Some contents" and "toml_from_str T contents = Inr doc"
    and "toml_as_table T doc = Some table" and "distinct (map fst table)"
  shows "(case profile_parse T IM u payload of Inl e \<Rightarrow> Inl e | Inr p \<Rightarrow> Inr (profile_view IM p)) =
    profile_spec T u table"
  using assms by (rule index_map.parse_spec)

text \<open>A parser of one-line documents, for examples: every text is the same table.\<close>

definition const_toml :: "(str \<times> str option) list \<Rightarrow> ((str \<times> str option) list + str option, unit) toml_ops" where
  "const_toml table =
     \<lparr>toml_from_str = \<lambda>_. Inr (Inl table),
      toml_as_table = \<lambda>v. (case v of Inl t \<Rightarrow> Some (map (\<lambda>(k, s). (k, Inr s)) t) | Inr _ \<Rightarrow> None),
      toml_as_str = \<lambda>v. (case v of Inl _ \<Rightarrow> None | Inr s \<Rightarrow> s)\<rparr>"

definition sample_table :: "(str \<times> str option) list" where
  "sample_table = [(lit ''email'', Some (lit ''a@b'')), (username_key, Some (lit '' Alice''))]"


lemma sample_name: "username_parse (lit '' Alice'') = Inr (Username (lit ''alice''))"
  by (simp add: text_eval)

theorem profile_parse_refines_witness:
  "(case profile_parse (const_toml sample_table) assoc_index_map (Username (lit ''alice'')) [] of
      Inl e \<Rightarrow> Inl e | Inr p \<Rightarrow> Inr (profile_view assoc_index_map p)) =
   Inr (Username (lit ''alice''), [(lit ''email'', lit ''a@b'')])"
proof -
  let ?T = "const_toml sample_table"
  let ?table = "map (\<lambda>(k, s). (k, Inr s)) sample_table :: (str \<times> ((str \<times> str option) list + str option)) list"
  have "distinct (map fst ?table)" by (simp add: sample_table_def username_key_def lit_def)
  moreover have "profile_spec ?T (Username (lit ''alice'')) ?table =
      Inr (Username (lit ''alice''), [(lit ''email'', lit ''a@b'')])"
    by (simp add: profile_spec_def const_toml_def sample_table_def attributes_of_def string_of_def sample_name username_key_def) (simp add: lit_def)
  ultimately show ?thesis
    by (subst profile_parse_refines [OF assoc_im.index_map_axioms, where contents = "[]" and T = ?T
          and doc = "Inl sample_table" and table = ?table]) (simp_all add: const_toml_def)
qed

subsection \<open>The rendered response\<close>

lemma printable_props:
  assumes "printable c"
  shows "is_scalar c" and "is_ascii c" and "c \<noteq> LF" and "\<not> line_ending c"
  using assms by (auto simp: printable_def is_scalar_def is_ascii_def line_ending_def)

definition printable_line :: "str \<Rightarrow> bool" where
  "printable_line l \<longleftrightarrow> list_all printable l"

lemma printable_line_simps [simp]:
  "printable_line []"
  "printable_line (c # l) \<longleftrightarrow> printable c \<and> printable_line l"
  "printable_line (l @ l') \<longleftrightarrow> printable_line l \<and> printable_line l'"
  by (simp_all add: printable_line_def)

lemma sanitise_line_printable [simp]: "printable_line (sanitise_line l)"
  by (simp add: sanitise_line_def printable_line_def list_all_iff)

lemma sanitise_line_id: "sanitise_line l = l \<longleftrightarrow> printable_line l"
  by (simp add: sanitise_line_def printable_line_def filter_id_conv list_all_iff)

lemma normalise_key_printable: "printable_line k \<Longrightarrow> printable_line (normalise_key k)"
  by (cases k) (auto simp: printable_line_def list_all_iff printable_def ascii_upper_def is_lower_def)

lemma lit_printable:
  "printable_line (lit ''User: '')" "printable_line (lit '': '')" "printable_line (lit ''Plan:'')"
  "printable_line (lit ''(empty plan)'')" "printable_line (lit ''(no plan)'')"
  "printable_line (lit ''Powered by fingermouse'')"
  by (simp_all add: lit_def printable_def)

lemma username_printable: "username_wf u \<Longrightarrow> printable_line (username_str u)"
  by (auto simp: printable_line_def list_all_iff username_wf_def name_char_def char_class_defs printable_def)

lemma plan_lines_printable:
  "list_all printable_line lines \<Longrightarrow> list_all printable_line (append_plan_lines lines plan)"
  by (auto simp: append_plan_lines_def lit_printable list_all_iff split: option.split)

lemma render_printable:
  assumes "username_wf (fp_username p)"
    and "\<And>k v. (k, v) \<in> set (im_iter IM (fp_attributes p)) \<Longrightarrow> printable_line k"
  shows "list_all printable_line (body_lines (render IM p include_plan plan))"
proof -
  let ?attrs = "map (\<lambda>(key, v). normalise_key key @ lit '': '' @ sanitise_line v) (im_iter IM (fp_attributes p))"
  have "list_all printable_line ?attrs"
    using assms(2) by (auto simp: list_all_iff lit_printable normalise_key_printable)
  then have "list_all printable_line ([lit ''User: '' @ username_str (fp_username p)] @ ?attrs)"
    using assms(1) by (simp add: lit_printable username_printable)
  then show ?thesis
    by (simp add: render_def Let_def lit_printable plan_lines_printable)
qed

lemma response_bytes_framed: "response_as_bytes body = as_bytes (framed (body_lines body))"
  by (simp add: response_as_bytes_def Let_def into_bytes_def push_lines_bytes crlf_with_capacity_def)

lemma printable_line_framing:
  assumes "printable_line l"
  shows "trim_line_endings l = l" and "valid_str l" and "LF \<notin> set l"
proof -
  have c: "printable c" if "c \<in> set l" for c
    using assms that by (auto simp: printable_line_def list_all_iff)
  show "trim_line_endings l = l"
    by (rule trim_line_endings_id) (use c last_in_set printable_props(4) in blast)
  show "valid_str l" "LF \<notin> set l" using c printable_props by (auto simp: valid_str_def)
qed

lemma framed_printable:
  assumes "list_all printable_line lines"
  shows "from_utf8 (as_bytes (framed lines)) = Some (framed lines)"
    and "str_lines (framed lines) = lines"
proof -
  note l = printable_line_framing [OF assms [unfolded list_all_iff, rule_format]]
  show "from_utf8 (as_bytes (framed lines)) = Some (framed lines)"
    by (rule from_utf8_as_bytes, rule valid_framed) (rule l)
  have "str_lines (framed lines) = map trim_line_endings lines" by (rule str_lines_framed) (rule l)
  also have "\<dots> = lines" by (rule map_idI) (rule l)
  finally show "str_lines (framed lines) = lines" .
qed

text \<open>
  C9: when the keys of a profile are printable, its response consists of printable ASCII
  lines, whatever the values and the plan contain, and the client that decodes the bytes and
  splits them at line ends reads exactly the lines that \<open>render\<close> produced: nothing in a value
  or a plan can add, drop or break a line.
\<close>
theorem render_response_roundtrip:
  assumes "username_wf (fp_username p)"
    and "\<forall>(k, v) \<in> set (im_iter IM (fp_attributes p)). printable_line k"
  shows "list_all printable_line (body_lines (render IM p include_plan plan)) \<and>
    map_option str_lines (from_utf8 (response_as_bytes (render IM p include_plan plan))) =
      Some (body_lines (render IM p include_plan plan))"
proof -
  have "list_all printable_line (body_lines (render IM p include_plan plan))"
    using assms by (intro render_printable) auto
  then show ?thesis by (simp add: response_bytes_framed framed_printable)
qed

definition sample_profile :: "(str \<times> str) list finger_profile" where
  "sample_profile = \<lparr>fp_username = Username (lit ''alice''),
     fp_attributes = [(lit ''full_name'', lit ''Alice'' @ [27, CR, LF] @ lit ''Smith'')]\<rparr>"

theorem render_response_roundtrip_witness:
  "map_option str_lines (from_utf8 (response_as_bytes
      (render assoc_index_map sample_profile True (Some [7, LF, 0x41])))) =
    Some [lit ''User: alice'', lit ''Full name: AliceSmith'', [], lit ''Plan:'', [], [0x41], [],
      lit ''Powered by fingermouse'']"
proof -
  have wf: "username_wf (fp_username sample_profile)"
    and keys: "\<forall>(k, v) \<in> set (im_iter assoc_index_map (fp_attributes sample_profile)). printable_line k"
    and body: "body_lines (render assoc_index_map sample_profile True (Some [7, LF, 0x41])) =
      [lit ''User: alice'', lit ''Full name: AliceSmith'', [], lit ''Plan:'', [], [0x41], [],
       lit ''Powered by fingermouse'']"
    by (simp_all add: sample_profile_def username_wf_def text_eval name_char_def assoc_index_map_def
        printable_def render_def append_plan_lines_def str_lines_def strip_cr_def strip_suffix_def
        sanitise_line_def)
  show ?thesis using render_response_roundtrip [OF wf keys, of True "Some [7, LF, 0x41]"] body by simp
qed

text \<open>
  The plan is disclosed only on request and never raw: without the flag the response does
  not depend on the plan; with it, what follows the attributes is the heading and then, for a
  missing plan, for a blank one, and for any other, the fixed texts or the sanitised lines.
\<close>
lemma render_plan_section:
  "render IM p False plan = render IM p False None \<and>
   body_lines (render IM p True plan) =
     butlast (butlast (body_lines (render IM p False None))) @ [[], lit ''Plan:''] @
     (case plan of
        None \<Rightarrow> [lit ''(no plan)'']
      | Some content \<Rightarrow>
          if list_all is_whitespace content then [lit ''(empty plan)'']
          else map (filter printable) (str_lines content)) @
     [[], lit ''Powered by fingermouse'']"
  by (simp add: render_def Let_def append_plan_lines_def trim_def trim_matches_Nil_iff list_all_iff
      sanitise_line_def [abs_def] butlast_append split: option.split)

text \<open>
  C36: keys are not sanitised.  A profile field whose key contains CRLF puts a line of its own
  into the response: for every line \<open>t\<close>, the client reads the lines of the response as if the
  profile had an additional line \<open>t\<close> (with the value appended).
\<close>
theorem render_key_injection:
  assumes "username_wf u" and "printable_line t" and "underscore \<notin> set t" and "t \<noteq> []"
  shows "str_lines (framed (body_lines (render assoc_index_map
      \<lparr>fp_username = u, fp_attributes = [(lit ''note'' @ crlf @ t, v)]\<rparr> False None))) =
    [lit ''User: '' @ username_str u, lit ''Note'', t @ lit '': '' @ sanitise_line v, [],
     lit ''Powered by fingermouse'']"
proof -
  let ?p = "\<lparr>fp_username = u, fp_attributes = [(lit ''note'' @ crlf @ t, v)]\<rparr>"
  let ?lines = "[lit ''User: '' @ username_str u, lit ''Note'', t @ lit '': '' @ sanitise_line v, [],
     lit ''Powered by fingermouse'']"
  have t: "map (\<lambda>ch. if ch = underscore then 0x20 else ch) t = t"
    using assms(3) by (intro map_idI) auto
  have note_ok: "printable_line (lit ''Note'')" by (simp add: lit_def printable_def)
  have p: "list_all printable_line ?lines"
    using assms(1,2) by (simp add: lit_printable username_printable note_ok)
  have key: "normalise_key (lit ''note'' @ crlf @ t) = lit ''Note'' @ crlf @ t"
    using t by (simp add: lit_def crlf_def ascii_upper_def is_lower_def)
  have "trim_line_endings (lit ''Note'' @ crlf @ t @ lit '': '' @ sanitise_line v) =
      lit ''Note'' @ crlf @ t @ lit '': '' @ sanitise_line v"
  proof (rule trim_line_endings_id)
    have y: "printable_line (t @ lit '': '' @ sanitise_line v)" using assms(2) by (simp add: lit_printable)
    have "last (t @ lit '': '' @ sanitise_line v) \<in> set (t @ lit '': '' @ sanitise_line v)"
      using assms(4) by (intro last_in_set) simp
    with y have "\<not> line_ending (last (t @ lit '': '' @ sanitise_line v))"
      by (auto simp: printable_line_def list_all_iff dest: printable_props(4))
    with assms(4) show "lit ''Note'' @ crlf @ t @ lit '': '' @ sanitise_line v = [] \<or>
        \<not> line_ending (last (lit ''Note'' @ crlf @ t @ lit '': '' @ sanitise_line v))"
      by (simp add: last_append)
  qed
  then have "framed (body_lines (render assoc_index_map ?p False None)) = framed ?lines"
    using p by (simp add: render_def assoc_index_map_def key printable_line_framing)
  then show ?thesis using framed_printable(2) [OF p] by simp
qed

theorem render_key_injection_witness:
  "str_lines (framed (body_lines (render assoc_index_map
      \<lparr>fp_username = Username (lit ''alice''),
       fp_attributes = [(lit ''note'' @ crlf @ lit ''User: root'', [])]\<rparr> False None))) =
    [lit ''User: alice'', lit ''Note'', lit ''User: root: '', [], lit ''Powered by fingermouse'']"
proof -
  have "username_wf (Username (lit ''alice''))" "printable_line (lit ''User: root'')"
    "underscore \<notin> set (lit ''User: root'')" "lit ''User: root'' \<noteq> []"
    by (simp_all add: username_wf_def name_char_def text_eval printable_def)
  from render_key_injection [OF this, of "[]"] show ?thesis
    by (simp add: lit_def sanitise_line_def)
qed

end
