(* ===== verification/Storage.thy ===== *)
theory Storage
  imports Profile
begin

section \<open>The user repository (src/storage.rs)\<close>

text \<open>
  \<open>ObjectStoreUserStore\<close> over an object store.  The \<open>object_store\<close> crate is a parameter:
  \<open>object_store_ops\<close> holds \<open>Path::from\<close>, \<open>ObjectStore::get\<close>, \<open>GetResult::bytes\<close> and the test for
  the error \<open>NotFound\<close>.  The trait \<open>UserStore\<close> is the locale \<open>user_store\<close>, whose laws are what
  the server relies on; it is interpreted on \<open>load_user\<close> for every store, prefix and parser.
  One call of \<open>load_user\<close> reads each object at most once, so the store is a function here.
\<close>

subsection \<open>Data\<close>

record ('p, 'r, 'e) object_store_ops =
  os_path_from :: "str \<Rightarrow> 'p"
  os_get :: "'p \<Rightarrow> 'e + 'r"
  os_bytes :: "'r \<Rightarrow> 'e + bytes"
  os_is_not_found :: "'e \<Rightarrow> bool"

datatype ('t, 'e) repository_error =
    NotFound
  | Parse "'t profile_error"
  | InvalidPlanEncoding
  | Storage 'e

record 'm user_record =
  ur_profile :: "'m finger_profile"
  ur_plan :: "str option"

record ('p, 'r, 'e) object_store_user_store =
  st_store :: "('p, 'r, 'e) object_store_ops"
  st_profile_prefix :: str
  st_plan_prefix :: str

subsection \<open>Operations\<close>

abbreviation solidus :: rchar where "solidus \<equiv> 47"

definition trim_slashes :: "str \<Rightarrow> str" where
  "trim_slashes input = trim_matches (\<lambda>c. c = solidus) input"

definition user_store_new ::
  "('p, 'r, 'e) object_store_ops \<Rightarrow> str \<Rightarrow> str \<Rightarrow> ('p, 'r, 'e) object_store_user_store" where
  "user_store_new store profile_prefix plan_prefix =
     \<lparr>st_store = store, st_profile_prefix = trim_slashes profile_prefix,
      st_plan_prefix = trim_slashes plan_prefix\<rparr>"

text \<open>The text handed to \<open>Path::from\<close> by \<open>join\<close>.\<close>

definition join_text :: "str \<Rightarrow> str \<Rightarrow> str" where
  "join_text prefix file = (if prefix = [] then file else prefix @ [solidus] @ file)"

definition join_path :: "('p, 'r, 'e) object_store_user_store \<Rightarrow> str \<Rightarrow> str \<Rightarrow> 'p" where
  "join_path S prefix file = os_path_from (st_store S) (join_text prefix file)"

definition profile_file :: "username \<Rightarrow> str" where
  "profile_file u = username_str u @ lit ''.toml''"

definition plan_file :: "username \<Rightarrow> str" where
  "plan_file u = username_str u @ lit ''.plan''"

definition profile_path :: "('p, 'r, 'e) object_store_user_store \<Rightarrow> username \<Rightarrow> 'p" where
  "profile_path S u = join_path S (st_profile_prefix S) (profile_file u)"

definition plan_path :: "('p, 'r, 'e) object_store_user_store \<Rightarrow> username \<Rightarrow> 'p" where
  "plan_path S u = join_path S (st_plan_prefix S) (plan_file u)"

definition fetch_bytes :: "('p, 'r, 'e) object_store_user_store \<Rightarrow> 'p \<Rightarrow> 'e + bytes" where
  "fetch_bytes S path = and_then (os_get (st_store S) path) (os_bytes (st_store S))"

definition load_plan_if_requested ::
  "('p, 'r, 'e) object_store_user_store \<Rightarrow> username \<Rightarrow> bool \<Rightarrow>
   ('t, 'e) repository_error + str option" where
  "load_plan_if_requested S u include_plan =
     (if \<not> include_plan then Inr None
      else case fetch_bytes S (plan_path S u) of
        Inr content \<Rightarrow> and_then (ok_or (from_utf8 content) InvalidPlanEncoding) (\<lambda>plan. Inr (Some plan))
      | Inl e \<Rightarrow> if os_is_not_found (st_store S) e then Inr None else Inl (Storage e))"

definition load_user ::
  "('v, 't) toml_ops \<Rightarrow> 'm index_map_ops \<Rightarrow> ('p, 'r, 'e) object_store_user_store \<Rightarrow>
   username \<Rightarrow> bool \<Rightarrow> ('t, 'e) repository_error + 'm user_record" where
  "load_user T IM S u include_plan =
     and_then
       (case fetch_bytes S (profile_path S u) of
          Inr payload \<Rightarrow> Inr payload
        | Inl e \<Rightarrow> if os_is_not_found (st_store S) e then Inl NotFound else Inl (Storage e))
       (\<lambda>payload.
     and_then (map_err Parse (profile_parse T IM u payload)) (\<lambda>profile.
     and_then (load_plan_if_requested S u include_plan) (\<lambda>plan.
       Inr \<lparr>ur_profile = profile, ur_plan = plan\<rparr>)))"

subsection \<open>The trait UserStore\<close>

locale user_store =
  fixes load :: "username \<Rightarrow> bool \<Rightarrow> ('t, 'e) repository_error + 'm user_record"
  assumes load_owner: "load u ip = Inr r \<Longrightarrow> fp_username (ur_profile r) = u"
    and load_plan_text: "load u ip = Inr r \<Longrightarrow> ur_plan r = Some content \<Longrightarrow> ip \<and> valid_str content"
    and load_without_plan: "load u True = Inr r \<Longrightarrow> load u False = Inr (r\<lparr>ur_plan := None\<rparr>)"
    and load_not_found: "load u True = Inl NotFound \<longleftrightarrow> load u False = Inl NotFound"
begin

lemma load_no_plan: "load u False = Inr r \<Longrightarrow> ur_plan r = None"
  using load_plan_text by (cases "ur_plan r") auto

lemma load_profile_known: "load u ip = Inr r \<Longrightarrow> load u False = Inr (r\<lparr>ur_plan := None\<rparr>)"
  using load_without_plan load_no_plan by (cases ip) fastforce+

end

subsection \<open>The repository is a user store\<close>

lemma profile_parse_owner: "profile_parse T IM u payload = Inr p \<Longrightarrow> fp_username p = u"
  by (auto simp: profile_parse_def and_then_Inr_iff split: if_splits)

lemma load_plan_cases:
  "load_plan_if_requested S u ip = Inr plan \<Longrightarrow>
     plan = None \<or> (\<exists>content. ip \<and> plan = Some content \<and> valid_str content)"
  by (auto simp: load_plan_if_requested_def result_iff from_utf8_iff split: if_splits sum.splits)

lemma load_plan_not_found: "load_plan_if_requested S u ip \<noteq> Inl NotFound"
  by (auto simp: load_plan_if_requested_def result_iff split: sum.split)

lemma load_plan_False [simp]: "load_plan_if_requested S u False = Inr None"
  by (simp add: load_plan_if_requested_def)

lemma load_user_Inr_iff:
  "load_user T IM S u ip = (Inr r :: ('t, 'e) repository_error + _) \<longleftrightarrow>
     (\<exists>payload. fetch_bytes S (profile_path S u) = Inr payload \<and>
        profile_parse T IM u payload = Inr (ur_profile r) \<and>
        load_plan_if_requested S u ip = (Inr (ur_plan r) :: ('t, 'e) repository_error + _))"
  by (cases r) (auto simp: load_user_def result_iff split: sum.splits if_splits)

lemma load_user_not_found_iff:
  "load_user T IM S u ip = Inl NotFound \<longleftrightarrow>
     (\<exists>e. fetch_bytes S (profile_path S u) = Inl e \<and> os_is_not_found (st_store S) e)"
  using load_plan_not_found
  by (auto simp: load_user_def result_iff split: sum.splits if_splits)

interpretation object_store: user_store "load_user T IM S" for T IM S
proof
  fix u ip r content
  show "load_user T IM S u ip = Inr r \<Longrightarrow> fp_username (ur_profile r) = u"
    by (auto simp: load_user_Inr_iff dest: profile_parse_owner)
  show "load_user T IM S u ip = Inr r \<Longrightarrow> ur_plan r = Some content \<Longrightarrow> ip \<and> valid_str content"
    by (auto simp: load_user_Inr_iff dest: load_plan_cases)
  show "load_user T IM S u True = Inr r \<Longrightarrow> load_user T IM S u False = Inr (r\<lparr>ur_plan := None\<rparr>)"
    by (auto simp: load_user_Inr_iff)
  show "load_user T IM S u True = Inl NotFound \<longleftrightarrow> load_user T IM S u False = Inl NotFound"
    by (simp add: load_user_not_found_iff)
qed

subsection \<open>Object paths\<close>

lemma user_file_no_slash:
  assumes "username_wf u"
  shows "solidus \<notin> set (profile_file u)" and "solidus \<notin> set (plan_file u)"
  using username_wf_chars(2) [OF assms, of solidus]
  by (auto simp: profile_file_def plan_file_def lit_def username_char_def char_class_defs)

lemma split_join_text:
  "solidus \<notin> set file \<Longrightarrow> split_on (\<lambda>c. c = solidus) (join_text prefix file) =
     (if prefix = [] then [] else split_on (\<lambda>c. c = solidus) prefix) @ [file]"
proof -
  assume "solidus \<notin> set file"
  then have "split_on (\<lambda>c. c = solidus) file = [file]" by (intro split_on_none) auto
  then show ?thesis by (simp add: join_text_def split_on_append)
qed

text \<open>
  A request cannot leave its directory: for a well-formed username, the text handed to
  \<open>Path::from\<close> has the segments of the configured prefix and then exactly one more, the file
  of that user, which is not a dot segment and does not start with a dot.
\<close>
lemma user_paths_confined:
  assumes "username_wf u" and "file = profile_file u \<or> file = plan_file u"
  shows "split_on (\<lambda>c. c = solidus) (join_text prefix file) =
      (if prefix = [] then [] else split_on (\<lambda>c. c = solidus) prefix) @ [file] \<and>
    file \<notin> {[], [dot], [dot, dot]} \<and> hd file \<noteq> dot"
proof -
  have u: "username_str u \<noteq> []" using assms(1) by (simp add: username_wf_def)
  then have "hd (username_str u) \<noteq> dot"
    using username_wf_chars(1) [OF assms(1), of "hd (username_str u)"]
    by (auto simp: name_char_def char_class_defs)
  with u have "file \<noteq> [] \<and> hd file \<noteq> dot"
    using assms(2) by (auto simp: profile_file_def plan_file_def)
  moreover have "solidus \<notin> set file" using assms(2) user_file_no_slash [OF assms(1)] by auto
  ultimately show ?thesis by (auto simp: split_join_text)
qed

text \<open>
  No two users share an object: under any prefix, equal profile (or plan) texts come from
  equal usernames, and a profile text is never a plan text of the same prefix.
\<close>
lemma user_paths_distinct:
  "(join_text prefix (profile_file u) = join_text prefix (profile_file v) \<longleftrightarrow> u = v) \<and>
   (join_text prefix (plan_file u) = join_text prefix (plan_file v) \<longleftrightarrow> u = v) \<and>
   join_text prefix (profile_file u) \<noteq> join_text prefix (plan_file v)"
proof -
  have "profile_file u \<noteq> plan_file v"
  proof
    assume "profile_file u = plan_file v"
    then have "last (profile_file u) = last (plan_file v)" by simp
    then show False by (simp add: profile_file_def plan_file_def lit_def)
  qed
  then show ?thesis
    by (auto simp: join_text_def profile_file_def plan_file_def username.expand)
qed

subsection \<open>What a load reads and when it fails\<close>

text \<open>
  C22: a user is reported unknown exactly when the profile object is missing.  A missing plan
  is never an error; any other backend error, on the profile or (once the profile has parsed
  and the plan is requested) on the plan, is passed on as a storage error.
\<close>
theorem load_user_failures:
  "(load_user T IM S u ip = Inl NotFound \<longleftrightarrow>
      (\<exists>e. fetch_bytes S (profile_path S u) = Inl e \<and> os_is_not_found (st_store S) e)) \<and>
   (load_user T IM S u ip = Inl (Storage e) \<longleftrightarrow>
      \<not> os_is_not_found (st_store S) e \<and>
      (fetch_bytes S (profile_path S u) = Inl e \<or>
       (\<exists>payload p. fetch_bytes S (profile_path S u) = Inr payload \<and>
          profile_parse T IM u payload = Inr p \<and> ip \<and> fetch_bytes S (plan_path S u) = Inl e)))"
proof
  show "load_user T IM S u ip = Inl NotFound \<longleftrightarrow>
      (\<exists>e. fetch_bytes S (profile_path S u) = Inl e \<and> os_is_not_found (st_store S) e)"
    by (rule load_user_not_found_iff)
qed (auto simp: load_user_def load_plan_if_requested_def result_iff split: sum.splits if_splits)

text \<open>
  Loading a user reads the profile object of that user and, only when the plan is
  requested, the plan object of that user: a store that agrees on these gives the same result,
  whatever else it holds.
\<close>
lemma load_user_footprint:
  fixes S :: "('p, 'r, 'e) object_store_user_store" and T :: "('v, 't) toml_ops"
  assumes "get' (profile_path S u) = os_get (st_store S) (profile_path S u)"
    and "include_plan \<Longrightarrow> get' (plan_path S u) = os_get (st_store S) (plan_path S u)"
  shows "load_user T IM (S\<lparr>st_store := (st_store S)\<lparr>os_get := get'\<rparr>\<rparr>) u include_plan =
    load_user T IM S u include_plan"
proof -
  let ?S' = "S\<lparr>st_store := (st_store S)\<lparr>os_get := get'\<rparr>\<rparr>"
  have paths: "profile_path ?S' u = profile_path S u" "plan_path ?S' u = plan_path S u"
    by (simp_all add: profile_path_def plan_path_def join_path_def)
  have "fetch_bytes ?S' (profile_path S u) = fetch_bytes S (profile_path S u)"
    using assms(1) by (simp add: fetch_bytes_def)
  moreover have "load_plan_if_requested ?S' u include_plan =
      (load_plan_if_requested S u include_plan :: ('t, 'e) repository_error + str option)"
    using assms(2)
    by (simp add: load_plan_if_requested_def paths fetch_bytes_def split: sum.split)
  ultimately show ?thesis by (simp add: load_user_def paths split: sum.split)
qed

text \<open>A store over association lists of paths and contents, for examples.\<close>

definition sample_store :: "(str \<times> bytes) list \<Rightarrow> (str, bytes, unit) object_store_ops" where
  "sample_store objects =
     \<lparr>os_path_from = id,
      os_get = \<lambda>p. (case map_of objects p of None \<Rightarrow> Inl () | Some b \<Rightarrow> Inr b),
      os_bytes = Inr, os_is_not_found = \<lambda>_. True\<rparr>"

theorem load_user_footprint_witness:
  "load_user (const_toml sample_table) assoc_index_map
     (user_store_new (sample_store []) [] []) (Username (lit ''alice'')) False =
   load_user (const_toml sample_table) assoc_index_map
     (user_store_new (sample_store [(lit ''bob.toml'', []), (lit ''alice.plan'', [])]) [] [])
     (Username (lit ''alice'')) False"
  using load_user_footprint [where S = "user_store_new (sample_store [(lit ''bob.toml'', []), (lit ''alice.plan'', [])]) [] []"
      and get' = "os_get (sample_store [])" and u = "Username (lit ''alice'')"
      and include_plan = False and T = "const_toml sample_table" and IM = assoc_index_map]
  by (simp add: user_store_new_def sample_store_def profile_path_def join_path_def join_text_def
      profile_file_def lit_def trim_slashes_def trim_matches_def trim_end_matches_def)

end
