(* ===== verification/Server.thy ===== *)
theory Server
  imports Config Query Storage
begin

section \<open>Serving a connection (src/server.rs)\<close>

text \<open>
  \<open>ConnectionHandler\<close>: rate limit, read, parse, respond.  The socket with its time-outs is the
  parameter \<open>socket_ops\<close>: what a timed \<open>read_until\<close> below a limit brings, and how a timed
  \<open>write_all\<close> ends.  Each step yields its result together with the actions it took, so that
  what reaches the store and the peer is part of the model; the repository is a function
  \<open>load\<close>, and the lemmas about it are proved under the laws of the locale \<open>user_store\<close>.  Log
  messages are left out, and dropping the stream after an error is not an action.
\<close>

subsection \<open>Messages\<close>

definition generic_error :: str where "generic_error = lit ''fingermouse: request refused''"

definition host_mismatch :: str where "host_mismatch = lit ''fingermouse: host not served here''"

definition rate_limit_message :: str where "rate_limit_message = lit ''fingermouse: slow down''"

definition user_missing :: str where "user_missing = lit ''fingermouse: no matching record''"

definition render_message :: "str \<Rightarrow> bytes" where
  "render_message message =
     (let buffer = crlf_with_capacity (str_len message + 2)
      in into_bytes (push_line buffer message))"

subsection \<open>Sockets and actions\<close>

datatype 'e cause = Elapsed | Io 'e

text \<open>
  The ways a timed \<open>read_until\<close> ends: out of time, with an error, or with the number of bytes
  read and the buffer; and those of a timed \<open>write_all\<close>.
\<close>

datatype 'e read_outcome = Read_timeout | Read_failed 'e | Read_done nat bytes

datatype 'e write_outcome = Write_timeout | Write_failed 'e | Write_done

record 'e socket_ops =
  sk_read_until :: "nat \<Rightarrow> u8 \<Rightarrow> std_duration \<Rightarrow> 'e read_outcome"
  sk_write_all :: "bytes \<Rightarrow> std_duration \<Rightarrow> 'e write_outcome"

datatype action = Load username bool | Write bytes | Shutdown

text \<open>A step that may fail, with what it did before.\<close>

type_synonym ('e, 'a) io = "('e cause anyhow + 'a) \<times> action list"

definition io_bind :: "('e, 'a) io \<Rightarrow> ('a \<Rightarrow> ('e, 'b) io) \<Rightarrow> ('e, 'b) io" where
  "io_bind m f =
     (case m of
        (Inl e, acts) \<Rightarrow> (Inl e, acts)
      | (Inr x, acts) \<Rightarrow> let (r, more) = f x in (r, acts @ more))"

record ('s, 'm, 't, 'e) handler =
  h_index :: "'s index_set_ops"
  h_maps :: "'m index_map_ops"
  h_config :: "'s server_config"
  h_load :: "username \<Rightarrow> bool \<Rightarrow> ('t, 'e) repository_error + 'm user_record"

subsection \<open>The steps of a connection\<close>

text \<open>The tail that \<open>write_response\<close> and \<open>respond_to_query\<close> share: a timed write.\<close>

definition timed_write :: "'e socket_ops \<Rightarrow> std_duration \<Rightarrow> str \<Rightarrow> bytes \<Rightarrow> ('e, unit) io" where
  "timed_write K limit doing payload =
     (case sk_write_all K payload limit of
        Write_timeout \<Rightarrow> (Inl (Wrapped (lit ''response write timeout'') Elapsed), [Write payload])
      | Write_failed e \<Rightarrow> (Inl (Wrapped doing (Io e)), [Write payload])
      | Write_done \<Rightarrow> (Inr (), [Write payload]))"

definition write_response ::
  "('s, 'm, 't, 'b) handler \<Rightarrow> 'e socket_ops \<Rightarrow> str \<Rightarrow> ('e, unit) io" where
  "write_response H K message =
     timed_write K (cfg_request_timeout (h_config H)) (lit ''writing response'') (render_message message)"

definition build_response ::
  "('s, 'm, 't, 'b) handler \<Rightarrow> finger_query \<Rightarrow> hostname \<Rightarrow> bytes \<times> action list" where
  "build_response H query host =
     (let include_plan = fq_verbose query
      in if \<not> accepts_host (h_index H) (h_config H) host
         then (render_message host_mismatch, [])
         else
           (case h_load H (fq_username query) include_plan of
              Inr r \<Rightarrow> response_as_bytes (render (h_maps H) (ur_profile r) include_plan (ur_plan r))
            | Inl NotFound \<Rightarrow> render_message user_missing
            | Inl InvalidPlanEncoding \<Rightarrow> render_message generic_error
            | Inl (Parse err) \<Rightarrow> render_message generic_error
            | Inl (Storage source) \<Rightarrow> render_message generic_error,
            [Load (fq_username query) include_plan]))"

definition respond_to_query ::
  "('s, 'm, 't, 'b) handler \<Rightarrow> 'e socket_ops \<Rightarrow> finger_query \<Rightarrow> ('e, unit) io" where
  "respond_to_query H K query =
     (let host = (case fq_host query of Some h \<Rightarrow> h | None \<Rightarrow> cfg_default_host (h_config H));
          (payload, acts) = build_response H query host
      in io_bind (Inr (), acts)
           (\<lambda>_. timed_write K (cfg_request_timeout (h_config H)) (lit ''sending response'') payload))"

definition read_request ::
  "('s, 'm, 't, 'b) handler \<Rightarrow> 'e socket_ops \<Rightarrow> 'e cause anyhow + bytes" where
  "read_request H K =
     (let max_bytes = cfg_max_request_bytes (h_config H);
          limit = max_bytes + 1
      in case sk_read_until K (unat limit) 10 (cfg_request_timeout (h_config H)) of
           Read_timeout \<Rightarrow> Inl (Wrapped (lit ''request timeout'') Elapsed)
         | Read_failed e \<Rightarrow> Inl (Source (Io e))
         | Read_done amount buffer \<Rightarrow>
             if amount = 0 then Inl (Message (lit ''connection closed''))
             else if unat max_bytes < length buffer then Inl (Message (lit ''request too large''))
             else Inr buffer)"

definition read_query ::
  "('s, 'm, 't, 'b) handler \<Rightarrow> 'e socket_ops \<Rightarrow> ('e, bytes) io" where
  "read_query H K = (read_request H K, [])"

definition parse_query ::
  "('s, 'm, 't, 'b) handler \<Rightarrow> 'e socket_ops \<Rightarrow> bytes \<Rightarrow> ('e, finger_query option) io" where
  "parse_query H K raw_request =
     (case query_parse raw_request of
        Inr query \<Rightarrow> (Inr (Some query), [])
      | Inl err \<Rightarrow> io_bind (write_response H K generic_error) (\<lambda>_. (Inr None, [])))"

text \<open>The part of \<open>serve\<close> after the rate limit.\<close>

definition serve_admitted :: "('s, 'm, 't, 'b) handler \<Rightarrow> 'e socket_ops \<Rightarrow> ('e, unit) io" where
  "serve_admitted H K =
     io_bind (read_query H K) (\<lambda>raw_request.
     io_bind (parse_query H K raw_request) (\<lambda>parsed.
     io_bind (case parsed of Some query \<Rightarrow> respond_to_query H K query | None \<Rightarrow> (Inr (), [])) (\<lambda>_.
     (Inr (), [Shutdown]))))"

text \<open>
  \<open>enforce_rate_limit\<close> and \<open>serve\<close> thread the limiter; a panic of the limiter ends the task of
  the connection with the state the limiter is left in.
\<close>

definition enforce_rate_limit ::
  "chrono_ops \<Rightarrow> 'd dash_map_ops \<Rightarrow> ('s, 'm, 't, 'b) handler \<Rightarrow> 'e socket_ops \<Rightarrow>
   'd rate_limiter \<Rightarrow> ip_addr \<Rightarrow> instant \<Rightarrow> (('e, bool) io, 'd rate_limiter) outcome option" where
  "enforce_rate_limit C D H K L remote_ip now =
     (case check_inner C D L remote_ip now of
        None \<Rightarrow> None
      | Some (Panic L1) \<Rightarrow> Some (Panic L1)
      | Some (Done (Inr _) L1) \<Rightarrow> Some (Done (Inr False, []) L1)
      | Some (Done (Inl (LimitExceeded retry)) L1) \<Rightarrow>
          Some (Done (io_bind (write_response H K rate_limit_message) (\<lambda>_. (Inr True, [Shutdown]))) L1))"

definition serve ::
  "chrono_ops \<Rightarrow> 'd dash_map_ops \<Rightarrow> ('s, 'm, 't, 'b) handler \<Rightarrow> 'e socket_ops \<Rightarrow>
   'd rate_limiter \<Rightarrow> socket_addr \<Rightarrow> instant \<Rightarrow> (('e, unit) io, 'd rate_limiter) outcome option" where
  "serve C D H K L addr now =
     (let remote_ip = sa_ip addr
      in case enforce_rate_limit C D H K L remote_ip now of
           None \<Rightarrow> None
         | Some (Panic L1) \<Rightarrow> Some (Panic L1)
         | Some (Done limited L1) \<Rightarrow>
             Some (Done (io_bind limited (\<lambda>refused. if refused then (Inr (), []) else serve_admitted H K)) L1))"

subsection \<open>Reading the request line\<close>

text \<open>The bytes up to and including the first delimiter.\<close>

definition until_byte :: "u8 \<Rightarrow> bytes \<Rightarrow> bytes" where
  "until_byte d xs = takeWhile (\<lambda>b. b \<noteq> d) xs @ (if d \<in> set xs then [d] else [])"

lemma until_byte_simps [simp]:
  "until_byte d [] = []"
  "until_byte d (b # xs) = (if b = d then [d] else b # until_byte d xs)"
  by (auto simp: until_byte_def)

lemma until_byte_take: "until_byte d (take k xs) = take k (until_byte d xs)"
proof (induction xs arbitrary: k)
  case (Cons b xs)
  then show ?case by (cases k) auto
qed simp

lemma until_byte_Nil_iff [simp]: "until_byte d xs = [] \<longleftrightarrow> xs = []"
  by (cases xs) auto

text \<open>
  What the code relies on: a \<open>read_until\<close> that ends, on a stream limited to \<open>limit\<close> bytes, has
  read the bytes the peer sends up to the delimiter, the limit or the end of what it sends.
\<close>

locale line_reader =
  fixes K :: "'e socket_ops" and input :: bytes
  assumes read_until: "sk_read_until K limit d t = Read_done n buf \<Longrightarrow>
    buf = until_byte d (take limit input) \<and> n = length buf"
begin

lemma read_request_line:
  assumes "sk_read_until K (Suc (unat (cfg_max_request_bytes (h_config H)))) 10
      (cfg_request_timeout (h_config H)) = Read_done n buf"
    and "cfg_max_request_bytes (h_config H) \<noteq> - 1"
  shows "read_request H K =
    (if input = [] then Inl (Message (lit ''connection closed''))
     else if unat (cfg_max_request_bytes (h_config H)) < length (until_byte 10 input)
       then Inl (Message (lit ''request too large''))
     else Inr (until_byte 10 input))"
proof -
  let ?m = "cfg_max_request_bytes (h_config H)"
  have limit: "unat (?m + 1) = Suc (unat ?m)"
    using assms(2) unatSuc [of ?m] by (auto simp: add.commute eq_neg_iff_add_eq_0)
  have buf: "buf = take (Suc (unat ?m)) (until_byte 10 input)" "n = length buf"
    using read_until [OF assms(1)] by (simp_all add: until_byte_take)
  show ?thesis
    using assms(1) by (auto simp: read_request_def Let_def limit buf)
qed

end

definition scripted_socket :: "bytes \<Rightarrow> unit write_outcome \<Rightarrow> unit socket_ops" where
  "scripted_socket input w =
     \<lparr>sk_read_until = \<lambda>limit d t.
        (let buf = until_byte d (take limit input) in Read_done (length buf) buf),
      sk_write_all = \<lambda>payload t. w\<rparr>"

interpretation scripted: line_reader "scripted_socket input w" input for input w
  by unfold_locales (auto simp: scripted_socket_def Let_def)

text \<open>
  C25: A request is the first line the client sends, whole or not at all: if it does not fit, the
  request fails as too large and is never cut; if nothing was sent the connection counts as
  closed.
\<close>

theorem read_request_whole_line:
  assumes "line_reader K input" and "cfg_max_request_bytes (h_config H) \<noteq> - 1"
    and "sk_read_until K (Suc (unat (cfg_max_request_bytes (h_config H)))) 10
      (cfg_request_timeout (h_config H)) = Read_done n buf"
  shows "read_request H K =
    (if input = [] then Inl (Message (lit ''connection closed''))
     else if unat (cfg_max_request_bytes (h_config H)) < length (until_byte 10 input)
       then Inl (Message (lit ''request too large''))
     else Inr (until_byte 10 input))"
  using assms(1,3,2) by (rule line_reader.read_request_line)

subsection \<open>What a connection does\<close>

lemma io_bind_simps [simp]:
  "io_bind (Inl e, acts) f = (Inl e, acts)"
  "io_bind (Inr x, acts) f = (fst (f x), acts @ snd (f x))"
  by (simp_all add: io_bind_def case_prod_beta Let_def)

text \<open>The answer to a request line, and the lookups made for it.\<close>

definition query_host :: "'s server_config \<Rightarrow> finger_query \<Rightarrow> hostname" where
  "query_host cfg q = (case fq_host q of Some h \<Rightarrow> h | None \<Rightarrow> cfg_default_host cfg)"

definition lookups :: "('s, 'm, 't, 'b) handler \<Rightarrow> bytes \<Rightarrow> action list" where
  "lookups H raw =
     (case query_parse raw of
        Inr q \<Rightarrow> if accepts_host (h_index H) (h_config H) (query_host (h_config H) q)
                  then [Load (fq_username q) (fq_verbose q)] else []
      | Inl _ \<Rightarrow> [])"

definition answer_lines :: "('s, 'm, 't, 'b) handler \<Rightarrow> bytes \<Rightarrow> str list" where
  "answer_lines H raw =
     (case query_parse raw of
        Inl _ \<Rightarrow> [generic_error]
      | Inr q \<Rightarrow>
          if accepts_host (h_index H) (h_config H) (query_host (h_config H) q)
          then (case h_load H (fq_username q) (fq_verbose q) of
                  Inr r \<Rightarrow> body_lines (render (h_maps H) (ur_profile r) (fq_verbose q) (ur_plan r))
                | Inl e \<Rightarrow> [if e = NotFound then user_missing else generic_error])
          else [host_mismatch])"

definition answer :: "('s, 'm, 't, 'b) handler \<Rightarrow> bytes \<Rightarrow> bytes" where
  "answer H raw = as_bytes (framed (answer_lines H raw))"

lemma render_message_framed: "render_message m = as_bytes (framed [m])"
  by (simp add: render_message_def Let_def into_bytes_def push_line_bytes crlf_with_capacity_def)

lemma timed_write_acts:
  "\<exists>r. timed_write K limit doing payload = (r, [Write payload])"
  by (simp add: timed_write_def split: write_outcome.split)

lemma build_response_answer:
  "query_parse raw = Inr q \<Longrightarrow>
     build_response H q (query_host (h_config H) q) = (answer H raw, lookups H raw)"
  by (auto simp: build_response_def Let_def answer_def answer_lines_def lookups_def
      render_message_framed response_bytes_framed split: sum.split repository_error.split)

lemma serve_admitted_exact:
  "serve_admitted H K =
     (case read_request H K of
        Inl e \<Rightarrow> (Inl e, [])
      | Inr raw \<Rightarrow>
          (case sk_write_all K (answer H raw) (cfg_request_timeout (h_config H)) of
             Write_done \<Rightarrow> (Inr (), lookups H raw @ [Write (answer H raw), Shutdown])
           | Write_timeout \<Rightarrow>
               (Inl (Wrapped (lit ''response write timeout'') Elapsed), lookups H raw @ [Write (answer H raw)])
           | Write_failed e \<Rightarrow>
               (Inl (Wrapped (if isl (query_parse raw) then lit ''writing response'' else lit ''sending response'') (Io e)),
                lookups H raw @ [Write (answer H raw)])))"
proof (cases "read_request H K")
  case (Inl e)
  then show ?thesis by (simp add: serve_admitted_def read_query_def)
next
  case (Inr raw)
  show ?thesis
  proof (cases "query_parse raw")
    case bad: (Inl e)
    have "answer H raw = render_message generic_error" "lookups H raw = []"
      using bad by (simp_all add: answer_def answer_lines_def lookups_def render_message_framed)
    then show ?thesis
      using Inr bad
      by (simp add: serve_admitted_def read_query_def parse_query_def write_response_def timed_write_def
          split: write_outcome.split)
  next
    case q: (Inr q)
    have "respond_to_query H K q =
        io_bind (Inr (), lookups H raw)
          (\<lambda>_. timed_write K (cfg_request_timeout (h_config H)) (lit ''sending response'') (answer H raw))"
      using build_response_answer [OF q, of H] by (simp add: respond_to_query_def Let_def query_host_def [symmetric])
    then show ?thesis
      using Inr q
      by (simp add: serve_admitted_def read_query_def parse_query_def timed_write_def split: write_outcome.split)
  qed
qed

lemma serve_admitted_aux:
  "\<exists>r. serve_admitted H K =
     (case read_request H K of
        Inl e \<Rightarrow> (Inl e, [])
      | Inr raw \<Rightarrow> (r, lookups H raw @ Write (answer H raw) # (if isl r then [] else [Shutdown])))"
  by (intro exI [of _ "fst (serve_admitted H K)"]) (auto simp: serve_admitted_exact split: sum.split write_outcome.split)

text \<open>
  C7: A connection that passes the rate limit makes exactly one answer to its request line: the
  lookup the query calls for, at most one, then the answer, written once.  If the write completes the
  socket is shut down and the connection succeeds; if it times out or fails there is no shutdown, and
  the connection ends with that error.  Without a request line it does nothing.
\<close>

theorem serve_admitted_answers:
  "serve_admitted H K =
     (case read_request H K of
        Inl e \<Rightarrow> (Inl e, [])
      | Inr raw \<Rightarrow>
          (case sk_write_all K (answer H raw) (cfg_request_timeout (h_config H)) of
             Write_done \<Rightarrow> (Inr (), lookups H raw @ [Write (answer H raw), Shutdown])
           | Write_timeout \<Rightarrow>
               (Inl (Wrapped (lit ''response write timeout'') Elapsed), lookups H raw @ [Write (answer H raw)])
           | Write_failed e \<Rightarrow>
               (Inl (Wrapped (if isl (query_parse raw) then lit ''writing response'' else lit ''sending response'') (Io e)),
                lookups H raw @ [Write (answer H raw)])))"
  by (rule serve_admitted_exact)

definition sample_handler ::
  "(str \<times> bytes) list \<Rightarrow> (hostname list, (str \<times> str) list, unit, unit) handler" where
  "sample_handler objects =
     \<lparr>h_index = list_index_set, h_maps = assoc_index_map,
      h_config =
        \<lparr>cfg_listen = \<lparr>sa_ip = V4 0, sa_port = 7979\<rparr>, cfg_default_host = HostName (lit ''localhost''),
         cfg_allowed_hosts = [HostName (lit ''localhost'')], cfg_store_root = lit ''data'',
         cfg_profile_prefix = [], cfg_plan_prefix = [], cfg_rate = sample_settings,
         cfg_metrics_listen = None, cfg_request_timeout = 1000000, cfg_max_request_bytes = 64\<rparr>,
      h_load = load_user (const_toml sample_table) assoc_index_map (user_store_new (sample_store objects) [] [])\<rparr>"

lemma read_request_whole_line_witness:
  "read_request (sample_handler []) (scripted_socket (replicate 65 65) Write_done) =
     Inl (Message (lit ''request too large''))"
proof -
  have "until_byte 10 (replicate n 65) = replicate n 65" for n by (induction n) auto
  then show ?thesis
    using read_request_whole_line [OF scripted.line_reader_axioms, of "sample_handler []" "replicate 65 65" Write_done]
    by (simp add: sample_handler_def scripted_socket_def Let_def)
qed

text \<open>
  The rate limit comes first.  A refused connection is sent the fixed text and closed:
  nothing is read from it and nothing is looked up, whatever the peer sends; an admitted one is
  served without another look at the limiter.
\<close>

lemma serve_by_verdict:
  assumes "check_inner C D L (sa_ip addr) now = Some (Done verdict L')"
  shows "\<exists>r. serve C D H K L addr now = Some (Done
    (case verdict of
       Inl _ \<Rightarrow> (r, Write (render_message rate_limit_message) # (if isl r then [] else [Shutdown]))
     | Inr _ \<Rightarrow> serve_admitted H K) L')"
proof (cases verdict)
  case (Inl v)
  obtain r where r: "timed_write K (cfg_request_timeout (h_config H)) (lit ''writing response'')
      (render_message rate_limit_message) = (r, [Write (render_message rate_limit_message)])"
    using timed_write_acts by blast
  show ?thesis
    using Inl r assms
    by (cases v; cases r) (auto simp: serve_def enforce_rate_limit_def write_response_def)
next
  case (Inr v)
  then show ?thesis using assms by (cases "serve_admitted H K") (simp add: serve_def enforce_rate_limit_def)
qed

lemma sample_refusal:
  "check_inner sample_chrono assoc_dash_map sample_limiter client_a 120 =
     Some (Done (Inl (LimitExceeded 40)) sample_limiter)"
  by (simp add: Let_def check_inner_def prune_stale_def account_def enforce_capacity_def
      record_entry_count_def limiter_sample)

lemma serve_by_verdict_witness:
  "\<exists>r. serve sample_chrono assoc_dash_map (sample_handler []) (scripted_socket [] Write_timeout)
      sample_limiter \<lparr>sa_ip = client_a, sa_port = 4000\<rparr> 120 =
    Some (Done (r, Write (render_message rate_limit_message) # (if isl r then [] else [Shutdown])) sample_limiter)"
  using serve_by_verdict [of sample_chrono assoc_dash_map sample_limiter "\<lparr>sa_ip = client_a, sa_port = 4000\<rparr>" 120]
    sample_refusal by fastforce

text \<open>What a connection may do, as a whole.\<close>

lemma serve_cases:
  assumes "serve C D H K L addr now = Some (Done (r, acts) L')"
  obtains (refused) e where "check_inner C D L (sa_ip addr) now = Some (Done (Inl e) L')"
      and "acts = Write (render_message rate_limit_message) # (if isl r then [] else [Shutdown])"
  | (unread) e where "check_inner C D L (sa_ip addr) now = Some (Done (Inr ()) L')"
      and "read_request H K = Inl e" and "acts = []" and "r = Inl e"
  | (answered) raw where "check_inner C D L (sa_ip addr) now = Some (Done (Inr ()) L')"
      and "read_request H K = Inr raw"
      and "acts = lookups H raw @ Write (answer H raw) # (if isl r then [] else [Shutdown])"
proof -
  obtain v where v: "check_inner C D L (sa_ip addr) now = Some (Done v L')"
    using assms
    by (auto simp: serve_def enforce_rate_limit_def Let_def
        split: option.splits outcome.splits sum.splits rate_limit_error.splits)
  obtain r1 where s: "serve C D H K L addr now = Some (Done
    (case v of
       Inl _ \<Rightarrow> (r1, Write (render_message rate_limit_message) # (if isl r1 then [] else [Shutdown]))
     | Inr _ \<Rightarrow> serve_admitted H K) L')"
    using serve_by_verdict [OF v] by blast
  show thesis
  proof (cases v)
    case (Inl e)
    with s assms v show thesis by (intro refused) auto
  next
    case (Inr u)
    obtain r2 where "serve_admitted H K = (case read_request H K of
        Inl e \<Rightarrow> (Inl e, [])
      | Inr raw \<Rightarrow> (r2, lookups H raw @ Write (answer H raw) # (if isl r2 then [] else [Shutdown])))"
      using serve_admitted_aux by blast
    with s assms v Inr show thesis
      by (cases "read_request H K") (auto intro: unread answered)
  qed
qed

text \<open>
  Whatever happens, a connection writes at most once and looks up at most one user, before it
  writes; it shuts the socket down exactly when it ends without an error, which it never does
  without an answer; and it asks only for well-formed usernames.
\<close>

lemma serve_one_answer:
  assumes "serve C D H K L addr now = Some (Done (r, acts) L')"
  shows "\<exists>before payload. acts \<in> {[], before @ [Write payload], before @ [Write payload, Shutdown]} \<and>
    (before = [] \<or> (\<exists>u v. before = [Load u v] \<and> username_wf u)) \<and>
    (Shutdown \<in> set acts \<longleftrightarrow> \<not> isl r)"
proof -
  have look: "lookups H raw = [] \<or> (\<exists>u v. lookups H raw = [Load u v] \<and> username_wf u)" for raw
    by (auto simp: lookups_def query_wf_def dest: query_parse_wf split: sum.split)
  from assms show ?thesis
  proof (cases rule: serve_cases)
    case (refused e)
    then show ?thesis by (intro exI [of _ "[]"] exI [of _ "render_message rate_limit_message"]) auto
  next
    case (unread e)
    then show ?thesis by (intro exI [of _ "[]"]) auto
  next
    case (answered raw)
    then show ?thesis using look [of raw] by (intro exI [of _ "lookups H raw"] exI [of _ "answer H raw"]) auto
  qed
qed

text \<open>With a clock that chrono can follow, serving a connection neither diverges nor panics.\<close>

lemma serve_ends:
  assumes "limiter_env C D" and "limiter_wf L" and "cutoff_ok C L now"
    and "started_by now (dm_get D (rl_entries L))"
  shows "\<exists>r acts L'. serve C D H K L addr now = Some (Done (r, acts) L')"
proof -
  obtain v e where "fixed_window (rs_max_requests (rl_settings L)) (rl_window L) now
      (dm_get D (rl_entries L) (sa_ip addr)) = (v, e)" by fastforce
  from check_done [OF assms this] obtain L' where
    "check_inner C D L (sa_ip addr) now = Some (Done v L')" by blast
  from serve_by_verdict [OF this] show ?thesis by (metis surj_pair)
qed

lemma sample_serve:
  "\<exists>r acts L'. serve sample_chrono assoc_dash_map (sample_handler []) (scripted_socket [65, 13, 10] Write_done)
      sample_limiter \<lparr>sa_ip = client_b, sa_port = 4000\<rparr> 130 = Some (Done (r, acts) L')"
  by (intro serve_ends sample_limiter_ok) simp_all

lemma serve_one_answer_witness:
  "\<exists>r acts. length (filter (\<lambda>a. a = Shutdown) acts) \<le> 1 \<and> (Shutdown \<in> set acts \<longleftrightarrow> \<not> isl r) \<and>
     (\<exists>L'. serve sample_chrono assoc_dash_map (sample_handler []) (scripted_socket [65, 13, 10] Write_done)
        sample_limiter \<lparr>sa_ip = client_b, sa_port = 4000\<rparr> 130 = Some (Done (r, acts) L'))"
proof -
  obtain r acts L' where s: "serve sample_chrono assoc_dash_map (sample_handler [])
      (scripted_socket [65, 13, 10] Write_done) sample_limiter \<lparr>sa_ip = client_b, sa_port = 4000\<rparr> 130 =
    Some (Done (r, acts) L')" using sample_serve by blast
  from serve_one_answer [OF s] have "length (filter (\<lambda>a. a = Shutdown) acts) \<le> 1" "Shutdown \<in> set acts \<longleftrightarrow> \<not> isl r"
    by auto
  with s show ?thesis by blast
qed

subsection \<open>What a peer can see\<close>

lemma message_printable:
  "printable_line generic_error" "printable_line host_mismatch" "printable_line rate_limit_message"
  "printable_line user_missing"
  by (simp_all add: generic_error_def host_mismatch_def rate_limit_message_def user_missing_def
      lit_def printable_def)

text \<open>The keys of every profile in the store are printable.\<close>

definition printable_keys :: "('s, 'm, 't, 'b) handler \<Rightarrow> bool" where
  "printable_keys H \<longleftrightarrow>
     (\<forall>u ip r. h_load H u ip = Inr r \<longrightarrow>
        (\<forall>(k, v) \<in> set (im_iter (h_maps H) (fp_attributes (ur_profile r))). printable_line k))"

lemma render_nonempty [simp]: "body_lines (render IM p v plan) \<noteq> []"
  by (simp add: render_def Let_def)

context user_store
begin

lemma answer_lines_printable:
  assumes "h_load H = load" and "printable_keys H"
  shows "list_all printable_line (answer_lines H raw) \<and> answer_lines H raw \<noteq> []"
proof -
  have "list_all printable_line (body_lines (render (h_maps H) (ur_profile r) v (ur_plan r)))"
    if "query_parse raw = Inr q" "load (fq_username q) v = Inr r" for q v r
  proof (rule render_printable)
    show "username_wf (fp_username (ur_profile r))"
      using load_owner [OF that(2)] query_parse_wf [OF that(1)] by (simp add: query_wf_def)
    show "(k, w) \<in> set (im_iter (h_maps H) (fp_attributes (ur_profile r))) \<Longrightarrow> printable_line k" for k w
      using assms that(2) by (fastforce simp: printable_keys_def)
  qed
  then show ?thesis
    using assms(1) by (auto simp: answer_lines_def message_printable split: sum.split)
qed

end

text \<open>
  C11: When the keys of the stored profiles are printable, everything a peer is ever sent is lines
  of printable ASCII, each ended by CRLF, whatever the peer sends and the profiles and plans
  contain: no escape sequence, bare line feed or invalid UTF-8 gets through.
\<close>

theorem serve_output_printable:
  assumes "user_store (h_load H)" and "printable_keys H"
    and "serve C D H K L addr now = Some (Done (r, acts) L')" and "Write payload \<in> set acts"
  shows "\<exists>lines. lines \<noteq> [] \<and> list_all printable_line lines \<and>
    payload = as_bytes (concat (map (\<lambda>l. l @ crlf) lines))"
proof -
  have "\<exists>lines. lines \<noteq> [] \<and> list_all printable_line lines \<and> payload = as_bytes (framed lines)"
    using assms(3)
  proof (cases rule: serve_cases)
    case (refused e)
    then show ?thesis
      using assms(4) message_printable
      by (intro exI [of _ "[rate_limit_message]"]) (auto simp: render_message_framed split: if_splits)
  next
    case (answered raw)
    have "Write payload \<notin> set (lookups H raw)"
      by (auto simp: lookups_def split: sum.splits)
    then have "payload = answer H raw" using assms(4) answered by (auto split: if_splits)
    then show ?thesis
      using user_store.answer_lines_printable [OF assms(1) refl assms(2), of raw]
      by (auto simp: answer_def)
  qed (use assms(4) in auto)
  moreover have "framed lines = concat (map (\<lambda>l. l @ crlf) lines)" if "list_all printable_line lines" for lines
    unfolding framed_def using that
    by (intro arg_cong [where f = concat] map_cong) (auto simp: list_all_iff printable_line_framing)
  ultimately show ?thesis by metis
qed

text \<open>
  C34: A plan is read and shown on request only.  With the profile of the user there and in order, a
  query without the flag is answered with its rendering without a plan section, whatever the plan
  holds and even if it cannot be read; with the flag, the response is the rendering with the plan, or with
  the note that there is none if the plan is not found, and the refusal if it cannot be read or decoded.
\<close>

theorem terse_answer_hides_plan:
  assumes "h_load H = load_user T (h_maps H) S" and "accepts_host (h_index H) (h_config H) host"
    and "fetch_bytes S (profile_path S (fq_username q)) = Inr payload"
    and "profile_parse T (h_maps H) (fq_username q) payload = Inr profile"
  shows "build_response H q host =
    (if \<not> fq_verbose q then response_as_bytes (render (h_maps H) profile False None)
     else case fetch_bytes S (plan_path S (fq_username q)) of
       Inr content \<Rightarrow>
         (case from_utf8 content of
            Some plan \<Rightarrow> response_as_bytes (render (h_maps H) profile True (Some plan))
          | None \<Rightarrow> render_message generic_error)
     | Inl e \<Rightarrow>
         if os_is_not_found (st_store S) e then response_as_bytes (render (h_maps H) profile True None)
         else render_message generic_error,
     [Load (fq_username q) (fq_verbose q)])"
  using assms
  by (auto simp: build_response_def load_user_def load_plan_if_requested_def split: sum.split option.split)

lemma sample_parse:
  "profile_parse (const_toml sample_table) assoc_index_map u payload = Inr p \<Longrightarrow>
     im_iter assoc_index_map (fp_attributes p) = [(lit ''email'', lit ''a@b'')]"
  by (auto simp: profile_parse_def result_iff const_toml_def sample_table_def assoc_index_map_def
      username_key_def lit_def split: if_splits)

lemma sample_keys: "printable_keys (sample_handler objects)"
proof -
  have "printable_line (lit ''email'')" by (simp add: lit_def printable_def)
  then show ?thesis
    by (auto simp: printable_keys_def sample_handler_def load_user_Inr_iff dest!: sample_parse)
qed

definition alice :: username where "alice = Username (lit ''alice'')"

definition terse_query :: finger_query where
  "terse_query = \<lparr>fq_username = alice, fq_host = None, fq_verbose = False\<rparr>"

definition terse_line :: bytes where
  "terse_line = as_bytes (lit ''alice'' @ crlf)"

lemma terse_line_parse: "query_parse terse_line = Inr terse_query"
proof -
  have "query_wf terse_query" unfolding terse_query_def alice_def by code_simp
  then have "query_parse (as_bytes (wire_text (lit '' '') terse_query @ crlf)) = Inr terse_query"
    by (rule query_parse_wire) (simp_all add: lit_def is_whitespace_def is_scalar_def control_char_def)
  then show ?thesis
    by (simp add: wire_text_def user_token_def terse_query_def alice_def terse_line_def)
qed

lemma sample_profile_parse:
  "profile_parse (const_toml sample_table) assoc_index_map alice [] =
     Inr \<lparr>fp_username = alice, fp_attributes = [(lit ''email'', lit ''a@b'')]\<rparr>"
proof -
  have "from_utf8 [] = Some []" using from_utf8_as_bytes [of "[]"] by (simp add: valid_str_def)
  moreover have "profile_fields (const_toml sample_table) assoc_index_map
      (map (\<lambda>(k, s). (k, Inr s)) sample_table) [] None =
    Inr ([(lit ''email'', lit ''a@b'')], Some (lit '' Alice''))"
    by (simp add: const_toml_def sample_table_def assoc_index_map_def username_key_def) (simp add: lit_def)
  ultimately show ?thesis
    by (simp add: profile_parse_def const_toml_def sample_name alice_def assoc_index_map_def)
qed

definition sample_objects :: "(str \<times> bytes) list" where
  "sample_objects = [(lit ''alice.toml'', []), (lit ''alice.plan'', [])]"

lemma sample_load:
  "h_load (sample_handler sample_objects) alice v =
     Inr \<lparr>ur_profile = \<lparr>fp_username = alice, fp_attributes = [(lit ''email'', lit ''a@b'')]\<rparr>,
          ur_plan = (if v then Some [] else None)\<rparr>"
proof -
  let ?S = "user_store_new (sample_store sample_objects) [] []"
  have paths: "profile_path ?S alice = lit ''alice.toml''" "plan_path ?S alice = lit ''alice.plan''"
    by (simp_all add: profile_path_def plan_path_def join_path_def join_text_def profile_file_def
        plan_file_def alice_def user_store_new_def trim_slashes_def trim_matches_def
        trim_end_matches_def sample_store_def lit_def)
  have "fetch_bytes ?S (lit ''alice.toml'') = Inr []" "fetch_bytes ?S (lit ''alice.plan'') = Inr []"
    by (simp_all add: fetch_bytes_def user_store_new_def sample_store_def sample_objects_def lit_def)
  moreover have "from_utf8 [] = Some []" using from_utf8_as_bytes [of "[]"] by (simp add: valid_str_def)
  ultimately show ?thesis
    by (auto simp: sample_handler_def load_user_Inr_iff sample_profile_parse paths load_plan_if_requested_def)
qed

lemma sample_admitted_check:
  "\<exists>L'. check_inner sample_chrono assoc_dash_map sample_limiter client_b 130 = Some (Done (Inr ()) L')"
proof -
  obtain e where "fixed_window (rs_max_requests (rl_settings sample_limiter)) (rl_window sample_limiter) 130
      (dm_get assoc_dash_map (rl_entries sample_limiter) client_b) = (Inr (), e)"
    by (simp add: fixed_window_def live_entry_def limiter_sample word_le_nat_alt)
  then show ?thesis
    using check_done [OF sample_limiter_ok(1,2) sample_limiter_ok(3,4), of 130 client_b] by auto
qed

lemma sample_admitted:
  "\<exists>r L'. serve sample_chrono assoc_dash_map (sample_handler sample_objects)
      (scripted_socket terse_line Write_done) sample_limiter \<lparr>sa_ip = client_b, sa_port = 4000\<rparr> 130 =
    Some (Done (r, lookups (sample_handler sample_objects) terse_line @
      Write (answer (sample_handler sample_objects) terse_line) # (if isl r then [] else [Shutdown])) L')"
proof -
  let ?H = "sample_handler sample_objects" and ?K = "scripted_socket terse_line Write_done"
  obtain L' where c: "check_inner sample_chrono assoc_dash_map sample_limiter client_b 130 = Some (Done (Inr ()) L')"
    using sample_admitted_check by blast
  have line: "terse_line = [97, 108, 105, 99, 101, 13, 10]"
    by (simp add: terse_line_def lit_def crlf_def encode_char_def byte_def)
  have "read_request ?H ?K = Inr terse_line"
    unfolding line by (simp add: read_request_def scripted_socket_def sample_handler_def Let_def)
  then show ?thesis
    using serve_by_verdict [of _ _ _ "\<lparr>sa_ip = client_b, sa_port = 4000\<rparr>", simplified, OF c]
      serve_admitted_aux [of ?H ?K] by (metis (no_types, lifting) sum.case(2))
qed

lemma serve_output_printable_witness:
  "\<exists>lines. lines \<noteq> [] \<and> list_all printable_line lines \<and>
     answer (sample_handler sample_objects) terse_line = as_bytes (concat (map (\<lambda>l. l @ crlf) lines))"
proof -
  obtain r L' where s: "serve sample_chrono assoc_dash_map (sample_handler sample_objects)
      (scripted_socket terse_line Write_done) sample_limiter \<lparr>sa_ip = client_b, sa_port = 4000\<rparr> 130 =
    Some (Done (r, lookups (sample_handler sample_objects) terse_line @
      Write (answer (sample_handler sample_objects) terse_line) # (if isl r then [] else [Shutdown])) L')"
    using sample_admitted by blast
  have "user_store (h_load (sample_handler sample_objects))"
    by (simp add: sample_handler_def object_store.user_store_axioms)
  from serve_output_printable [OF this sample_keys s] show ?thesis by simp
qed

lemma terse_answer_hides_plan_witness:
  "build_response (sample_handler sample_objects) terse_query (HostName (lit ''localhost'')) =
     (response_as_bytes (render assoc_index_map
        \<lparr>fp_username = alice, fp_attributes = [(lit ''email'', lit ''a@b'')]\<rparr> False None), [Load alice False])"
proof -
  let ?H = "sample_handler sample_objects" and ?T = "const_toml sample_table"
  let ?S = "user_store_new (sample_store sample_objects) [] []"
  have load: "h_load ?H = load_user ?T (h_maps ?H) ?S" by (simp add: sample_handler_def)
  have acc: "accepts_host (h_index ?H) (h_config ?H) (HostName (lit ''localhost''))"
    by (simp add: sample_handler_def accepts_host_def list_index_set_def)
  obtain payload where p: "fetch_bytes ?S (profile_path ?S (fq_username terse_query)) = Inr payload"
    "profile_parse ?T (h_maps ?H) (fq_username terse_query) payload =
      Inr \<lparr>fp_username = alice, fp_attributes = [(lit ''email'', lit ''a@b'')]\<rparr>"
    using sample_load [of False] unfolding load load_user_Inr_iff by (auto simp: terse_query_def)
  from terse_answer_hides_plan [OF load acc p] show ?thesis
    by (simp add: terse_query_def sample_handler_def)
qed

end
