(* ===== verification/Limiter_Runs.thy ===== *)
theory Limiter_Runs
  imports Rate_Limit
begin

section \<open>The rate limiter over time (src/rate\_limit.rs)\<close>

text \<open>
  Properties of \<open>RateLimiter::check\<close> that only show over sequences of checks: every client's
  verdicts are those of its own fixed windows while the capacity is not exceeded, nobody is
  refused whose quota is not used up, what the quota bounds and what it does not, and when a
  refused client may come back.
\<close>

subsection \<open>Sequences of checks\<close>

text \<open>
  \<open>served\<close> is what the limiter may have gone through since it was built: checks at times that do
  not decrease, with the trace of callers, times and verdicts.  \<open>run_checks\<close> computes the trace
  of a given sequence of arrivals.
\<close>

type_synonym check_trace = "(ip_addr \<times> instant \<times> (rate_limit_error + unit)) list"

inductive served ::
  "chrono_ops \<Rightarrow> 'd dash_map_ops \<Rightarrow> rate_limit_settings \<Rightarrow> instant \<Rightarrow> 'd rate_limiter \<Rightarrow> check_trace \<Rightarrow> bool"
  for C D S where
  served_start: "served C D S t (with_clock C D S) []"
| served_check:
    "served C D S t L tr \<Longrightarrow> t \<le> now \<Longrightarrow> check_inner C D L ip now = Some (Done r L') \<Longrightarrow>
     served C D S now L' (tr @ [(ip, now, r)])"

fun run_checks ::
  "chrono_ops \<Rightarrow> 'd dash_map_ops \<Rightarrow> 'd rate_limiter \<Rightarrow> (ip_addr \<times> instant) list \<Rightarrow>
   (check_trace \<times> 'd rate_limiter) option" where
  "run_checks C D L [] = Some ([], L)"
| "run_checks C D L ((ip, now) # arrivals) =
     (case check_inner C D L ip now of
        Some (Done r L1) \<Rightarrow>
          (case run_checks C D L1 arrivals of
             Some (tr, L2) \<Rightarrow> Some ((ip, now, r) # tr, L2)
           | None \<Rightarrow> None)
      | _ \<Rightarrow> None)"

definition accepted_since :: "check_trace \<Rightarrow> ip_addr \<Rightarrow> instant \<Rightarrow> nat" where
  "accepted_since tr ip since = length (filter (\<lambda>(k, t, r). k = ip \<and> since \<le> t \<and> r = Inr ()) tr)"

definition verdicts_of :: "check_trace \<Rightarrow> ip_addr \<Rightarrow> (instant \<times> (rate_limit_error + unit)) list" where
  "verdicts_of tr ip = map snd (filter (\<lambda>(k, _). k = ip) tr)"

definition arrivals_of :: "(ip_addr \<times> instant) list \<Rightarrow> ip_addr \<Rightarrow> instant list" where
  "arrivals_of arrivals ip = map snd (filter (\<lambda>(k, _). k = ip) arrivals)"

text \<open>One client against its own sequence of fixed windows.\<close>

fun client_run ::
  "u32 \<Rightarrow> duration \<Rightarrow> rate_entry option \<Rightarrow> instant list \<Rightarrow> (instant \<times> (rate_limit_error + unit)) list" where
  "client_run q w eo [] = []"
| "client_run q w eo (t # ts) =
     (let (r, e) = fixed_window q w t eo in (t, r) # client_run q w (Some e) ts)"

definition accepted_in :: "instant \<Rightarrow> instant \<Rightarrow> (instant \<times> (rate_limit_error + unit)) list \<Rightarrow> nat" where
  "accepted_in a b vs = length (filter (\<lambda>(t, r). a \<le> t \<and> t < b \<and> r = Inr ()) vs)"

subsection \<open>Reachable limiters\<close>

lemma accepted_since_snoc:
  "accepted_since (tr @ [(k, t, r)]) ip s =
     accepted_since tr ip s + (if k = ip \<and> s \<le> t \<and> r = Inr () then 1 else 0)"
  by (simp add: accepted_since_def)

lemma accepted_since_mono: "s \<le> s' \<Longrightarrow> accepted_since tr ip s' \<le> accepted_since tr ip s"
  unfolding accepted_since_def by (induction tr) auto

lemma served_past: "served C D S t L tr \<Longrightarrow> (k, s, r) \<in> set tr \<Longrightarrow> s \<le> t"
  by (induction rule: served.induct) auto

text \<open>What holds of every limiter that checks can lead to, with its trace.\<close>

definition counted :: "check_trace \<Rightarrow> u32 \<Rightarrow> (ip_addr \<rightharpoonup> rate_entry) \<Rightarrow> bool" where
  "counted tr q A \<longleftrightarrow>
     (\<forall>k e. A k = Some e \<longrightarrow> re_count e \<le> q \<and> (q = 0 \<or> 0 < re_count e) \<and>
        unat (re_count e) \<le> accepted_since tr k (window_start e))"

lemma counted_step:
  assumes "counted tr q A" and fw: "fixed_window q w now (A ip) = (r, e)"
    and "started_by now A" "0 \<le> w" and B: "evicts_oldest ip ((pruned c A)(ip \<mapsto> e)) B"
  shows "counted (tr @ [(ip, now, r)]) q B"
proof (unfold counted_def, intro allI impI)
  fix k f assume "B k = Some f"
  then have k: "((pruned c A)(ip \<mapsto> e)) k = Some f" using B by (rule evicts_oldest_le [rotated])
  show "re_count f \<le> q \<and> (q = 0 \<or> 0 < re_count f) \<and>
    unat (re_count f) \<le> accepted_since (tr @ [(ip, now, r)]) k (window_start f)"
  proof (cases "k = ip")
    case False
    then show ?thesis using k assms(1) by (auto simp: counted_def pruned_Some accepted_since_snoc)
  next
    case True
    then have f: "f = e" using k by simp
    let ?l = "live_entry w now (A ip)"
    have live: "unat (re_count ?l) \<le> accepted_since tr ip (window_start ?l)" "window_start ?l \<le> now"
      using assms(1,3) by (auto simp: live_entry_def counted_def started_by_def split: option.split)
    have "re_count e \<le> q"
      using fixed_window_count [of "A ip" q w now] assms(1) fw by (auto simp: counted_def)
    moreover have "q = 0 \<or> 0 < re_count e"
      using fixed_window_busy [of q w now "A ip"] fw by (cases "q = 0") (simp_all add: word_gt_0)
    moreover have "unat (re_count e) \<le> accepted_since (tr @ [(ip, now, r)]) ip (window_start e)"
    proof (cases "q \<le> re_count ?l")
      case True
      then show ?thesis using fw live by (auto simp: fixed_window_def Let_def accepted_since_snoc)
    next
      case False
      then have "r = Inr ()" "e = ?l\<lparr>re_count := re_count ?l + 1\<rparr>"
        using fw by (auto simp: fixed_window_def Let_def)
      moreover have "unat (re_count ?l + 1) = Suc (unat (re_count ?l))"
        using False by (intro unat_inc [of _ q]) simp
      ultimately show ?thesis using live by (simp add: accepted_since_snoc)
    qed
    ultimately show ?thesis using True f by simp
  qed
qed

lemma done_cutoff: "check_inner C D L ip now = Some (Done r L') \<Longrightarrow> cutoff_ok C L now"
  by (auto simp: check_inner_def prune_stale_def cutoff_ok_def split: option.splits)

lemma served_inv:
  assumes "limiter_env C D" and "served C D S t L tr"
  shows "limiter_wf L \<and> started_by t (dm_get D (rl_entries L)) \<and>
    rl_window L = rl_window (with_clock C D S) \<and> rl_settings L = rl_settings (with_clock C D S) \<and>
    counted tr (rs_max_requests S) (dm_get D (rl_entries L)) \<and>
    rl_gauge L = dm_len D (rl_entries L) \<and>
    dm_len D (rl_entries L) \<le> unat (rs_max_entries (rl_settings L))"
  using assms(2)
proof (induction rule: served.induct)
  case (served_start t)
  have new: "dm_get D (rl_entries (with_clock C D S)) = (\<lambda>_. None)"
    using assms(1) by (auto simp: with_clock_def Let_def limiter_env_def dash_map.get_new)
  then have "dm_len D (rl_entries (with_clock C D S)) = 0"
    using assms(1) by (simp add: limiter_env_def dash_map.len_dom)
  moreover have "rl_gauge (with_clock C D S) = 0" by (simp add: with_clock_def Let_def)
  ultimately show ?case
    by (simp add: started_by_def counted_def limiter_wf_with_clock [OF assms(1)] new)
next
  case (served_check t L tr now ip r L')
  have q: "rs_max_requests (rl_settings L) = rs_max_requests S"
    using served_check.IH by (auto simp: with_clock_def Let_def)
  have st: "started_by now (dm_get D (rl_entries L))"
    using served_check by (force simp: started_by_def)
  have co: "cutoff_ok C L now" using served_check.hyps(3) by (rule done_cutoff)
  have wf: "limiter_wf L" using served_check.IH by simp
  obtain v e where fw: "fixed_window (rs_max_requests (rl_settings L)) (rl_window L) now
      (dm_get D (rl_entries L) ip) = (v, e)" by fastforce
  obtain "v = r" and "rl_gauge L' = dm_len D (rl_entries L')"
    and "dm_len D (rl_entries L') \<le> unat (rs_max_entries (rl_settings L))"
    and ev: "evicts_oldest ip ((pruned (now - rl_window L) (dm_get D (rl_entries L)))(ip \<mapsto> e))
      (dm_get D (rl_entries L'))"
    using check_done [OF assms(1) wf co st fw] served_check.hyps(3)
    by (metis option.inject outcome.inject(1))
  moreover have "counted (tr @ [(ip, now, r)]) (rs_max_requests S) (dm_get D (rl_entries L'))"
    using counted_step [of tr "rs_max_requests S" "dm_get D (rl_entries L)"] served_check.IH fw st wf q
      ev \<open>v = r\<close> by (auto simp: limiter_wf_def)
  ultimately show ?case
    using check_keeps [OF assms(1) wf co st served_check.hyps(3)] served_check.IH by simp
qed

lemma with_clock_window_pos:
  "limiter_env C D \<Longrightarrow> 0 < rs_window S \<Longrightarrow> 0 < rl_window (with_clock C D S)"
  by (auto simp: with_clock_def chrono_duration_def Let_def nanos_per_sec_def
      limiter_env_def dest: chrono.from_std split: option.split)

text \<open>
  C26: In every limiter that checks lead to which are made one after another, each ended before the next
  begins, with a clock that does not go back (\<open>served\<close>): the map holds no more entries than the
  capacity, the gauge shows their number, no entry is from the future, and every entry counts at least
  one request and at most the quota.  What remains of this when checks race is in
  \<open>Limiter_Threads\<close>.
\<close>

theorem served_invariant:
  assumes "limiter_env C D" and "served C D S t L tr"
  shows "dm_len D (rl_entries L) \<le> max 1 (unat (rs_max_entries S)) \<and>
    rl_gauge L = dm_len D (rl_entries L) \<and>
    (\<forall>k e. dm_get D (rl_entries L) k = Some e \<longrightarrow>
       window_start e \<le> t \<and> re_count e \<le> rs_max_requests S \<and>
       (rs_max_requests S = 0 \<or> 0 < re_count e))"
proof -
  have "unat (rs_max_entries (rl_settings (with_clock C D S))) = max 1 (unat (rs_max_entries S))"
    by (auto simp: with_clock_def Let_def max_def Suc_le_eq unat_gt_0)
  then have "dm_len D (rl_entries L) \<le> max 1 (unat (rs_max_entries S))"
    using served_inv [OF assms] by metis
  then show ?thesis using served_inv [OF assms] by (simp add: started_by_def counted_def)
qed

text \<open>
  C19: Nobody is refused whose quota is not used up: when a check asks a client to wait for
  \<open>d\<close>, then \<open>d\<close> is positive and at most the window, and in the window that ends \<open>d\<close> from now
  the limiter has accepted the full quota of that client's requests.
\<close>

theorem refusal_justified:
  assumes "limiter_env C D" and "served C D S t L tr" and "t \<le> now" and "0 < rs_window S"
    and "check_inner C D L ip now = Some (Done (Inl (LimitExceeded d)) L')"
  shows "0 < d \<and> int d \<le> rl_window L \<and>
    unat (rs_max_requests S) \<le> accepted_since tr ip (now + int d - rl_window L)"
proof -
  let ?w = "rl_window L" and ?l = "live_entry (rl_window L) now (dm_get D (rl_entries L) ip)"
  let ?s = "window_start ?l"
  note inv = served_inv [OF assms(1,2)]
  have st: "started_by now (dm_get D (rl_entries L))"
    using inv assms(3) by (force simp: started_by_def)
  have w: "0 < ?w"
    using inv with_clock_window_pos [OF assms(1,4)] by simp
  have q: "rs_max_requests (rl_settings L) = rs_max_requests S"
    using inv by (auto simp: with_clock_def Let_def)
  obtain e where "fixed_window (rs_max_requests S) ?w now (dm_get D (rl_entries L) ip) =
      (Inl (LimitExceeded d), e)"
    using check_done [OF assms(1) _ done_cutoff [OF assms(5)] st] inv assms(5) q
    by (metis option.inject outcome.inject(1) surj_pair)
  then have full: "rs_max_requests S \<le> re_count ?l" and d: "d = nat (?w - (now - ?s))"
    by (auto simp: fixed_window_def Let_def split: if_splits)
  have "0 < ?w - (now - ?s)" "?s \<le> now"
    using st w by (auto simp: live_entry_def started_by_def split: option.split)
  then have "0 < d" "int d \<le> ?w" "now + int d - ?w = ?s" using d by auto
  moreover have "unat (rs_max_requests S) \<le> accepted_since tr ip ?s"
  proof (cases "rs_max_requests S = 0")
    case False
    then have "0 < re_count ?l" using full by (metis word_gt_0 order.strict_trans2)
    then have "dm_get D (rl_entries L) ip = Some ?l"
      by (auto simp: live_entry_def split: option.splits if_splits)
    then have "unat (re_count ?l) \<le> accepted_since tr ip ?s" using inv by (simp add: counted_def)
    with full show ?thesis by (simp add: word_le_nat_alt)
  qed simp
  ultimately show ?thesis by simp
qed

text \<open>A limiter in use, for the examples: two requests per 60, then a third.\<close>

definition sample_trace :: check_trace where
  "sample_trace = [(client_b, 90, Inr ()), (client_a, 100, Inr ()), (client_a, 110, Inr ())]"

lemma sample_served:
  "served sample_chrono assoc_dash_map sample_settings 110 sample_limiter sample_trace"
proof -
  let ?C = sample_chrono and ?D = assoc_dash_map and ?S = sample_settings
  note ev = Let_def word_le_nat_alt check_inner_def prune_stale_def account_def enforce_capacity_def evict_loop.simps
    eviction_candidate_def oldest_key_excluding_def record_entry_count_def with_clock_def
    chrono_duration_def sample_settings_def limiter_sample
  have "served ?C ?D ?S 80 (with_clock ?C ?D ?S) []" by (rule served_start)
  from served_check [OF this, of 90 client_b "Inr ()" "sample_limiter\<lparr>rl_entries :=
      [(client_b, \<lparr>window_start = 90, re_count = 1\<rparr>)]\<rparr>"]
  have "served ?C ?D ?S 90 (sample_limiter\<lparr>rl_entries :=
      [(client_b, \<lparr>window_start = 90, re_count = 1\<rparr>)]\<rparr>) [(client_b, 90, Inr ())]"
    by (simp add: ev)
  from served_check [OF this, of 100 client_a "Inr ()" "sample_limiter\<lparr>rl_entries :=
      [(client_a, \<lparr>window_start = 100, re_count = 1\<rparr>)]\<rparr>"]
  have "served ?C ?D ?S 100 (sample_limiter\<lparr>rl_entries :=
      [(client_a, \<lparr>window_start = 100, re_count = 1\<rparr>)]\<rparr>)
      [(client_b, 90, Inr ()), (client_a, 100, Inr ())]"
    by (simp add: ev)
  from served_check [OF this, of 110 client_a "Inr ()" sample_limiter]
  show ?thesis by (simp add: ev sample_trace_def)
qed

lemma served_invariant_witness:
  "rl_gauge sample_limiter = dm_len assoc_dash_map (rl_entries sample_limiter) \<and>
   dm_len assoc_dash_map (rl_entries sample_limiter) \<le> 1"
  using served_invariant [OF sample_limiter_ok(1) sample_served] by (simp add: sample_settings_def)

lemma refusal_justified_witness:
  "2 \<le> accepted_since sample_trace client_a 100"
proof -
  have "\<exists>L'. check_inner sample_chrono assoc_dash_map sample_limiter client_a 120 =
      Some (Done (Inl (LimitExceeded 40)) L')"
    by (simp add: Let_def check_inner_def prune_stale_def account_def enforce_capacity_def limiter_sample)
  then show ?thesis
    using refusal_justified [OF sample_limiter_ok(1) sample_served, of 120 client_a 40]
    by (auto simp: sample_settings_def sample_limiter_def)
qed

subsection \<open>Every client against its own windows\<close>

lemma live_entry_pruned_later:
  "now \<le> now' \<Longrightarrow> live_entry w now' (pruned (now - w) A k) = live_entry w now' (A k)"
  by (auto simp: live_entry_def pruned_def split: option.split)

lemma run_refines:
  assumes env: "limiter_env C D"
  shows "limiter_wf L \<Longrightarrow> sorted (t # map snd arrivals) \<Longrightarrow>
    started_by t (dm_get D (rl_entries L)) \<Longrightarrow>
    \<forall>now \<in> snd ` set arrivals. ch_instant_sub C now (rl_window L) \<noteq> None \<Longrightarrow>
    finite I \<Longrightarrow> fst ` set arrivals \<union> dom (dm_get D (rl_entries L)) \<subseteq> I \<Longrightarrow>
    card I \<le> unat (rs_max_entries (rl_settings L)) \<Longrightarrow>
    \<forall>k now. t \<le> now \<longrightarrow> live_entry (rl_window L) now (dm_get D (rl_entries L) k) =
      live_entry (rl_window L) now (\<sigma> k) \<Longrightarrow>
    \<exists>tr L'. run_checks C D L arrivals = Some (tr, L') \<and>
      (\<forall>k. verdicts_of tr k =
        client_run (rs_max_requests (rl_settings L)) (rl_window L) (\<sigma> k) (arrivals_of arrivals k))"
proof (induction arrivals arbitrary: L t \<sigma>)
  case Nil
  then show ?case by (simp add: verdicts_of_def arrivals_of_def)
next
  case (Cons x arrivals)
  obtain ip now where x: "x = (ip, now)" by (cases x)
  let ?A = "dm_get D (rl_entries L)" and ?w = "rl_window L" and ?q = "rs_max_requests (rl_settings L)"
  have now: "t \<le> now" using Cons.prems(2) x by simp
  have st: "started_by now ?A" using Cons.prems(3) now by (force simp: started_by_def)
  have co: "cutoff_ok C L now" using Cons.prems(4) x by (simp add: cutoff_ok_def)
  obtain r e where fw: "fixed_window ?q ?w now (?A ip) = (r, e)" by fastforce
  have fw': "fixed_window ?q ?w now (\<sigma> ip) = (r, e)"
    using fw fixed_window_live [of ?w now "?A ip" "\<sigma> ip" ?q] Cons.prems(8) now by simp
  have "insert ip (dom (pruned (now - ?w) ?A)) \<subseteq> I"
    using Cons.prems(6) x by (auto simp: pruned_Some)
  then have "card (insert ip (dom (pruned (now - ?w) ?A))) \<le> unat (rs_max_entries (rl_settings L))"
    using card_mono [OF Cons.prems(5)] Cons.prems(7) by (meson le_trans)
  then obtain L1 where L1: "check_inner C D L ip now = Some (Done r L1)"
    "rl_settings L1 = rl_settings L" "rl_window L1 = ?w"
    "dm_get D (rl_entries L1) = (pruned (now - ?w) ?A)(ip \<mapsto> e)"
    using check_done [OF env Cons.prems(1) co st fw] by metis
  note keeps = check_keeps [OF env Cons.prems(1) co st L1(1)]
  have "\<exists>tr L'. run_checks C D L1 arrivals = Some (tr, L') \<and>
      (\<forall>k. verdicts_of tr k = client_run (rs_max_requests (rl_settings L1)) (rl_window L1)
        ((\<sigma>(ip \<mapsto> e)) k) (arrivals_of arrivals k))"
  proof (rule Cons.IH [OF keeps(1) _ keeps(2)])
    show "sorted (now # map snd arrivals)" using Cons.prems(2) x by simp
    show "\<forall>now \<in> snd ` set arrivals. ch_instant_sub C now (rl_window L1) \<noteq> None"
      using Cons.prems(4) L1(3) by simp
    show "finite I" by (rule Cons.prems(5))
    show "fst ` set arrivals \<union> dom (dm_get D (rl_entries L1)) \<subseteq> I"
      using Cons.prems(6) x by (auto simp: L1(4) pruned_Some)
    show "card I \<le> unat (rs_max_entries (rl_settings L1))" using Cons.prems(7) L1(2) by simp
    show "\<forall>k now'. now \<le> now' \<longrightarrow> live_entry (rl_window L1) now' (dm_get D (rl_entries L1) k) =
        live_entry (rl_window L1) now' ((\<sigma>(ip \<mapsto> e)) k)"
      using Cons.prems(8) now by (simp add: L1(3,4) live_entry_pruned_later)
  qed
  then obtain tr L' where IH: "run_checks C D L1 arrivals = Some (tr, L')"
    "\<And>k. verdicts_of tr k = client_run ?q ?w ((\<sigma>(ip \<mapsto> e)) k) (arrivals_of arrivals k)"
    using L1(2,3) by auto
  have "verdicts_of ((ip, now, r) # tr) k = client_run ?q ?w (\<sigma> k) (arrivals_of (x # arrivals) k)" for k
    using IH(2) [of k] fw' x by (cases "k = ip") (simp_all add: verdicts_of_def arrivals_of_def)
  then show ?case using L1(1) IH(1) x by simp
qed

lemma limiter_runs_each:
  assumes "limiter_env C D" and "sorted (map snd arrivals)"
    and "card (fst ` set arrivals) \<le> max 1 (unat (rs_max_entries S))"
    and "\<forall>now \<in> snd ` set arrivals. cutoff_ok C (with_clock C D S) now"
  shows "\<exists>tr L. run_checks C D (with_clock C D S) arrivals = Some (tr, L) \<and>
    (\<forall>ip. verdicts_of tr ip =
      client_run (rs_max_requests S) (rl_window (with_clock C D S)) None (arrivals_of arrivals ip))"
proof -
  let ?L = "with_clock C D S"
  obtain t where t: "sorted (t # map snd arrivals)"
    using assms(2) by (cases arrivals) (auto intro!: exI [of _ "snd (hd arrivals)"])
  note new = with_clock_window [OF assms(1), of S]
  then have none: "dm_get D (rl_entries ?L) = (\<lambda>_. None)" by auto
  have "\<exists>tr L'. run_checks C D ?L arrivals = Some (tr, L') \<and>
      (\<forall>k. verdicts_of tr k = client_run (rs_max_requests (rl_settings ?L)) (rl_window ?L)
        ((\<lambda>_. None) k) (arrivals_of arrivals k))"
    by (rule run_refines [OF assms(1) _ t, of _ "fst ` set arrivals"])
      (use new assms(3,4) in \<open>auto simp: none started_by_def cutoff_ok_def\<close>)
  then show ?thesis using new by simp
qed

text \<open>
  C4: As long as no more clients arrive than the map has room for, a limiter serves every
  sequence of arrivals to its end, and gives each client the verdicts of its own fixed windows:
  they depend on that client's arrivals alone.
\<close>

theorem limiter_per_client:
  assumes "limiter_env C D" and "sorted (map snd arrivals)"
    and "card (fst ` set arrivals) \<le> max 1 (unat (rs_max_entries S))"
    and "\<forall>now \<in> snd ` set arrivals. cutoff_ok C (with_clock C D S) now"
  shows "\<exists>tr L. run_checks C D (with_clock C D S) arrivals = Some (tr, L) \<and>
    (\<forall>ip. verdicts_of tr ip =
      client_run (rs_max_requests S) (rl_window (with_clock C D S)) None (arrivals_of arrivals ip))"
  using assms by (rule limiter_runs_each)

subsection \<open>What the quota bounds\<close>

lemma client_run_times: "map fst (client_run q w eo ts) = ts"
  by (induction ts arbitrary: eo) (simp_all add: split_def Let_def)

lemma accepted_in_Cons:
  "accepted_in a b ((t, r) # vs) = (if a \<le> t \<and> t < b \<and> r = Inr () then 1 else 0) + accepted_in a b vs"
  by (simp add: accepted_in_def)

lemma accepted_in_late:
  assumes "\<forall>t \<in> set ts. b \<le> t"
  shows "accepted_in a b (client_run q w eo ts) = 0"
  using assms
proof (induction ts arbitrary: eo)
  case (Cons t ts)
  then show ?case by (simp add: accepted_in_Cons split_def Let_def)
qed (simp add: accepted_in_def)

lemma fixed_window_in:
  "t - window_start e < w \<Longrightarrow> fixed_window q w t (Some e) =
     (if q \<le> re_count e then (Inl (LimitExceeded (nat (w - (t - window_start e)))), e)
      else (Inr (), e\<lparr>re_count := re_count e + 1\<rparr>))"
  by (simp add: fixed_window_def live_entry_def)

lemma fixed_window_out:
  "(\<And>e. eo = Some e \<Longrightarrow> w \<le> t - window_start e) \<Longrightarrow> fixed_window q w t eo =
     (if q = 0 then (Inl (LimitExceeded (nat w)), \<lparr>window_start = t, re_count = 0\<rparr>)
      else (Inr (), \<lparr>window_start = t, re_count = 1\<rparr>))"
  by (auto simp: fixed_window_def live_entry_def split: option.split)

text \<open>Within one window the quota that is left bounds what is accepted.\<close>

lemma accepted_one_window:
  "sorted ts \<Longrightarrow> b \<le> window_start e + w \<Longrightarrow> re_count e \<le> q \<Longrightarrow>
     accepted_in a b (client_run q w (Some e) ts) \<le> unat q - unat (re_count e)"
proof (induction ts arbitrary: e)
  case (Cons t ts)
  show ?case
  proof (cases "t < b")
    case False
    then have "\<forall>s \<in> set (t # ts). b \<le> s" using Cons.prems(1) by auto
    then show ?thesis using accepted_in_late by (metis le0)
  next
    case True
    then have fw: "t - window_start e < w" using Cons.prems(2) by simp
    show ?thesis
    proof (cases "q \<le> re_count e")
      case True
      then show ?thesis using Cons.IH [of e] Cons.prems by (simp add: fixed_window_in [OF fw] accepted_in_Cons)
    next
      case False
      then have less: "re_count e < q" by simp
      have "accepted_in a b (client_run q w (Some (e\<lparr>re_count := re_count e + 1\<rparr>)) ts)
          \<le> unat q - Suc (unat (re_count e))"
        using Cons.IH [of "e\<lparr>re_count := re_count e + 1\<rparr>"] Cons.prems less
        by (simp add: inc_le unat_inc [OF less])
      then show ?thesis using less False
        by (auto simp add: fixed_window_in [OF fw] accepted_in_Cons word_less_nat_alt)
    qed
  qed
qed (simp add: accepted_in_def)

lemma accepted_fresh_window:
  assumes "sorted ts" and "\<forall>t \<in> set ts. a \<le> t"
  shows "accepted_in a (a + w) (client_run q w None ts) \<le> unat q"
proof (cases ts)
  case (Cons t us)
  let ?e = "\<lparr>window_start = t, re_count = if q = 0 then 0 else 1\<rparr>"
  have fw: "fixed_window q w t None = (if q = 0 then Inl (LimitExceeded (nat w)) else Inr (), ?e)"
    using fixed_window_out [of None w t q] by simp
  have "?e = ?e" "re_count ?e \<le> q" by (simp_all add: word_le_nat_alt Suc_le_eq unat_gt_0)
  then have "accepted_in a (a + w) (client_run q w (Some ?e) us) \<le> unat q - unat (re_count ?e)"
    using assms Cons by (intro accepted_one_window) auto
  moreover have "unat q \<ge> 1" if "q \<noteq> 0" using that by (simp add: Suc_le_eq unat_gt_0)
  ultimately show ?thesis by (auto simp: Cons fw accepted_in_Cons)
qed (simp add: accepted_in_def)

lemma accepted_two_windows:
  "sorted ts \<Longrightarrow> \<forall>t \<in> set ts. a \<le> t \<Longrightarrow> re_count e \<le> q \<Longrightarrow>
     accepted_in a (a + w) (client_run q w (Some e) ts) \<le> (unat q - unat (re_count e)) + unat q"
proof (induction ts arbitrary: e)
  case (Cons t ts)
  show ?case
  proof (cases "t - window_start e < w")
    case fw: True
    show ?thesis
    proof (cases "q \<le> re_count e")
      case True
      then show ?thesis using Cons.IH [of e] Cons.prems by (simp add: fixed_window_in [OF fw] accepted_in_Cons)
    next
      case False
      then have less: "re_count e < q" by simp
      have "accepted_in a (a + w) (client_run q w (Some (e\<lparr>re_count := re_count e + 1\<rparr>)) ts)
          \<le> (unat q - Suc (unat (re_count e))) + unat q"
        using Cons.IH [of "e\<lparr>re_count := re_count e + 1\<rparr>"] Cons.prems less
        by (simp add: inc_le unat_inc [OF less])
      then show ?thesis using less False
        by (auto simp add: fixed_window_in [OF fw] accepted_in_Cons word_less_nat_alt)
    qed
  next
    case False
    then have fw: "fixed_window q w t (Some e) = fixed_window q w t None"
      by (simp add: fixed_window_def live_entry_def)
    show ?thesis
      using accepted_fresh_window [of "t # ts" a w q] Cons.prems by (simp add: fw)
  qed
qed (simp add: accepted_in_def)

lemma client_budget:
  "sorted ts \<Longrightarrow> (\<And>e. eo = Some e \<Longrightarrow> re_count e \<le> q \<and> (q = 0 \<or> 0 < re_count e)) \<Longrightarrow>
     accepted_in a (a + w) (client_run q w eo ts) \<le> 2 * unat q - 1"
proof (induction ts arbitrary: eo)
  case (Cons t ts)
  show ?case
  proof (cases "a \<le> t")
    case False
    obtain r e where fw: "fixed_window q w t eo = (r, e)" by fastforce
    have "re_count e \<le> q" "q = 0 \<or> 0 < re_count e"
      using fixed_window_count [of eo q w t] fixed_window_busy [of q w t eo] Cons.prems(2) fw
      by (auto simp: word_gt_0)
    then show ?thesis using Cons.IH [of "Some e"] Cons.prems(1) False by (simp add: fw accepted_in_Cons)
  next
    case True
    then have late: "\<forall>s \<in> set (t # ts). a \<le> s" using Cons.prems(1) by auto
    show ?thesis
    proof (cases eo)
      case None
      then show ?thesis using accepted_fresh_window [OF Cons.prems(1) late, where w = w and q = q] by simp
    next
      case (Some e)
      have "q = 0 \<or> 0 < unat (re_count e)" using Cons.prems(2) [OF Some] by (simp add: unat_gt_0 word_gt_0)
      then show ?thesis
        using accepted_two_windows [OF Cons.prems(1) late, where w = w and q = q and e = e] Cons.prems(2) [OF Some] Some
        by (auto simp: word_le_nat_alt)
    qed
  qed
qed (simp add: accepted_in_def)

lemma run_budget:
  assumes "limiter_env C D" and "sorted (map snd arrivals)"
    and "card (fst ` set arrivals) \<le> max 1 (unat (rs_max_entries S))"
    and "\<forall>now \<in> snd ` set arrivals. cutoff_ok C (with_clock C D S) now"
  shows "\<exists>tr L. run_checks C D (with_clock C D S) arrivals = Some (tr, L) \<and>
    (\<forall>ip a. accepted_in a (a + rl_window (with_clock C D S)) (verdicts_of tr ip)
       \<le> 2 * unat (rs_max_requests S) - 1)"
proof -
  have "sorted (arrivals_of arrivals ip)" for ip
    using assms(2) unfolding arrivals_of_def by (induction arrivals) auto
  then have "accepted_in a (a + w) (client_run q w None (arrivals_of arrivals ip)) \<le> 2 * unat q - 1" for a w q ip
    by (rule client_budget) simp
  then show ?thesis using limiter_runs_each [OF assms] by metis
qed

text \<open>
  As long as no more clients arrive than the map has room for, no client has more than
  \<open>2 * max_requests - 1\<close> requests accepted in any span of time of the window's length.
\<close>

lemma accepted_in_any_span:
  assumes "limiter_env C D" and "sorted (map snd arrivals)"
    and "card (fst ` set arrivals) \<le> max 1 (unat (rs_max_entries S))"
    and "\<forall>now \<in> snd ` set arrivals. cutoff_ok C (with_clock C D S) now"
  shows "\<exists>tr L. run_checks C D (with_clock C D S) arrivals = Some (tr, L) \<and>
    (\<forall>ip a. accepted_in a (a + rl_window (with_clock C D S)) (verdicts_of tr ip)
       \<le> 2 * unat (rs_max_requests S) - 1)"
  using assms by (rule run_budget)

definition burst :: "(ip_addr \<times> instant) list" where
  "burst = [(client_a, 100), (client_a, 159), (client_a, 160), (client_a, 161)]"

lemma burst_client_run:
  "client_run 2 60 None (arrivals_of burst client_a) =
     [(100, Inr ()), (159, Inr ()), (160, Inr ()), (161, Inr ())]"
  by (simp add: burst_def arrivals_of_def fixed_window_def live_entry_def Let_def word_le_nat_alt)

lemma burst_ok:
  "sorted (map snd burst)" "card (fst ` set burst) \<le> max 1 (unat (rs_max_entries sample_settings))"
  "\<forall>now \<in> snd ` set burst. cutoff_ok sample_chrono (with_clock sample_chrono assoc_dash_map sample_settings) now"
  "rl_window (with_clock sample_chrono assoc_dash_map sample_settings) = 60"
  "rs_max_requests sample_settings = 2"
  by (simp_all add: burst_def sample_settings_def cutoff_ok_def with_clock_def chrono_duration_def
      Let_def limiter_sample)







lemma limiter_per_client_witness:
  "\<exists>tr L. run_checks sample_chrono assoc_dash_map
      (with_clock sample_chrono assoc_dash_map sample_settings) burst = Some (tr, L) \<and>
    verdicts_of tr client_a = [(100, Inr ()), (159, Inr ()), (160, Inr ()), (161, Inr ())]"
  using limiter_per_client [OF sample_limiter_ok(1) burst_ok(1-3)] burst_client_run
  by (auto simp: burst_ok(4,5))

lemma accepted_in_any_span_witness:
  "\<exists>tr L. run_checks sample_chrono assoc_dash_map
      (with_clock sample_chrono assoc_dash_map sample_settings) burst = Some (tr, L) \<and>
    accepted_in 159 219 (verdicts_of tr client_a) \<le> 3"
  using accepted_in_any_span [OF sample_limiter_ok(1) burst_ok(1-3)]
  by (auto simp: burst_ok(4,5) dest!: spec [of _ client_a] dest!: spec [of _ 159])

subsection \<open>Coming back after a refusal\<close>

definition expires_by :: "instant \<Rightarrow> duration \<Rightarrow> rate_entry option \<Rightarrow> bool" where
  "expires_by t w eo \<longleftrightarrow> (\<forall>e. eo = Some e \<longrightarrow> window_start e + w \<le> t)"

lemma others_keep_expiry:
  assumes env: "limiter_env C D"
  shows "limiter_wf L \<Longrightarrow> sorted (t # map snd arrivals) \<Longrightarrow>
    started_by t (dm_get D (rl_entries L)) \<Longrightarrow> ip \<notin> fst ` set arrivals \<Longrightarrow>
    expires_by u (rl_window L) (dm_get D (rl_entries L) ip) \<Longrightarrow>
    run_checks C D L arrivals = Some (tr, L') \<Longrightarrow>
    limiter_wf L' \<and> rl_settings L' = rl_settings L \<and> rl_window L' = rl_window L \<and>
    started_by (last (t # map snd arrivals)) (dm_get D (rl_entries L')) \<and>
    expires_by u (rl_window L') (dm_get D (rl_entries L') ip)"
proof (induction arrivals arbitrary: L t tr)
  case (Cons x arrivals)
  obtain k now where x: "x = (k, now)" by (cases x)
  from Cons.prems(6) obtain r L1 tr1 where L1: "check_inner C D L k now = Some (Done r L1)"
    "run_checks C D L1 arrivals = Some (tr1, L')"
    by (auto simp: x split: option.splits outcome.splits)
  have st: "started_by now (dm_get D (rl_entries L))"
    using Cons.prems(2,3) x by (force simp: started_by_def)
  note co = done_cutoff [OF L1(1)]
  note keeps = check_keeps [OF env Cons.prems(1) co st L1(1)]
  obtain v e where fw: "fixed_window (rs_max_requests (rl_settings L)) (rl_window L) now
      (dm_get D (rl_entries L) k) = (v, e)" by fastforce
  have ev: "evicts_oldest k ((pruned (now - rl_window L) (dm_get D (rl_entries L)))(k \<mapsto> e))
      (dm_get D (rl_entries L1))"
    using check_done [OF env Cons.prems(1) co st fw] L1(1) by (metis option.inject outcome.inject(1))
  have "k \<noteq> ip" using Cons.prems(4) x by auto
  then have "expires_by u (rl_window L1) (dm_get D (rl_entries L1) ip)"
    using Cons.prems(5) keeps(4) by (auto simp: expires_by_def pruned_Some dest!: evicts_oldest_le [OF ev])
  then show ?case
    using Cons.IH [OF keeps(1) _ keeps(2) _ _ L1(2)] Cons.prems(2,4) keeps(3,4) x by auto
qed simp

text \<open>
  C20: A client that is refused and asked to wait for \<open>d\<close> is accepted by its next check if that
  comes at least \<open>d\<close> later, whatever other clients do in between.
\<close>

theorem retry_after_wait:
  assumes "limiter_env C D" and "limiter_wf L" and "started_by now (dm_get D (rl_entries L))"
    and "check_inner C D L ip now = Some (Done (Inl (LimitExceeded d)) L1)"
    and "run_checks C D L1 arrivals = Some (tr, L2)" and "ip \<notin> fst ` set arrivals"
    and "sorted (now # map snd arrivals @ [t])" and "now + int d \<le> t"
    and "cutoff_ok C L2 t" and "0 < rs_max_requests (rl_settings L)"
  shows "\<exists>L3. check_inner C D L2 ip t = Some (Done (Inr ()) L3)"
proof -
  note co = done_cutoff [OF assms(4)]
  note keeps = check_keeps [OF assms(1,2) co assms(3,4)]
  let ?l = "live_entry (rl_window L) now (dm_get D (rl_entries L) ip)"
  obtain v e where fw: "fixed_window (rs_max_requests (rl_settings L)) (rl_window L) now
      (dm_get D (rl_entries L) ip) = (v, e)" by fastforce
  obtain "v = Inl (LimitExceeded d)" and
    ev: "evicts_oldest ip ((pruned (now - rl_window L) (dm_get D (rl_entries L)))(ip \<mapsto> e))
      (dm_get D (rl_entries L1))"
    using check_done [OF assms(1,2) co assms(3) fw] assms(4) by (metis option.inject outcome.inject(1))
  then have "d = nat (rl_window L - (now - window_start ?l))" "e = ?l"
    using fw by (auto simp: fixed_window_def Let_def split: if_splits)
  then have "expires_by t (rl_window L1) (dm_get D (rl_entries L1) ip)"
    using assms(8) keeps(4)
    by (auto simp: expires_by_def split: if_splits dest!: evicts_oldest_le [OF ev])
  then have L2: "limiter_wf L2" "rl_settings L2 = rl_settings L"
    "started_by (last (now # map snd arrivals)) (dm_get D (rl_entries L2))"
    "expires_by t (rl_window L2) (dm_get D (rl_entries L2) ip)"
    using others_keep_expiry [OF assms(1) keeps(1) _ keeps(2) assms(6) _ assms(5), of t] assms(7) keeps(3)
    by (auto simp: sorted_append)
  have "last (now # map snd arrivals) \<le> t"
    using assms(7) last_in_set [of "now # map snd arrivals"] by (auto simp: sorted_append simp del: last.simps)
  then have st: "started_by t (dm_get D (rl_entries L2))"
    using L2(3) by (fastforce simp: started_by_def simp del: last.simps)
  have "fst (fixed_window (rs_max_requests (rl_settings L2)) (rl_window L2) t (dm_get D (rl_entries L2) ip)) = Inr ()"
    using L2(2,4) assms(10) by (subst fixed_window_out) (auto simp: expires_by_def)
  then show ?thesis
    using check_done [OF assms(1) L2(1) assms(9) st] by (metis fst_conv surj_pair)
qed

lemma retry_after_wait_witness:
  "\<exists>L2 L3. run_checks sample_chrono assoc_dash_map sample_limiter [(client_a, 120), (client_a, 130)] =
      Some ([(client_a, 120, Inl (LimitExceeded 40)), (client_a, 130, Inl (LimitExceeded 30))], L2) \<and>
    check_inner sample_chrono assoc_dash_map L2 client_a 160 = Some (Done (Inr ()) L3)"
proof -
  have a: "check_inner sample_chrono assoc_dash_map sample_limiter client_a 120 =
      Some (Done (Inl (LimitExceeded 40)) sample_limiter)"
    and b: "check_inner sample_chrono assoc_dash_map sample_limiter client_a 130 =
      Some (Done (Inl (LimitExceeded 30)) sample_limiter)"
    by (simp_all add: Let_def check_inner_def prune_stale_def account_def enforce_capacity_def
        record_entry_count_def limiter_sample)
  have "\<exists>L3. check_inner sample_chrono assoc_dash_map sample_limiter client_a 160 = Some (Done (Inr ()) L3)"
    by (rule retry_after_wait [OF sample_limiter_ok(1,2) sample_limiter_ok(4) b, where arrivals = "[]" and tr = "[]"])
      (simp_all add: sample_limiter_ok(3), simp add: sample_limiter_def)
  then show ?thesis using a b by auto
qed

end
