(* ===== verification/Accept_Loop.thy ===== *)
theory Accept_Loop
  imports Server Limiter_Runs
begin

section \<open>The accept loop and its tasks (src/server.rs)\<close>

text \<open>
  \<open>FingerServer::run\<close>: a loop that accepts connections and spawns a task for each, until
  \<open>accept\<close> fails, which ends the server with that error.  Tasks run in any order and interleave
  with the loop; what a task shares with others is the limiter, which it uses once, so a task is
  one step here, logged with the time of its check.  A task that panics ends alone.  The clock of
  the server is taken not to go back from one check to the next.  Interleavings inside the limiter
  are the subject of \<open>Limiter_Threads\<close>.
\<close>

subsection \<open>State and steps\<close>

type_synonym served_log = "(ip_addr \<times> instant \<times> action list) list"

record ('d, 'e) server_state =
  sv_limiter :: "'d rate_limiter"
  sv_clock :: instant
  sv_tasks :: "('e socket_ops \<times> socket_addr) list"
  sv_log :: served_log
  sv_result :: "'e cause anyhow option"

definition server_init ::
  "chrono_ops \<Rightarrow> 'd dash_map_ops \<Rightarrow> rate_limit_settings \<Rightarrow> instant \<Rightarrow> ('d, 'e) server_state" where
  "server_init C D S t =
     \<lparr>sv_limiter = with_clock C D S, sv_clock = t, sv_tasks = [], sv_log = [], sv_result = None\<rparr>"

text \<open>
  What \<open>run\<close> does before its loop: binding the listener, with the \<open>Display\<close> of an address as
  \<open>show_addr\<close>.  \<open>t\<close> is a time at or before the first check.
\<close>

definition run_start ::
  "(socket_addr \<Rightarrow> 'e + unit) \<Rightarrow> (socket_addr \<Rightarrow> str) \<Rightarrow> 's server_config \<Rightarrow> 'd rate_limiter \<Rightarrow> instant \<Rightarrow>
   'e cause anyhow + ('d, 'e) server_state" where
  "run_start bind show_addr cfg L t =
     and_then (map_err (\<lambda>e. Wrapped (lit ''failed to bind '' @ show_addr (cfg_listen cfg)) (Io e))
                (bind (cfg_listen cfg)))
       (\<lambda>listener. Inr \<lparr>sv_limiter = L, sv_clock = t, sv_tasks = [], sv_log = [], sv_result = None\<rparr>)"

lemma run_start_init:
  "run_start bind show_addr cfg (with_clock C D S) t = Inr s \<Longrightarrow> s = server_init C D S t"
  by (auto simp: run_start_def server_init_def result_iff)

definition remove_task :: "nat \<Rightarrow> 'a list \<Rightarrow> 'a list" where
  "remove_task i tasks = take i tasks @ drop (Suc i) tasks"

text \<open>
  One turn of the loop, by what \<open>accept\<close> gives: a connection gets a task of its own; an error leaves
  the loop through the question mark and is what \<open>run\<close> returns.
\<close>

definition accept_turn ::
  "'e + 'e socket_ops \<times> socket_addr \<Rightarrow> ('e socket_ops \<times> socket_addr) list \<Rightarrow>
   ('e socket_ops \<times> socket_addr) list \<times> 'e cause anyhow option" where
  "accept_turn accepting tasks =
     (case accepting of
        Inl e \<Rightarrow> (tasks, Some (Source (Io e)))
      | Inr (socket, addr) \<Rightarrow> (tasks @ [(socket, addr)], None))"

inductive server_step ::
  "chrono_ops \<Rightarrow> 'd dash_map_ops \<Rightarrow> ('s, 'm, 't, 'b) handler \<Rightarrow>
   ('d, 'e) server_state \<Rightarrow> ('d, 'e) server_state \<Rightarrow> bool"
  for C D H where
  loop_turns:
    "sv_result s = None \<Longrightarrow> accept_turn accepting (sv_tasks s) = (tasks, res) \<Longrightarrow>
     server_step C D H s (s\<lparr>sv_tasks := tasks, sv_result := res\<rparr>)"
| task_served:
    "i < length (sv_tasks s) \<Longrightarrow> sv_tasks s ! i = (K, addr) \<Longrightarrow> sv_clock s \<le> now \<Longrightarrow>
     serve C D H K (sv_limiter s) addr now = Some (Done (r, acts) L) \<Longrightarrow>
     server_step C D H s
       (s\<lparr>sv_limiter := L, sv_clock := now, sv_tasks := remove_task i (sv_tasks s),
          sv_log := sv_log s @ [(sa_ip addr, now, acts)]\<rparr>)"
| task_panicked:
    "i < length (sv_tasks s) \<Longrightarrow> sv_tasks s ! i = (K, addr) \<Longrightarrow> sv_clock s \<le> now \<Longrightarrow>
     serve C D H K (sv_limiter s) addr now = Some (Panic L) \<Longrightarrow>
     server_step C D H s
       (s\<lparr>sv_limiter := L, sv_clock := now, sv_tasks := remove_task i (sv_tasks s)\<rparr>)"

abbreviation server_steps ::
  "chrono_ops \<Rightarrow> 'd dash_map_ops \<Rightarrow> ('s, 'm, 't, 'b) handler \<Rightarrow>
   ('d, 'e) server_state \<Rightarrow> ('d, 'e) server_state \<Rightarrow> bool" where
  "server_steps C D H \<equiv> (server_step C D H)\<^sup>*\<^sup>*"

inductive_cases server_stepE: "server_step C D H s s'"

lemma accepted: "sv_result s = None \<Longrightarrow> server_step C D H s (s\<lparr>sv_tasks := sv_tasks s @ [(K, addr)]\<rparr>)"
  using loop_turns [of s "Inr (K, addr)"] by (cases s) (auto simp: accept_turn_def)

lemma accept_failed: "sv_result s = None \<Longrightarrow> server_step C D H s (s\<lparr>sv_result := Some (Source (Io e))\<rparr>)"
  using loop_turns [of s "Inl e"] by (cases s) (auto simp: accept_turn_def)

subsection \<open>The limiter of a running server\<close>

lemma served_run:
  "served C D S t L tr \<Longrightarrow>
     run_checks C D (with_clock C D S) (map (\<lambda>(k, u, _). (k, u)) tr) = Some (tr, L) \<and>
     sorted (map snd (map (\<lambda>(k, u, _). (k, u)) tr)) \<and> (\<forall>(_, u, _) \<in> set tr. u \<le> t)"
proof (induction rule: served.induct)
  case (served_check t L tr now ip r L')
  have "run_checks C D L0 xs = Some (tr0, L) \<Longrightarrow>
      run_checks C D L0 (xs @ [(ip, now)]) = Some (tr0 @ [(ip, now, r)], L')" for L0 xs tr0
    using served_check.hyps(3)
  proof (induction xs arbitrary: L0 tr0)
    case (Cons x xs)
    then show ?case by (cases x) (auto split: option.splits outcome.splits)
  qed simp
  moreover have "\<forall>(_, u, _) \<in> set tr. u \<le> now" using served_check by fastforce
  ultimately show ?case using served_check.IH by (auto simp: sorted_append)
qed simp

lemma served_cutoff:
  assumes "limiter_env C D"
  shows "served C D S t L tr \<Longrightarrow> (k, u, r) \<in> set tr \<Longrightarrow> cutoff_ok C (with_clock C D S) u"
proof (induction rule: served.induct)
  case (served_check t L tr now ip v L')
  have "rl_window L = rl_window (with_clock C D S)"
    using served_inv [OF assms served_check.hyps(1)] by simp
  then have "cutoff_ok C (with_clock C D S) now"
    using done_cutoff [OF served_check.hyps(3)] by (simp add: cutoff_ok_def)
  then show ?case using served_check.IH served_check.prems by auto
qed simp

text \<open>The log of the server against the trace of the checks.\<close>

definition is_load :: "action \<Rightarrow> bool" where
  "is_load a = (case a of Load _ _ \<Rightarrow> True | _ \<Rightarrow> False)"

definition logged :: "check_trace \<Rightarrow> served_log \<Rightarrow> bool" where
  "logged tr log = list_all2 (\<lambda>(k, t, v) (k', t', acts). k = k' \<and> t = t' \<and>
     length (filter is_load acts) \<le> (if v = Inr () then 1 else 0)) tr log"

lemma serve_checks:
  assumes "serve C D H K L addr now = Some (Done (r, acts) L')"
  shows "\<exists>v. check_inner C D L (sa_ip addr) now = Some (Done v L') \<and>
    length (filter is_load acts) \<le> (if v = Inr () then 1 else 0)"
  using assms
proof (cases rule: serve_cases)
  case (refused e)
  then show ?thesis by (intro exI [of _ "Inl e"]) (auto simp: is_load_def)
next
  case (unread e)
  then show ?thesis by (intro exI [of _ "Inr ()"]) simp
next
  case (answered raw)
  have "length (filter is_load (lookups H raw)) \<le> 1"
    by (auto simp: lookups_def is_load_def split: sum.split)
  then show ?thesis using answered by (intro exI [of _ "Inr ()"]) (auto simp: is_load_def)
qed

lemma serve_panics:
  "serve C D H K L addr now = Some (Panic L') \<Longrightarrow> check_inner C D L (sa_ip addr) now = Some (Panic L')"
  by (auto simp: serve_def enforce_rate_limit_def Let_def
      split: option.splits outcome.splits sum.splits rate_limit_error.splits)

definition server_inv ::
  "chrono_ops \<Rightarrow> 'd dash_map_ops \<Rightarrow> rate_limit_settings \<Rightarrow> ('d, 'e) server_state \<Rightarrow> bool" where
  "server_inv C D S s \<longleftrightarrow>
     (\<exists>t tr. t \<le> sv_clock s \<and> served C D S t (sv_limiter s) tr \<and> logged tr (sv_log s))"

lemma server_step_inv:
  assumes "limiter_env C D" and "server_step C D H s s'" and "server_inv C D S s"
  shows "server_inv C D S s'"
  using assms(2)
proof (cases rule: server_step.cases)
  case (task_served i K addr now r acts L)
  obtain t tr where inv: "t \<le> sv_clock s" "served C D S t (sv_limiter s) tr" "logged tr (sv_log s)"
    using assms(3) by (auto simp: server_inv_def)
  obtain v where v: "check_inner C D (sv_limiter s) (sa_ip addr) now = Some (Done v L)"
    "length (filter is_load acts) \<le> (if v = Inr () then 1 else 0)"
    using serve_checks [OF task_served(5)] by blast
  have "served C D S now L (tr @ [(sa_ip addr, now, v)])"
    using served_check [OF inv(2) _ v(1)] inv(1) task_served(4) by simp
  moreover have "logged (tr @ [(sa_ip addr, now, v)]) (sv_log s @ [(sa_ip addr, now, acts)])"
    using inv(3) v(2) by (simp add: logged_def list_all2_appendI)
  ultimately show ?thesis using task_served(1) by (auto simp: server_inv_def)
next
  case (task_panicked i K addr now L)
  obtain t tr where inv: "t \<le> sv_clock s" "served C D S t (sv_limiter s) tr" "logged tr (sv_log s)"
    using assms(3) by (auto simp: server_inv_def)
  note reach = served_inv [OF assms(1) inv(2)]
  have "started_by now (dm_get D (rl_entries (sv_limiter s)))"
    using reach inv(1) task_panicked(4) by (force simp: started_by_def)
  then have "L = sv_limiter s"
    using serve_panics [OF task_panicked(5)] check_panics [OF assms(1)] reach by blast
  then show ?thesis
    using inv task_panicked(1,4) by (auto simp: server_inv_def intro: order_trans)
qed (use assms(3) in \<open>auto simp: server_inv_def\<close>)

lemma server_steps_inv:
  assumes "limiter_env C D" and "server_steps C D H (server_init C D S t) s"
  shows "server_inv C D S s"
  using assms(2)
proof (induction rule: rtranclp_induct)
  case base
  show ?case
    using served_start [of C D S t] by (auto simp: server_inv_def server_init_def logged_def)
next
  case (step s s')
  then show ?case using server_step_inv [OF assms(1)] by blast
qed

subsection \<open>Properties of a running server\<close>

definition lookups_in :: "instant \<Rightarrow> instant \<Rightarrow> ip_addr \<Rightarrow> served_log \<Rightarrow> nat" where
  "lookups_in a b ip log =
     sum_list (map (\<lambda>(k, t, acts). if k = ip \<and> a \<le> t \<and> t < b then length (filter is_load acts) else 0) log)"

lemma logged_lookups:
  "logged tr log \<Longrightarrow> lookups_in a b ip log \<le> accepted_in a b (verdicts_of tr ip)"
  unfolding logged_def
proof (induction rule: list_all2_induct)
  case (Cons x tr y log)
  then show ?case
    by (auto simp: lookups_in_def verdicts_of_def accepted_in_Cons split: prod.splits if_splits)
qed (simp add: lookups_in_def)

lemma logged_clients: "logged tr log \<Longrightarrow> fst ` set tr = fst ` set log"
  unfolding logged_def by (induction rule: list_all2_induct) auto

text \<open>
  However the tasks were scheduled, a client causes no more lookups than the limiter accepts of its
  requests in a span of the window's length.
\<close>

lemma lookups_bounded:
  assumes "limiter_env C D" and "server_steps C D H (server_init C D S t) s"
    and "card (fst ` set (sv_log s)) \<le> max 1 (unat (rs_max_entries S))"
  shows "lookups_in a (a + rl_window (with_clock C D S)) ip (sv_log s)
    \<le> 2 * unat (rs_max_requests S) - 1"
proof -
  obtain u tr where tr: "served C D S u (sv_limiter s) tr" "logged tr (sv_log s)"
    using server_steps_inv [OF assms(1,2)] by (auto simp: server_inv_def)
  let ?as = "map (\<lambda>(k, t, _). (k, t)) tr"
  have "fst ` set ?as = fst ` set (sv_log s)"
    using logged_clients [OF tr(2)] by force
  then have "\<exists>tr' L. run_checks C D (with_clock C D S) ?as = Some (tr', L) \<and>
      (\<forall>ip a. accepted_in a (a + rl_window (with_clock C D S)) (verdicts_of tr' ip)
         \<le> 2 * unat (rs_max_requests S) - 1)"
    using served_run [OF tr(1)] served_cutoff [OF assms(1) tr(1)] assms(3)
    by (intro run_budget [OF assms(1)]) (simp_all, force)
  then have "accepted_in a (a + rl_window (with_clock C D S)) (verdicts_of tr ip)
      \<le> 2 * unat (rs_max_requests S) - 1"
    using served_run [OF tr(1)] by auto
  then show ?thesis using logged_lookups [OF tr(2)] le_trans by blast
qed

text \<open>A server that accepts one connection, fails to accept another, and then serves the first.\<close>

definition sample_connection :: "unit socket_ops \<times> socket_addr" where
  "sample_connection = (scripted_socket terse_line Write_done, \<lparr>sa_ip = client_b, sa_port = 4000\<rparr>)"

definition sample_start :: "((ip_addr \<times> rate_entry) list, unit) server_state" where
  "sample_start = server_init sample_chrono assoc_dash_map sample_settings 80"

definition sample_failed :: "((ip_addr \<times> rate_entry) list, unit) server_state" where
  "sample_failed =
     sample_start\<lparr>sv_tasks := [sample_connection], sv_result := Some (Source (Io ()))\<rparr>"

lemma sample_server_fails:
  "server_steps sample_chrono assoc_dash_map (sample_handler sample_objects) sample_start sample_failed"
proof -
  let ?step = "server_step sample_chrono assoc_dash_map (sample_handler sample_objects)"
  have "?step sample_start (sample_start\<lparr>sv_tasks := [sample_connection]\<rparr>)"
    using accepted [of sample_start _ _ _ "fst sample_connection" "snd sample_connection"]
    by (simp add: sample_start_def server_init_def)
  moreover have "?step (sample_start\<lparr>sv_tasks := [sample_connection]\<rparr>) sample_failed"
    using accept_failed [of "sample_start\<lparr>sv_tasks := [sample_connection]\<rparr>" _ _ _ "()"]
    by (simp add: sample_failed_def sample_start_def server_init_def)
  ultimately show ?thesis by (meson converse_rtranclp_into_rtranclp rtranclp.rtrancl_refl)
qed

lemma serve_first_task:
  assumes "limiter_env C D" and "cutoff_ok C (sv_limiter s) now" and "limiter_wf (sv_limiter s)"
    and "started_by now (dm_get D (rl_entries (sv_limiter s)))"
    and "sv_tasks s = (K, addr) # tasks" and "sv_clock s \<le> now"
  shows "\<exists>s' acts. server_step C D H s s' \<and> sv_log s' = sv_log s @ [(sa_ip addr, now, acts)] \<and>
    sv_result s' = sv_result s"
proof -
  obtain r acts L where "serve C D H K (sv_limiter s) addr now = Some (Done (r, acts) L)"
    using serve_ends [OF assms(1,3,2,4)] by metis
  from task_served [OF _ _ assms(6) this, of 0] assms(5)
  have "server_step C D H s (s\<lparr>sv_limiter := L, sv_clock := now, sv_tasks := remove_task 0 (sv_tasks s),
      sv_log := sv_log s @ [(sa_ip addr, now, acts)]\<rparr>)" (is "server_step C D H s ?s") by simp
  then show ?thesis by (intro exI [of _ ?s] exI [of _ acts]) simp
qed

lemma fresh_limiter_empty: "limiter_env C D \<Longrightarrow> started_by now (dm_get D (rl_entries (with_clock C D S)))"
  using with_clock_window [of C D S] by (simp add: started_by_def)

lemma serve_one_connection:
  fixes addr :: socket_addr and K :: "'e socket_ops" and D :: "'d dash_map_ops"
  assumes "limiter_env C D" and "cutoff_ok C (with_clock C D S) now" and "t \<le> now"
  shows "\<exists>s acts. server_steps C D H (server_init C D S t :: ('d, 'e) server_state) s \<and>
    sv_log s = [(sa_ip addr, now, acts)]"
proof -
  let ?s1 = "(server_init C D S t :: ('d, 'e) server_state)\<lparr>sv_tasks := [(K, addr)]\<rparr>"
  have s1: "server_step C D H (server_init C D S t) ?s1"
    using accepted [of "server_init C D S t" C D H K addr] by (simp add: server_init_def)
  have "\<exists>s' acts. server_step C D H ?s1 s' \<and> sv_log s' = sv_log ?s1 @ [(sa_ip addr, now, acts)] \<and>
      sv_result s' = sv_result ?s1"
    using assms limiter_wf_with_clock [OF assms(1), of S] fresh_limiter_empty [OF assms(1), of now S]
    by (intro serve_first_task) (simp_all add: server_init_def)
  then obtain s acts where "server_step C D H ?s1 s" "sv_log s = [(sa_ip addr, now, acts)]"
    by (auto simp: server_init_def)
  with s1 show ?thesis by (meson converse_rtranclp_into_rtranclp r_into_rtranclp)
qed

end
