(* ===== verification/Startup.thy ===== *)
theory Startup
  imports Telemetry Accept_Loop
begin

section \<open>The entry point (src/main.rs)\<close>

text \<open>
  \<open>run\<close> builds everything from the command line, in the order configuration, metrics, store,
  repository, limiter, server, and when the accept loop has ended shuts the metrics endpoint
  down.  \<open>startup\<close> is the part before the accept loop and \<open>finish\<close> the part after it; \<open>metrics_out\<close> is
  what waiting for the task of the endpoint yields.  Parsing the arguments is clap's, and the set-up
  of logging and of the runtime is left out.
\<close>

subsection \<open>Definitions\<close>

definition startup ::
  "'s index_set_ops \<Rightarrow> 'm index_map_ops \<Rightarrow> ('v, 't) toml_ops \<Rightarrow> chrono_ops \<Rightarrow> 'd dash_map_ops \<Rightarrow>
   ('f, 'e) fs_ops \<Rightarrow> ('f \<Rightarrow> str \<Rightarrow> 'e + ('p, 'r, 'b) object_store_ops) \<Rightarrow>
   'e + unit \<Rightarrow> (socket_addr \<Rightarrow> str) \<Rightarrow> (socket_addr \<Rightarrow> 'e + unit) \<Rightarrow> 'f \<Rightarrow> cli_options \<Rightarrow>
   'e anyhow + (('s, 'm, 't, 'b) handler \<times> 'd rate_limiter \<times> 'e endpoint_state option) \<times> 'f" where
  "startup I IM T C D F new_with_prefix recorder show_addr bind fs cli =
     and_then (from_cli I cli) (\<lambda>config.
     and_then (install_metrics recorder show_addr bind (cfg_metrics_listen config)) (\<lambda>metrics_endpoint.
     and_then (build_store F new_with_prefix config fs) (\<lambda>(store, fs1).
       let repository = user_store_new store (cfg_profile_prefix config) (cfg_plan_prefix config);
           limiter = with_clock C D (cfg_rate config);
           server = \<lparr>h_index = I, h_maps = IM, h_config = config, h_load = load_user T IM repository\<rparr>
       in Inr ((server, limiter, metrics_endpoint), fs1))))"

text \<open>The endpoint's \<open>shutdown\<close> fails only if its task was lost.\<close>

definition shutdown_result :: "(str + unit) \<Rightarrow> 'e anyhow + unit" where
  "shutdown_result task = map_err (\<lambda>err. Message (lit ''metrics task join failed: '' @ err)) task"

definition finish :: "(str + unit) option \<Rightarrow> 'e anyhow + unit \<Rightarrow> 'e anyhow + unit" where
  "finish metrics_out result =
     (case metrics_out of
        Some task \<Rightarrow> and_then (shutdown_result task) (\<lambda>_. result)
      | None \<Rightarrow> result)"

subsection \<open>What a started server is\<close>

lemma startup_Inr:
  "startup I IM T C D F new_with_prefix recorder show_addr bind fs cli = Inr ((H, L, metrics), fs1) \<longleftrightarrow>
     (\<exists>cfg store. from_cli I cli = (Inr cfg :: 'e anyhow + _) \<and>
        install_metrics recorder show_addr bind (cfg_metrics_listen cfg) = Inr metrics \<and>
        build_store F new_with_prefix cfg fs = Inr (store, fs1) \<and>
        L = with_clock C D (cfg_rate cfg) \<and>
        H = \<lparr>h_index = I, h_maps = IM, h_config = cfg,
             h_load = load_user T IM (user_store_new store (cfg_profile_prefix cfg) (cfg_plan_prefix cfg))\<rparr>)"
  for recorder :: "'e + unit"
  by (auto simp: startup_def result_iff Let_def)

lemma from_cli_rate:
  assumes "from_cli I cli = Inr cfg"
  shows "cfg_rate cfg = \<lparr>rs_max_requests = max (cli_rate_limit cli) 1,
       rs_window = duration_from_secs (max (cli_rate_window_secs cli) 1),
       rs_max_entries = max (cli_rate_capacity cli) 1\<rparr>"
    and "cfg_max_request_bytes cfg \<le> 4096" and "cfg_metrics_listen cfg = cli_metrics_listen cli"
  using assms
  by (auto simp: from_cli_def result_iff clamp_def min_request_bytes_def max_request_limit_def not_less
      word_le_nat_alt)

text \<open>
  C18: A server that starts meets what the other properties ask for: its limiter is a well-formed new
  one with a positive window and quota, its repository is a user store, its request limit leaves room
  for the byte that tells a line is too long, it serves its own default host, and it has a metrics
  endpoint exactly when an address for one was given.
\<close>

theorem started_server_ready:
  fixes recorder :: "'e + unit"
  assumes "index_set I" and "limiter_env C D"
    and "startup I IM T C D F new_with_prefix recorder show_addr bind fs cli = Inr ((H, L, metrics), fs1)"
  shows "limiter_wf L \<and> 0 < rl_window L \<and> 0 < rs_max_requests (rl_settings L) \<and>
    (\<forall>k. dm_get D (rl_entries L) k = None) \<and> user_store (h_load H) \<and>
    cfg_max_request_bytes (h_config H) \<noteq> - 1 \<and>
    accepts_host (h_index H) (h_config H) (cfg_default_host (h_config H)) \<and>
    (metrics = None \<longleftrightarrow> cli_metrics_listen cli = None)"
proof -
  obtain cfg store where cfg: "from_cli I cli = (Inr cfg :: 'e anyhow + _)"
    and m: "install_metrics recorder show_addr bind (cfg_metrics_listen cfg) = Inr metrics"
    and "build_store F new_with_prefix cfg fs = Inr (store, fs1)"
    and L: "L = with_clock C D (cfg_rate cfg)"
    and H: "H = \<lparr>h_index = I, h_maps = IM, h_config = cfg,
      h_load = load_user T IM (user_store_new store (cfg_profile_prefix cfg) (cfg_plan_prefix cfg))\<rparr>"
    using assms(3) unfolding startup_Inr by blast
  note rate = from_cli_rate [OF cfg]
  note wc = with_clock_window [OF assms(2), of "cfg_rate cfg"]
  have "0 < rs_window (cfg_rate cfg)"
    using max_one_word(3) [of "cli_rate_window_secs cli"]
    by (simp add: rate(1) duration_from_secs_def nanos_per_sec_def)
  then have "0 < rl_window L" unfolding L by (rule with_clock_window_pos [OF assms(2)])
  moreover have "0 < rs_max_requests (rl_settings L)"
  proof -
    have "0 < unat (max (cli_rate_limit cli) 1)"
      using max_one_word(3) [of "cli_rate_limit cli"] by linarith
    then have "0 < max (cli_rate_limit cli) 1" by (simp only: unat_gt_0 word_gt_0)
    then show ?thesis using wc by (simp add: L rate(1))
  qed
  moreover have "cfg_max_request_bytes cfg \<noteq> - 1"
  proof
    assume "cfg_max_request_bytes cfg = - 1"
    moreover have "\<not> (- 1 :: usize) \<le> 4096" by code_simp
    ultimately show False using rate(2) by metis
  qed
  moreover have "accepts_host I cfg (cfg_default_host cfg)"
    using allowed_hosts_exact [OF assms(1) cfg] by blast
  moreover have "metrics = None \<longleftrightarrow> cli_metrics_listen cli = None"
    using m rate(3) by (auto simp: install_metrics_def result_iff split: option.splits)
  ultimately show ?thesis
    using wc by (simp add: L H object_store.user_store_axioms)
qed

text \<open>The limiter of a started server, with the settings of the command line.\<close>

lemma started_limiter:
  assumes "startup I IM T C D F new_with_prefix recorder show_addr bind fs cli = Inr ((H, L, metrics), fs1)"
  shows "L = with_clock C D (cfg_rate (h_config H))"
    and "cfg_rate (h_config H) = \<lparr>rs_max_requests = max (cli_rate_limit cli) 1,
       rs_window = duration_from_secs (max (cli_rate_window_secs cli) 1),
       rs_max_entries = max (cli_rate_capacity cli) 1\<rparr>"
  using assms from_cli_rate(1) unfolding startup_Inr by fastforce+

lemma started_window:
  assumes "limiter_env C D" and "ch_from_std C (duration_from_secs (max (cli_rate_window_secs cli) 1)) \<noteq> None"
    and "startup I IM T C D F new_with_prefix recorder show_addr bind fs cli = Inr ((H, L, metrics), fs1)"
  shows "rl_window L = int (unat (max (cli_rate_window_secs cli) 1)) * 1000000000"
proof -
  let ?S = "cfg_rate (h_config H)"
  note S = started_limiter(2) [OF assms(3)]
  have "rl_window (with_clock C D ?S) = int (rs_window ?S)"
    using with_clock_window [OF assms(1), of ?S] assms(2) by (auto simp: S)
  then show ?thesis
    by (simp add: started_limiter(1) [OF assms(3)] S duration_from_secs_def nanos_per_sec_def)
qed

text \<open>
  C5: The configured rate, from the options to the lookups, for a started server that takes its
  connections one at a time (\<open>server_step\<close>: a connection is one step, and the clock does not go back): with
  a window that chrono can represent, in every state it can reach the checks of a client within any
  \<open>max(rate_window_secs, 1)\<close> seconds have caused at most \<open>2 * max(rate_limit, 1) - 1\<close> lookups, as long
  as it has not served more clients than \<open>max(rate_capacity, 1)\<close>.  The theory \<open>Process\<close> has
  the bound for connections whose checks race.
\<close>

theorem configured_rate_enforced:
  assumes "limiter_env C D"
    and "startup I IM T C D F new_with_prefix recorder show_addr bind fs cli = Inr ((H, L, metrics), fs1)"
    and "ch_from_std C (duration_from_secs (max (cli_rate_window_secs cli) 1)) \<noteq> None"
    and "run_start listen show_listen (h_config H) L t = Inr s0" and "server_steps C D H s0 s"
    and "card (fst ` set (sv_log s)) \<le> unat (max (cli_rate_capacity cli) 1)"
  shows "lookups_in a (a + int (unat (max (cli_rate_window_secs cli) 1)) * 1000000000) ip (sv_log s)
    \<le> 2 * unat (max (cli_rate_limit cli) 1) - 1"
proof -
  note L = started_limiter [OF assms(2)]
  have "s0 = server_init C D (cfg_rate (h_config H)) t"
    using assms(4) L(1) by (auto dest: run_start_init)
  then have steps: "server_steps C D H (server_init C D (cfg_rate (h_config H)) t) s"
    using assms(5) by simp
  have "card (fst ` set (sv_log s)) \<le> max 1 (unat (rs_max_entries (cfg_rate (h_config H))))"
    using assms(6) by (simp add: L(2))
  from lookups_bounded [OF assms(1) steps this, of a ip] show ?thesis
    using started_window [OF assms(1,3,2)] L by simp
qed

text \<open>
  What fails before the accept loop is reported as it is, in the order of the steps: the
  configuration, then the metrics endpoint, then the store, each only when those before it
  succeeded.  A failed shutdown of the endpoint hides the result of the server, which is otherwise
  what \<open>run\<close> returns.
\<close>

lemma startup_failures:
  fixes recorder :: "'e + unit"
  shows "(startup I IM T C D F new_with_prefix recorder show_addr bind fs cli = Inl err \<longleftrightarrow>
     from_cli I cli = (Inl err :: 'e anyhow + _) \<or>
     (\<exists>cfg. from_cli I cli = (Inr cfg :: 'e anyhow + _) \<and>
        (install_metrics recorder show_addr bind (cfg_metrics_listen cfg) = Inl err \<or>
         (\<exists>m. install_metrics recorder show_addr bind (cfg_metrics_listen cfg) = Inr m \<and>
            build_store F new_with_prefix cfg fs = Inl err)))) \<and>
   (finish metrics_out result = Inr () \<longleftrightarrow> result = Inr () \<and> metrics_out \<in> {None, Some (Inr ())})"
proof -
  have "finish metrics_out result = Inr () \<longleftrightarrow> result = Inr () \<and> metrics_out \<in> {None, Some (Inr ())}"
    by (cases metrics_out) (auto simp: finish_def shutdown_result_def result_iff)
  then show ?thesis by (auto simp: startup_def result_iff Let_def split: prod.splits)
qed

text \<open>A server started from \<open>sample_cli\<close>: one request per second, room for one client.\<close>

definition day_chrono :: chrono_ops where "day_chrono = ranged_chrono 86400000000000 0"

definition sample_startup where
  "sample_startup =
     (startup list_index_set assoc_index_map (const_toml sample_table) day_chrono assoc_dash_map
        table_fs (\<lambda>fs p. Inr (sample_store sample_objects)) (Inr ()) (\<lambda>a. []) (\<lambda>a. Inr ()) [] sample_cli ::
      unit anyhow + ((hostname list, (str \<times> str) list, unit, unit) handler \<times>
        (ip_addr \<times> rate_entry) list rate_limiter \<times> unit endpoint_state option) \<times> (str \<times> bool) list)"

lemma sample_startup_succeeds: "\<exists>H L metrics fs1. sample_startup = Inr ((H, L, metrics), fs1)"
proof -
  obtain cfg where cfg: "(from_cli list_index_set sample_cli :: unit anyhow + _) = Inr cfg"
    using sample_config by blast
  have "(install_metrics (Inr ()) (\<lambda>a. []) (\<lambda>a. Inr ()) (cfg_metrics_listen cfg) :: unit anyhow + _) = Inr None"
    using from_cli_rate(3) [OF cfg] by (simp add: install_metrics_def sample_cli_def)
  moreover have "build_store table_fs (\<lambda>fs p. Inr (sample_store sample_objects)) cfg [] =
      Inr (sample_store sample_objects, [(cfg_store_root cfg, True)])"
    by (simp add: build_store_def ensure_directory_def table_fs_def)
  ultimately show ?thesis by (simp add: sample_startup_def startup_def cfg)
qed

lemma day_env: "limiter_env day_chrono assoc_dash_map"
  unfolding day_chrono_def by (rule assoc_env.limiter_env_axioms)

lemma started_server_ready_witness:
  "\<exists>H L metrics fs1. sample_startup = Inr ((H, L, metrics), fs1) \<and> limiter_wf L \<and> metrics = None \<and>
     cfg_max_request_bytes (h_config H) \<noteq> - 1"
proof -
  obtain H L metrics fs1 where s: "sample_startup = Inr ((H, L, metrics), fs1)"
    using sample_startup_succeeds by blast
  from started_server_ready [OF list_set.index_set_axioms day_env s [unfolded sample_startup_def]] s
  show ?thesis by (auto simp: sample_cli_def)
qed

lemma configured_rate_enforced_witness:
  "\<exists>H L metrics fs1 s0 s acts. sample_startup = Inr ((H, L, metrics), fs1) \<and>
     run_start (\<lambda>a. Inr () :: unit + unit) (\<lambda>a. []) (h_config H) L 0 = Inr s0 \<and>
     server_steps day_chrono assoc_dash_map H s0 s \<and>
     sv_log s = [(client_a, 2000000000, acts)] \<and>
     lookups_in 2000000000 3000000000 client_a (sv_log s) \<le> 1"
proof -
  obtain H L metrics fs1 where s: "sample_startup = Inr ((H, L, metrics), fs1)"
    using sample_startup_succeeds by blast
  let ?S = "cfg_rate (h_config H)"
  have rate: "?S = \<lparr>rs_max_requests = 1, rs_window = 1000000000, rs_max_entries = 1\<rparr>"
    using s [unfolded sample_startup_def startup_Inr] from_cli_rate(1) [of list_index_set sample_cli]
    by (fastforce simp: sample_cli_def duration_from_secs_def nanos_per_sec_def)
  have "cutoff_ok day_chrono (with_clock day_chrono assoc_dash_map ?S) 2000000000"
    by (simp add: rate cutoff_ok_def with_clock_def chrono_duration_def Let_def day_chrono_def ranged_chrono_def)
  from serve_one_connection [OF day_env this, where t = 0 and H = H and addr = "\<lparr>sa_ip = client_a, sa_port = 4000\<rparr>"]
  obtain st acts where st: "server_steps day_chrono assoc_dash_map H
      (server_init day_chrono assoc_dash_map ?S 0 :: ((ip_addr \<times> rate_entry) list, unit) server_state) st"
    "sv_log st = [(client_a, 2000000000, acts)]" by auto
  have window: "ch_from_std day_chrono (duration_from_secs (max (cli_rate_window_secs sample_cli) 1)) \<noteq> None"
    by (simp add: sample_cli_def duration_from_secs_def nanos_per_sec_def day_chrono_def ranged_chrono_def)
  have card: "card (fst ` set (sv_log st)) \<le> unat (max (cli_rate_capacity sample_cli) 1)"
    by (simp add: st(2) sample_cli_def)
  have L: "L = with_clock day_chrono assoc_dash_map ?S"
    using s unfolding sample_startup_def startup_Inr by auto
  have start: "run_start (\<lambda>a. Inr () :: unit + unit) (\<lambda>a. []) (h_config H) L 0 =
      Inr (server_init day_chrono assoc_dash_map ?S 0)"
    by (simp add: run_start_def server_init_def L)
  from configured_rate_enforced [OF day_env s [unfolded sample_startup_def] window start st(1) card, of 2000000000 client_a]
  have "lookups_in 2000000000 3000000000 client_a (sv_log st) \<le> 1" by (simp add: sample_cli_def)
  with s st start show ?thesis by blast
qed

end
