(* ===== verification/Options.thy ===== *)
theory Options
  imports Startup
begin

section \<open>The command line (src/config.rs, CliOptions)\<close>

text \<open>
  What \<open>CliOptions::parse\<close> makes of the arguments and the environment.  The code declares for each
  option its flag, its variable and its default; clap takes the first of these that is there and
  parses its text.  Where the text of an option comes from, and the parsers of values, are
  parameters: \<open>arg_source\<close> and \<open>value_parsers\<close>, with the laws of the parsers in the locale
  \<open>option_values\<close>.  Help, version and what clap prints for a refused value are not modelled.
\<close>

record arg_source =
  arg_flag :: "str \<Rightarrow> str option"
  arg_env :: "str \<Rightarrow> str option"

record 'x value_parsers =
  vp_addr :: "str \<Rightarrow> 'x + socket_addr"
  vp_path :: "str \<Rightarrow> 'x + str"
  vp_u32 :: "str \<Rightarrow> 'x + u32"
  vp_u64 :: "str \<Rightarrow> 'x + u64"
  vp_usize :: "str \<Rightarrow> 'x + usize"

subsection \<open>Operations\<close>

definition arg_value :: "arg_source \<Rightarrow> string \<Rightarrow> string \<Rightarrow> str option" where
  "arg_value A flag var =
     (case arg_flag A (lit flag) of Some v \<Rightarrow> Some v | None \<Rightarrow> arg_env A (lit var))"

definition arg_or :: "arg_source \<Rightarrow> string \<Rightarrow> string \<Rightarrow> (str \<Rightarrow> 'x + 'a) \<Rightarrow> str \<Rightarrow> 'x + 'a" where
  "arg_or A flag var parse dflt =
     parse (case arg_value A flag var of Some v \<Rightarrow> v | None \<Rightarrow> dflt)"

definition arg_optional :: "arg_source \<Rightarrow> string \<Rightarrow> string \<Rightarrow> (str \<Rightarrow> 'x + 'a) \<Rightarrow> 'x + 'a option" where
  "arg_optional A flag var parse =
     (case arg_value A flag var of
        Some v \<Rightarrow> and_then (parse v) (\<lambda>x. Inr (Some x))
      | None \<Rightarrow> Inr None)"

definition parse_options :: "'x value_parsers \<Rightarrow> arg_source \<Rightarrow> 'x + cli_options" where
  "parse_options V A =
     and_then (arg_or A ''listen'' ''FINGERMOUSE_LISTEN'' (vp_addr V) (lit ''0.0.0.0:7979'')) (\<lambda>listen.
     and_then (arg_or A ''default-host'' ''FINGERMOUSE_DEFAULT_HOST'' Inr (lit ''localhost'')) (\<lambda>default_host.
     and_then (arg_optional A ''allowed-hosts'' ''FINGERMOUSE_ALLOWED_HOSTS'' Inr) (\<lambda>allowed_hosts.
     and_then (arg_or A ''store-root'' ''FINGERMOUSE_STORE_ROOT'' (vp_path V) (lit ''./data'')) (\<lambda>store_root.
     and_then (arg_or A ''profile-prefix'' ''FINGERMOUSE_PROFILE_PREFIX'' Inr (lit ''profiles'')) (\<lambda>profile_prefix.
     and_then (arg_or A ''plan-prefix'' ''FINGERMOUSE_PLAN_PREFIX'' Inr (lit ''plans'')) (\<lambda>plan_prefix.
     and_then (arg_or A ''rate-limit'' ''FINGERMOUSE_RATE_LIMIT'' (vp_u32 V) (display_nat 30)) (\<lambda>rate_limit.
     and_then (arg_or A ''rate-window-secs'' ''FINGERMOUSE_RATE_WINDOW_SECS'' (vp_u64 V) (display_nat 60)) (\<lambda>rate_window_secs.
     and_then (arg_or A ''rate-capacity'' ''FINGERMOUSE_RATE_CAPACITY'' (vp_usize V) (display_nat 8192)) (\<lambda>rate_capacity.
     and_then (arg_optional A ''metrics-listen'' ''FINGERMOUSE_METRICS_LISTEN'' (vp_addr V)) (\<lambda>metrics_listen.
     and_then (arg_or A ''request-timeout-ms'' ''FINGERMOUSE_REQUEST_TIMEOUT_MS'' (vp_u64 V) (display_nat 3000)) (\<lambda>request_timeout_ms.
     and_then (arg_or A ''max-request-bytes'' ''FINGERMOUSE_MAX_REQUEST_BYTES'' (vp_usize V) (display_nat 512)) (\<lambda>max_request_bytes.
     Inr \<lparr>cli_listen = listen, cli_default_host = default_host, cli_allowed_hosts = allowed_hosts,
          cli_store_root = store_root, cli_profile_prefix = profile_prefix, cli_plan_prefix = plan_prefix,
          cli_rate_limit = rate_limit, cli_rate_window_secs = rate_window_secs,
          cli_rate_capacity = rate_capacity, cli_metrics_listen = metrics_listen,
          cli_request_timeout_ms = request_timeout_ms, cli_max_request_bytes = max_request_bytes\<rparr>))))))))))))"

subsection \<open>The documented behaviour of the parsers\<close>

text \<open>Numbers as they are displayed, addresses as four numbers and a port, paths that are not empty.\<close>

definition display_v4 :: "8 word list \<Rightarrow> 16 word \<Rightarrow> str" where
  "display_v4 octets port =
     join_with (lit ''.'') (map (\<lambda>b. display_nat (unat b)) octets) @ lit '':'' @ display_nat (unat port)"

locale option_values =
  fixes V :: "'x value_parsers"
  assumes u32 [simp]: "vp_u32 V (display_nat (unat n)) = Inr n"
    and u64 [simp]: "vp_u64 V (display_nat (unat m)) = Inr m"
    and usize [simp]: "vp_usize V (display_nat (unat k)) = Inr k"
    and path [simp]: "s \<noteq> [] \<Longrightarrow> vp_path V s = Inr s"
    and addr: "vp_addr V (display_v4 [b1, b2, b3, b4] port) =
      Inr \<lparr>sa_ip = V4 (word_rcat [b1, b2, b3, b4]), sa_port = port\<rparr>"
begin

text \<open>An option without a value on the command line or in the environment has its default.\<close>

lemma parse_options_defaults:
  assumes "\<And>flag. arg_flag A flag = None" and "\<And>var. arg_env A var = None"
  shows "parse_options V A = Inr
    \<lparr>cli_listen = \<lparr>sa_ip = V4 0, sa_port = 7979\<rparr>, cli_default_host = lit ''localhost'',
     cli_allowed_hosts = None, cli_store_root = lit ''./data'', cli_profile_prefix = lit ''profiles'',
     cli_plan_prefix = lit ''plans'', cli_rate_limit = 30, cli_rate_window_secs = 60,
     cli_rate_capacity = 8192, cli_metrics_listen = None, cli_request_timeout_ms = 3000,
     cli_max_request_bytes = 512\<rparr>"
proof -
  have none: "arg_or A flag var p d = p d" "arg_optional A flag var q = Inr None" for flag var p d q
    by (simp_all add: arg_or_def arg_optional_def arg_value_def assms)
  have shown: "lit ''0.0.0.0:7979'' = display_v4 [0, 0, 0, 0] 7979"
    by (simp add: display_v4_def lit_def display_nat.simps)
  have zero: "word_rcat [0, 0, 0, 0 :: 8 word] = (0 :: u32)" by (simp add: word_rcat_def)
  show ?thesis
    using u32 [of 30] u64 [of 60] u64 [of 3000] usize [of 8192] usize [of 512]
      addr [of 0 0 0 0 7979]
    by (simp add: parse_options_def none shown zero) (simp add: lit_def)
qed

end

text \<open>The provider used in examples.\<close>

definition parse_unsigned :: "str \<Rightarrow> unit + 'a::len word" where
  "parse_unsigned s =
     (if s \<noteq> [] \<and> list_all is_digit s \<and> parse_nat s < 2 ^ LENGTH('a) then Inr (of_nat (parse_nat s)) else Inl ())"

definition parse_v4 :: "str \<Rightarrow> unit + socket_addr" where
  "parse_v4 s =
     (case split_on (\<lambda>c. c = 58) s of
        [host, port] \<Rightarrow>
          (case map parse_unsigned (split_on (\<lambda>c. c = 46) host) of
             [Inr b1, Inr b2, Inr b3, Inr b4] \<Rightarrow>
               and_then (parse_unsigned port) (\<lambda>p. Inr \<lparr>sa_ip = V4 (word_rcat [b1, b2, b3, b4 :: 8 word]), sa_port = p\<rparr>)
           | _ \<Rightarrow> Inl ())
      | _ \<Rightarrow> Inl ())"

definition decimal_parsers :: "unit value_parsers" where
  "decimal_parsers =
     \<lparr>vp_addr = parse_v4, vp_path = \<lambda>s. (if s = [] then Inl () else Inr s),
      vp_u32 = parse_unsigned, vp_u64 = parse_unsigned, vp_usize = parse_unsigned\<rparr>"

lemma display_nat_not_Nil [simp]: "display_nat n \<noteq> []"
  by (subst display_nat.simps) simp

lemma parse_unsigned_display [simp]: "parse_unsigned (display_nat (unat n)) = Inr n"
  using display_nat_digits [of _ "unat n"] unsigned_less [of n]
  by (auto simp: parse_unsigned_def parse_display_nat list_all_iff is_digit_def)

lemma parse_v4_display:
  "parse_v4 (display_v4 [b1, b2, b3, b4] port) = Inr \<lparr>sa_ip = V4 (word_rcat [b1, b2, b3, b4]), sa_port = port\<rparr>"
proof -
  let ?d = "\<lambda>b :: 8 word. display_nat (unat b)"
  let ?host = "join_with [46] (map ?d [b1, b2, b3, b4])"
  have digits: "c \<noteq> 46 \<and> c \<noteq> 58" if "c \<in> set (display_nat n)" for c n
    using display_nat_digits [OF that] by auto
  have "split_on (\<lambda>c. c = 58) ?host = [?host]"
    by (rule split_on_none) (use digits in auto)
  moreover have "split_on (\<lambda>c. c = 58) (display_nat (unat port)) = [display_nat (unat port)]"
    by (rule split_on_none) (use digits in auto)
  ultimately have "split_on (\<lambda>c. c = 58) (?host @ 58 # display_nat (unat port)) = [?host, display_nat (unat port)]"
    using split_on_append [of "\<lambda>c. c = 58" 58 ?host] by simp
  moreover have "split_on (\<lambda>c. c = 46) ?host = map ?d [b1, b2, b3, b4]"
    by (rule split_on_join) (use digits in auto)
  moreover have "display_v4 [b1, b2, b3, b4] port = ?host @ 58 # display_nat (unat port)"
    by (simp add: display_v4_def lit_def)
  ultimately show ?thesis by (simp add: parse_v4_def del: join_with.simps)
qed

interpretation decimals: option_values decimal_parsers
  by unfold_locales (simp_all add: decimal_parsers_def parse_v4_display)

subsection \<open>Properties\<close>

text \<open>A flag hides the variable of its option, which hides the default.\<close>

lemma arg_or_precedence:
  "arg_flag A (lit flag) = Some v \<Longrightarrow> arg_or A flag var p d = p v"
  "arg_flag A (lit flag) = None \<Longrightarrow> arg_env A (lit var) = Some v \<Longrightarrow> arg_or A flag var p d = p v"
  "arg_flag A (lit flag) = None \<Longrightarrow> arg_env A (lit var) = None \<Longrightarrow> arg_or A flag var p d = p d"
  by (simp_all add: arg_or_def arg_value_def)

text \<open>
  C24: Without arguments and variables the server has the configuration that the README gives: it
  listens on 0.0.0.0:7979, serves localhost alone, reads \<open>profiles\<close> and \<open>plans\<close> under \<open>./data\<close>,
  allows 30 requests in 60 seconds to each of 8192 clients, serves no metrics, waits 3 seconds for a
  request, and takes requests of at most 512 bytes.
\<close>

theorem default_configuration:
  fixes V :: "'x value_parsers"
  assumes "option_values V" and "index_set I"
    and "\<And>flag. arg_flag A flag = None" and "\<And>var. arg_env A var = None"
  shows "\<exists>cli cfg. parse_options V A = Inr cli \<and> (from_cli I cli :: 'e anyhow + _) = Inr cfg \<and>
    cfg_listen cfg = \<lparr>sa_ip = V4 0, sa_port = 7979\<rparr> \<and>
    cfg_default_host cfg = HostName (lit ''localhost'') \<and>
    (\<forall>h. accepts_host I cfg h \<longleftrightarrow> h = HostName (lit ''localhost'')) \<and>
    cfg_store_root cfg = lit ''./data'' \<and> cfg_profile_prefix cfg = lit ''profiles'' \<and>
    cfg_plan_prefix cfg = lit ''plans'' \<and>
    cfg_rate cfg = \<lparr>rs_max_requests = 30, rs_window = 60 * 1000000000, rs_max_entries = 8192\<rparr> \<and>
    cfg_metrics_listen cfg = None \<and> cfg_request_timeout cfg = 3 * 1000000000 \<and>
    cfg_max_request_bytes cfg = 512"
proof -
  have host: "hostname_parse (lit ''localhost'') = Inr (HostName (lit ''localhost''))"
    by (simp add: text_eval)
  have prefixes: "sanitise_prefix (lit ''profiles'') = lit ''profiles''" "sanitise_prefix (lit ''plans'') = lit ''plans''"
    by (simp_all add: sanitise_prefix_def text_eval)
  show ?thesis
    using assms(2)
    by (simp add: option_values.parse_options_defaults [OF assms(1,3,4)] from_cli_def host prefixes accepts_host_def
        index_set.contains_iter index_set.iter_from duration_from_secs_def duration_from_millis_def nanos_per_sec_def
        clamp_def min_request_bytes_def max_request_limit_def word_less_nat_alt max_def word_le_nat_alt)
qed

lemma default_configuration_witness:
  "\<exists>cli cfg. parse_options decimal_parsers \<lparr>arg_flag = \<lambda>f. None, arg_env = \<lambda>v. None\<rparr> = Inr cli \<and>
     (from_cli list_index_set cli :: unit anyhow + _) = Inr cfg \<and>
     cfg_listen cfg = \<lparr>sa_ip = V4 0, sa_port = 7979\<rparr> \<and> cfg_max_request_bytes cfg = 512"
  using default_configuration [OF decimals.option_values_axioms list_set.index_set_axioms,
      of "\<lparr>arg_flag = \<lambda>f. None, arg_env = \<lambda>v. None\<rparr>"] by fastforce

end
