(* ===== verification/Limiter_Threads.thy ===== *)
theory Limiter_Threads
  imports Rate_Limit
begin

section \<open>Concurrent checks of the rate limiter (src/rate\_limit.rs)\<close>

text \<open>
  The server checks every connection in a task of its own, and the tasks share one limiter.
  \<open>check_step\<close> interleaves checks at the operations of the map: pruning, the block that holds
  the lock of the caller's entry, the length, the search for the oldest entry and the removal in a
  turn of the eviction loop, and the update of the gauge.  The operations are those of
  \<open>Rate_Limit\<close>; a check that runs alone takes the steps of \<open>check_inner\<close>.  Clock readings are
  arbitrary.  The lemmas show that a check can always be finished, that the map exceeds its
  capacity only while checks are evicting, and that racing checks do not lose counts.
\<close>

subsection \<open>Steps\<close>

datatype check_phase =
    Starting
  | Pruned
  | Enforcing "rate_limit_error + unit"
  | Scanning "rate_limit_error + unit"
  | Removing ip_addr "rate_limit_error + unit"
  | Recording "rate_limit_error + unit"
  | Finished "rate_limit_error + unit"
  | Panicked

text \<open>The checks in progress and ended, each with its client and its reading of the clock.\<close>

type_synonym check_thread = "ip_addr \<times> instant \<times> check_phase"
type_synonym 'd limiter_state = "'d rate_limiter \<times> check_thread list"

definition entry_or_fresh :: "'d dash_map_ops \<Rightarrow> 'd \<Rightarrow> ip_addr \<Rightarrow> instant \<Rightarrow> rate_entry" where
  "entry_or_fresh D m ip now =
     (case dm_get D m ip of Some e \<Rightarrow> e | None \<Rightarrow> \<lparr>window_start = now, re_count = 0\<rparr>)"

inductive check_step ::
  "chrono_ops \<Rightarrow> 'd dash_map_ops \<Rightarrow> 'd limiter_state \<Rightarrow> 'd limiter_state \<Rightarrow> bool"
  for C D where
  step_start: "check_step C D (L, ps) (L, ps @ [(ip, now, Starting)])"
| step_prune:
    "i < length ps \<Longrightarrow> ps ! i = (ip, now, Starting) \<Longrightarrow> prune_stale C D L now = Some L' \<Longrightarrow>
     check_step C D (L, ps) (L', ps[i := (ip, now, Pruned)])"
| step_prune_panic:
    "i < length ps \<Longrightarrow> ps ! i = (ip, now, Starting) \<Longrightarrow> prune_stale C D L now = None \<Longrightarrow>
     check_step C D (L, ps) (L, ps[i := (ip, now, Panicked)])"
| step_account:
    "i < length ps \<Longrightarrow> ps ! i = (ip, now, Pruned) \<Longrightarrow>
     account C L now (entry_or_fresh D (rl_entries L) ip now) = (verdict, e) \<Longrightarrow>
     check_step C D (L, ps)
       (L\<lparr>rl_entries := dm_put D (rl_entries L) ip e\<rparr>,
        ps[i := (ip, now, case verdict of Some r \<Rightarrow> Enforcing r | None \<Rightarrow> Panicked)])"
| step_over:
    "i < length ps \<Longrightarrow> ps ! i = (ip, now, Enforcing r) \<Longrightarrow>
     unat (rs_max_entries (rl_settings L)) < dm_len D (rl_entries L) \<Longrightarrow>
     check_step C D (L, ps) (L, ps[i := (ip, now, Scanning r)])"
| step_within:
    "i < length ps \<Longrightarrow> ps ! i = (ip, now, Enforcing r) \<Longrightarrow>
     dm_len D (rl_entries L) \<le> unat (rs_max_entries (rl_settings L)) \<Longrightarrow>
     check_step C D (L, ps) (L, ps[i := (ip, now, Recording r)])"
| step_select:
    "i < length ps \<Longrightarrow> ps ! i = (ip, now, Scanning r) \<Longrightarrow>
     eviction_candidate D (rl_entries L) ip = Some key \<Longrightarrow> key \<noteq> ip \<Longrightarrow>
     check_step C D (L, ps) (L, ps[i := (ip, now, Removing key r)])"
| step_protected:
    "i < length ps \<Longrightarrow> ps ! i = (ip, now, Scanning r) \<Longrightarrow>
     eviction_candidate D (rl_entries L) ip \<in> {None, Some ip} \<Longrightarrow>
     check_step C D (L, ps) (L, ps[i := (ip, now, Recording r)])"
| step_evict:
    "i < length ps \<Longrightarrow> ps ! i = (ip, now, Removing key r) \<Longrightarrow>
     check_step C D (L, ps)
       (L\<lparr>rl_entries := dm_remove D (rl_entries L) key\<rparr>, ps[i := (ip, now, Enforcing r)])"
| step_record:
    "i < length ps \<Longrightarrow> ps ! i = (ip, now, Recording r) \<Longrightarrow>
     check_step C D (L, ps) (record_entry_count D L, ps[i := (ip, now, Finished r)])"

abbreviation check_steps ::
  "chrono_ops \<Rightarrow> 'd dash_map_ops \<Rightarrow> 'd limiter_state \<Rightarrow> 'd limiter_state \<Rightarrow> bool" where
  "check_steps C D \<equiv> (check_step C D)\<^sup>*\<^sup>*"

text \<open>The steps of one check, for proofs that follow it.\<close>

lemma own_steps:
  assumes "i < length ps"
  shows "prune_stale C D L now = Some L' \<Longrightarrow>
      check_step C D (L, ps[i := (ip, now, Starting)]) (L', ps[i := (ip, now, Pruned)])"
    and "prune_stale C D L now = None \<Longrightarrow>
      check_step C D (L, ps[i := (ip, now, Starting)]) (L, ps[i := (ip, now, Panicked)])"
    and "account C L now (entry_or_fresh D (rl_entries L) ip now) = (verdict, e) \<Longrightarrow>
      check_step C D (L, ps[i := (ip, now, Pruned)])
        (L\<lparr>rl_entries := dm_put D (rl_entries L) ip e\<rparr>,
         ps[i := (ip, now, case verdict of Some r \<Rightarrow> Enforcing r | None \<Rightarrow> Panicked)])"
    and "unat (rs_max_entries (rl_settings L)) < dm_len D (rl_entries L) \<Longrightarrow>
      check_step C D (L, ps[i := (ip, now, Enforcing r)]) (L, ps[i := (ip, now, Scanning r)])"
    and "dm_len D (rl_entries L) \<le> unat (rs_max_entries (rl_settings L)) \<Longrightarrow>
      check_step C D (L, ps[i := (ip, now, Enforcing r)]) (L, ps[i := (ip, now, Recording r)])"
    and "eviction_candidate D (rl_entries L) ip = Some key \<Longrightarrow> key \<noteq> ip \<Longrightarrow>
      check_step C D (L, ps[i := (ip, now, Scanning r)]) (L, ps[i := (ip, now, Removing key r)])"
    and "eviction_candidate D (rl_entries L) ip \<in> {None, Some ip} \<Longrightarrow>
      check_step C D (L, ps[i := (ip, now, Scanning r)]) (L, ps[i := (ip, now, Recording r)])"
    and "check_step C D (L, ps[i := (ip, now, Removing key r)])
      (L\<lparr>rl_entries := dm_remove D (rl_entries L) key\<rparr>, ps[i := (ip, now, Enforcing r)])"
    and "check_step C D (L, ps[i := (ip, now, Recording r)])
      (record_entry_count D L, ps[i := (ip, now, Finished r)])"
  by (auto intro: check_step.intros(2-) [where ps = "ps[i := (ip, now, p)]" and i = i and ip = ip and now = now for p,
      unfolded list_update_overwrite length_list_update nth_list_update_eq [OF assms], OF assms refl])

subsection \<open>The eviction loop and a check that runs alone\<close>

lemma evict_steps:
  assumes "i < length ps"
  shows "evict_loop D n ip m = Some m' \<Longrightarrow> n = unat (rs_max_entries (rl_settings L)) \<Longrightarrow>
    check_steps C D (L\<lparr>rl_entries := m\<rparr>, ps[i := (ip, now, Enforcing r)])
      (L\<lparr>rl_entries := m'\<rparr>, ps[i := (ip, now, Recording r)])"
proof (induction rule: evict_loop.raw_induct [rotated, consumes 1, case_names step])
  case (step loop D n ip m m')
  let ?s = "\<lambda>m p. (L\<lparr>rl_entries := m\<rparr>, ps[i := (ip, now, p)])"
  note own = own_steps [OF assms, where L = "L\<lparr>rl_entries := m\<rparr>" and D = D and C = C and ip = ip
      and now = now, simplified]
  consider "dm_len D m \<le> n" | "n < dm_len D m" "eviction_candidate D m ip \<in> {None, Some ip}"
    | key where "n < dm_len D m" "eviction_candidate D m ip = Some key" "key \<noteq> ip"
    by (cases "eviction_candidate D m ip") force+
  then show ?case
  proof cases
    case 1
    then have "m' = m" using step.hyps by auto
    then show ?thesis using own(5) 1 step.prems by auto
  next
    case 2
    then have "m' = m" using step.hyps by auto
    moreover have "check_step C D (?s m (Enforcing r)) (?s m (Scanning r))"
      "check_step C D (?s m (Scanning r)) (?s m (Recording r))"
      using own(4,7) 2 step.prems by simp_all
    ultimately show ?thesis by (meson converse_rtranclp_into_rtranclp r_into_rtranclp)
  next
    case 3
    then have "loop D n ip (dm_remove D m key) = Some m'" using step.hyps by simp
    from step.IH [OF this step.prems]
    have "check_steps C D (?s (dm_remove D m key) (Enforcing r)) (?s m' (Recording r))" .
    moreover have "check_step C D (?s m (Enforcing r)) (?s m (Scanning r))"
      "check_step C D (?s m (Scanning r)) (?s m (Removing key r))"
      "check_step C D (?s m (Removing key r)) (?s (dm_remove D m key) (Enforcing r))"
      using own(4,6,8) 3 step.prems by simp_all
    ultimately show ?thesis by (meson converse_rtranclp_into_rtranclp)
  qed
qed

lemma enforce_steps:
  assumes "i < length ps" and "enforce_capacity D L ip = Some L'"
  shows "check_steps C D (L, ps[i := (ip, now, Enforcing r)])
    (record_entry_count D L', ps[i := (ip, now, Finished r)])"
proof -
  have "check_steps C D (L, ps[i := (ip, now, Enforcing r)]) (L', ps[i := (ip, now, Recording r)])"
  proof (cases "dm_len D (rl_entries L) \<le> unat (rs_max_entries (rl_settings L))")
    case True
    then have "L' = L" using assms(2) by (simp add: enforce_capacity_def Let_def)
    then show ?thesis using own_steps(5) [OF assms(1) True] by auto
  next
    case False
    then obtain m where m: "evict_loop D (unat (rs_max_entries (rl_settings L))) ip (rl_entries L) = Some m"
      and L': "L' = L\<lparr>rl_entries := m\<rparr>"
      using assms(2) by (auto simp: enforce_capacity_def Let_def)
    show ?thesis using evict_steps [OF assms(1) m refl, of C now] by (simp add: L')
  qed
  then show ?thesis using own_steps(9) [OF assms(1)] by (meson rtranclp.rtrancl_into_rtrancl)
qed

lemma started_check_finishes:
  assumes "check_inner C D L ip now = Some (Done r L')"
  shows "check_steps C D (L, ps @ [(ip, now, Starting)]) (L', ps @ [(ip, now, Finished r)])"
proof -
  let ?at = "\<lambda>p. ps @ [(ip, now, p)]"
  obtain L1 where L1: "prune_stale C D L now = Some L1"
    using assms by (auto simp: check_inner_def split: option.splits)
  obtain v e where v: "account C L1 now (entry_or_fresh D (rl_entries L1) ip now) = (v, e)" by fastforce
  define L2 where "L2 = L1\<lparr>rl_entries := dm_put D (rl_entries L1) ip e\<rparr>"
  from assms L1 v obtain L3 where v': "v = Some r" and L3: "enforce_capacity D L2 ip = Some L3"
    and L': "L' = record_entry_count D L3"
    by (auto simp: check_inner_def Let_def entry_or_fresh_def L2_def split: option.splits)
  note own = own_steps [where i = "length ps" and ps = "?at Starting" and ip = ip and now = now, simplified]
  have "check_steps C D (L2, ?at (Enforcing r)) (L', ?at (Finished r))"
    using enforce_steps [where i = "length ps" and ps = "?at Starting", OF _ L3] by (simp add: L')
  moreover have "check_step C D (L, ?at Starting) (L1, ?at Pruned)" by (rule own(1) [OF L1])
  moreover have "check_step C D (L1, ?at Pruned) (L2, ?at (Enforcing r))"
    using own(3) [OF v] v' by (simp add: L2_def)
  ultimately show ?thesis by (meson converse_rtranclp_into_rtranclp)
qed

lemma started_check_panics:
  assumes "check_inner C D L ip now = Some (Panic L')"
  shows "check_steps C D (L, ps @ [(ip, now, Starting)]) (L', ps @ [(ip, now, Panicked)])"
proof -
  let ?at = "\<lambda>p. ps @ [(ip, now, p)]"
  note own = own_steps [where i = "length ps" and ps = "?at Starting" and ip = ip and now = now, simplified]
  show ?thesis
  proof (cases "prune_stale C D L now")
    case None
    then have "L' = L" using assms by (simp add: check_inner_def)
    then show ?thesis using own(2) [OF None] by simp
  next
    case (Some L1)
    obtain v e where v: "account C L1 now (entry_or_fresh D (rl_entries L1) ip now) = (v, e)" by fastforce
    then have "v = None" "L' = L1\<lparr>rl_entries := dm_put D (rl_entries L1) ip e\<rparr>"
      using assms Some by (auto simp: check_inner_def Let_def entry_or_fresh_def split: option.splits)
    then have "check_step C D (L1, ?at Pruned) (L', ?at Panicked)" using own(3) [OF v] by simp
    then show ?thesis
      using own(1) [OF Some] by (meson converse_rtranclp_into_rtranclp r_into_rtranclp)
  qed
qed

text \<open>
  The steps are those of the code: a check that runs alone goes through them to the state and
  the verdict of \<open>check_inner\<close>.
\<close>

lemma check_inner_steps:
  "check_inner C D L ip now = Some (Done r L') \<Longrightarrow>
     check_steps C D (L, ps) (L', ps @ [(ip, now, Finished r)])"
  using started_check_finishes step_start by (rule converse_rtranclp_into_rtranclp [rotated])

lemma check_inner_steps_witness:
  "check_steps sample_chrono assoc_dash_map (sample_limiter, [])
     (sample_limiter, [(client_a, 120, Finished (Inl (LimitExceeded 40)))])"
  by (rule check_inner_steps [where ps = "[]", simplified])
    (simp add: Let_def check_inner_def prune_stale_def account_def enforce_capacity_def
      record_entry_count_def limiter_sample)

subsection \<open>Finishing a check\<close>

text \<open>The verdict of a check that has one.\<close>

fun verdict_of :: "check_phase \<Rightarrow> (rate_limit_error + unit) option" where
  "verdict_of (Enforcing r) = Some r"
| "verdict_of (Scanning r) = Some r"
| "verdict_of (Removing key r) = Some r"
| "verdict_of (Recording r) = Some r"
| "verdict_of (Finished r) = Some r"
| "verdict_of Starting = None"
| "verdict_of Pruned = None"
| "verdict_of Panicked = None"

definition ended :: "check_phase \<Rightarrow> bool" where
  "ended p \<longleftrightarrow> p = Panicked \<or> (\<exists>r. p = Finished r)"

context dash_map
begin

lemma enforcing_finishes:
  assumes "i < length ps"
  shows "\<exists>L'. check_steps C D (L, ps[i := (ip, now, Enforcing r)]) (L', ps[i := (ip, now, Finished r)])"
proof -
  obtain L' where "enforce_capacity D L ip = Some L'"
    using evict_loop_spec [of "unat (rs_max_entries (rl_settings L))" ip "rl_entries L"]
    by (auto simp: enforce_capacity_def Let_def)
  from enforce_steps [OF assms this] show ?thesis by blast
qed

lemma check_finishes:
  assumes "i < length ps" and "ps ! i = (ip, now, p)"
  shows "\<exists>L' p'. check_steps C D (L, ps) (L', ps[i := (ip, now, p')]) \<and> ended p' \<and>
    (\<forall>r. verdict_of p = Some r \<longrightarrow> p' = Finished r)"
proof -
  let ?s = "\<lambda>L p. (L, ps[i := (ip, now, p)])"
  let ?ends = "\<lambda>L p. \<exists>L' p'. check_steps C D (?s L p) (?s L' p') \<and> ended p' \<and>
    (\<forall>r. verdict_of p = Some r \<longrightarrow> p' = Finished r)"
  note own = own_steps [OF assms(1), where ip = ip and now = now and C = C and D = D]
  have later: "?ends L q" if "check_step C D (?s L q) (?s L' q')" "?ends L' q'"
    "verdict_of q \<in> {None, verdict_of q'}" for q q' L L'
    using that by (elim exE conjE) (intro exI conjI, erule (1) converse_rtranclp_into_rtranclp, auto)
  have ended: "?ends L q" if "ended q" for q L
    using that by (intro exI [of _ L] exI [of _ q]) (auto simp: ended_def)
  have enforcing: "?ends L (Enforcing r)" for r L
    using enforcing_finishes [OF assms(1), of C L ip now r] by (auto simp: ended_def)
  have recording: "?ends L (Recording r)" for r L
    by (rule later [OF own(9)]) (auto simp: ended_def)
  have removing: "?ends L (Removing key r)" for key r L
    by (rule later [OF own(8) enforcing]) simp
  have scanning: "?ends L (Scanning r)" for r L
  proof (cases "eviction_candidate D (rl_entries L) ip \<in> {None, Some ip}")
    case True
    show ?thesis by (rule later [OF own(7) [OF True] recording]) simp
  next
    case False
    then obtain key where "eviction_candidate D (rl_entries L) ip = Some key" "key \<noteq> ip" by auto
    from own(6) [OF this] show ?thesis by (rule later [OF _ removing]) simp
  qed
  have pruned: "?ends L Pruned" for L
  proof -
    obtain v e where v: "account C L now (entry_or_fresh D (rl_entries L) ip now) = (v, e)" by fastforce
    show ?thesis
    proof (cases v)
      case None
      then show ?thesis using later [OF own(3) [OF v] ended] by (simp add: ended_def)
    next
      case (Some r)
      then show ?thesis using later [OF own(3) [OF v]] enforcing by simp
    qed
  qed
  have "?ends L Starting"
  proof (cases "prune_stale C D L now")
    case None
    show ?thesis by (rule later [OF own(2) [OF None] ended]) (simp_all add: ended_def)
  next
    case (Some L')
    show ?thesis by (rule later [OF own(1) [OF Some] pruned]) simp
  qed
  then have "?ends L p"
    using pruned enforcing scanning removing recording ended by (cases p) (auto simp: ended_def)
  moreover have "ps[i := (ip, now, p)] = ps" using assms(2) list_update_id by metis
  ultimately show ?thesis by simp
qed

end

text \<open>
  No check gets stuck: in every state, whatever the others have done, a check that has not
  panicked can be finished by steps of its own, and a verdict that was given is the one it
  finishes with.
\<close>

lemma concurrent_check_finishes:
  assumes "dash_map D" and "i < length ps" and "ps ! i = (ip, now, p)"
  shows "\<exists>L' p'. check_steps C D (L, ps) (L', ps[i := (ip, now, p')]) \<and> ended p' \<and>
    (\<forall>r. verdict_of p = Some r \<longrightarrow> p' = Finished r)"
  using dash_map.check_finishes [OF assms] .

subsection \<open>Bounds\<close>

text \<open>
  Checks that have set their entry and have not come to the end of their eviction loop, or never
  will because they panicked.
\<close>

definition is_enforcing :: "check_phase \<Rightarrow> bool" where
  "is_enforcing p =
     (case p of
        Enforcing _ \<Rightarrow> True
      | Scanning _ \<Rightarrow> True
      | Removing _ _ \<Rightarrow> True
      | Panicked \<Rightarrow> True
      | _ \<Rightarrow> False)"

definition enforcing :: "check_thread list \<Rightarrow> nat" where
  "enforcing ps = length (filter (\<lambda>(ip, now, p). is_enforcing p) ps)"

lemma enforcing_update:
  "i < length ps \<Longrightarrow> ps ! i = (ip, now, p) \<Longrightarrow>
     enforcing (ps[i := (ip, now, p')]) + (if is_enforcing p then 1 else 0) =
     enforcing ps + (if is_enforcing p' then 1 else 0)"
  using length_filter_update [where P = "\<lambda>(ip, now, p). is_enforcing p" and x = "(ip, now, p')"]
  by (fastforce simp: enforcing_def)

lemma is_enforcing_simps [simp]:
  "is_enforcing (Enforcing r)" "is_enforcing (Scanning r)" "is_enforcing (Removing key r)"
  "\<not> is_enforcing Starting" "\<not> is_enforcing Pruned"
  "\<not> is_enforcing (Recording r)" "\<not> is_enforcing (Finished r)" "is_enforcing Panicked"
  by (simp_all add: is_enforcing_def)

definition threads_inv :: "'d dash_map_ops \<Rightarrow> 'd limiter_state \<Rightarrow> bool" where
  "threads_inv D s \<longleftrightarrow>
     rs_max_entries (rl_settings (fst s)) \<noteq> 0 \<and>
     dm_len D (rl_entries (fst s)) \<le> unat (rs_max_entries (rl_settings (fst s))) + enforcing (snd s) \<and>
     (\<forall>k e. dm_get D (rl_entries (fst s)) k = Some e \<longrightarrow> re_count e \<le> rs_max_requests (rl_settings (fst s)))"

lemma account_count:
  "account C L now e0 = (v, e) \<Longrightarrow> re_count e0 \<le> rs_max_requests (rl_settings L) \<Longrightarrow>
     re_count e \<le> rs_max_requests (rl_settings L)"
  by (auto simp: account_def Let_def not_le inc_le inc_le [of 0, simplified] split: if_splits option.splits)

context dash_map
begin

lemma len_put: "dm_len D (dm_put D m k e) \<le> Suc (dm_len D m)"
  using finite_dom [of m] by (simp add: len_dom card_insert_if)

lemma len_remove: "dm_len D (dm_remove D m k) \<le> dm_len D m"
  using card_mono [OF finite_dom, of "dom (dm_get D m) - {k}" m] by (auto simp: len_dom)

lemma len_retain: "dm_len D (dm_retain D m P) \<le> dm_len D m"
proof -
  have "dom (dm_get D (dm_retain D m P)) \<subseteq> dom (dm_get D m)"
    by (auto simp: get_retain split: option.splits)
  then show ?thesis using card_mono [OF finite_dom] by (simp add: len_dom)
qed

lemma threads_inv_step:
  assumes "check_step C D s s'" and "threads_inv D s"
  shows "threads_inv D s' \<and> rl_settings (fst s') = rl_settings (fst s)"
  using assms
proof (induction rule: check_step.induct)
  case (step_start L ps ip now)
  then show ?case by (simp add: threads_inv_def enforcing_def)
next
  case (step_prune i ps ip now L L')
  then obtain P where L': "L' = L\<lparr>rl_entries := dm_retain D (rl_entries L) P\<rparr>"
    by (auto simp: prune_stale_def split: option.splits)
  show ?case
    using step_prune.prems len_retain [of "rl_entries L" P] enforcing_update [OF step_prune.hyps(1,2), of Pruned]
    by (auto simp: threads_inv_def L' get_retain split: option.splits if_splits)
next
  case (step_prune_panic i ps ip now L)
  then show ?case using enforcing_update [OF step_prune_panic.hyps(1,2), of Panicked] by (simp add: threads_inv_def)
next
  case (step_account i ps ip now L verdict e)
  have "enforcing (ps[i := (ip, now, case verdict of Some r \<Rightarrow> Enforcing r | None \<Rightarrow> Panicked)]) = Suc (enforcing ps)"
    using enforcing_update [OF step_account.hyps(1,2)] by (simp split: option.split)
  moreover have "re_count e \<le> rs_max_requests (rl_settings L)"
    using account_count [OF step_account.hyps(3)] step_account.prems
    by (auto simp: threads_inv_def entry_or_fresh_def split: option.splits)
  ultimately show ?case
    using step_account.prems len_put [of "rl_entries L" ip e] by (auto simp: threads_inv_def)
next
  case (step_over i ps ip now r L)
  then show ?case using enforcing_update [OF step_over.hyps(1,2), of "Scanning r"] by (simp add: threads_inv_def)
next
  case (step_within i ps ip now r L)
  then show ?case by (auto simp: threads_inv_def)
next
  case (step_select i ps ip now r L key)
  then show ?case using enforcing_update [OF step_select.hyps(1,2), of "Removing key r"] by (simp add: threads_inv_def)
next
  case (step_protected i ps ip now r L)
  then have "dom (dm_get D (rl_entries L)) \<subseteq> {ip}" using candidate_stops by auto
  from card_mono [OF _ this] have "dm_len D (rl_entries L) \<le> 1" by (simp add: len_dom)
  moreover have "1 \<le> unat (rs_max_entries (rl_settings L))"
    using step_protected.prems by (simp add: threads_inv_def unat_gt_0 Suc_le_eq)
  ultimately show ?case using step_protected.prems by (auto simp: threads_inv_def)
next
  case (step_evict i ps ip now key r L)
  then show ?case
    using len_remove [of "rl_entries L" key] enforcing_update [OF step_evict.hyps(1,2), of "Enforcing r"]
    by (auto simp: threads_inv_def)
next
  case (step_record i ps ip now r L)
  then show ?case
    using enforcing_update [OF step_record.hyps(1,2), of "Finished r"]
    by (auto simp: threads_inv_def record_entry_count_def)
qed

lemma threads_inv_steps:
  "check_steps C D s s' \<Longrightarrow> threads_inv D s \<Longrightarrow>
     threads_inv D s' \<and> rl_settings (fst s') = rl_settings (fst s)"
  by (induction rule: rtranclp_induct) (auto dest: threads_inv_step)

lemma threads_inv_init: "threads_inv D (with_clock C D S, [])"
proof -
  have new: "dm_get D (dm_new D) = (\<lambda>_. None)" by auto
  then have "dm_len D (dm_new D) = 0" by (simp add: len_dom)
  then show ?thesis by (simp add: threads_inv_def with_clock_def Let_def new)
qed

end

text \<open>
  C15: However the checks of concurrent connections interleave, no client's counter ever exceeds
  the quota, and the map exceeds its capacity by at most the number of checks that are in their
  eviction loop (or panicked): when all have returned it is within its capacity again.
\<close>

theorem concurrent_checks_bounded:
  assumes "dash_map D" and "check_steps C D (with_clock C D S, []) (L, ps)"
  shows "dm_len D (rl_entries L) \<le> max 1 (unat (rs_max_entries S)) + enforcing ps \<and>
    (\<forall>k e. dm_get D (rl_entries L) k = Some e \<longrightarrow> re_count e \<le> rs_max_requests S)"
proof -
  have "unat (rs_max_entries (rl_settings (with_clock C D S))) = max 1 (unat (rs_max_entries S))"
    "rs_max_requests (rl_settings (with_clock C D S)) = rs_max_requests S"
    by (auto simp: with_clock_def Let_def max_def Suc_le_eq unat_gt_0)
  moreover have "threads_inv D (L, ps) \<and> rl_settings L = rl_settings (with_clock C D S)"
    using dash_map.threads_inv_steps [OF assms dash_map.threads_inv_init [OF assms(1)]] by simp
  ultimately show ?thesis unfolding threads_inv_def fst_conv snd_conv by metis
qed

subsection \<open>Racing checks within one window\<close>

text \<open>Verdicts given to a client: refusals for \<^term>\<open>True\<close>, acceptances for \<^term>\<open>False\<close>.\<close>

definition gave :: "bool \<Rightarrow> ip_addr \<Rightarrow> check_thread \<Rightarrow> bool" where
  "gave refused ip x \<longleftrightarrow> fst x = ip \<and> map_option isl (verdict_of (snd (snd x))) = Some refused"

definition verdicts_given :: "bool \<Rightarrow> ip_addr \<Rightarrow> check_thread list \<Rightarrow> nat" where
  "verdicts_given refused ip ps = length (filter (gave refused ip) ps)"

definition arrival :: "check_thread \<Rightarrow> ip_addr \<times> instant" where
  "arrival x = (fst x, fst (snd x))"

definition evicting :: "check_phase \<Rightarrow> bool" where
  "evicting p = (case p of Scanning _ \<Rightarrow> True | Removing _ _ \<Rightarrow> True | _ \<Rightarrow> False)"

lemma verdicts_given_update:
  assumes "i < length ps" and "ps ! i = (ip, now, p)"
  shows "verdicts_given b k (ps[i := (ip, now, p')]) +
      (if k = ip \<and> map_option isl (verdict_of p) = Some b then 1 else 0) =
    verdicts_given b k ps + (if k = ip \<and> map_option isl (verdict_of p') = Some b then 1 else 0)"
proof -
  have g: "gave b k (ip, now, x) \<longleftrightarrow> k = ip \<and> map_option isl (verdict_of x) = Some b" for x
    by (auto simp: gave_def)
  show ?thesis
    using length_filter_update [OF assms(1), of "gave b k" "(ip, now, p')"]
    unfolding verdicts_given_def assms(2) g .
qed

lemma verdicts_given_same:
  "i < length ps \<Longrightarrow> ps ! i = (ip, now, p) \<Longrightarrow> verdict_of p' = verdict_of p \<Longrightarrow>
     verdicts_given b k (ps[i := (ip, now, p')]) = verdicts_given b k ps"
  by (drule (1) verdicts_given_update [where p' = p']) simp

text \<open>
  The entry of a client against the verdicts it was given, while no entry expires and none is
  evicted: the counter counts the acceptances, and is at the quota once there was a refusal.
\<close>

definition entry_agrees :: "instant \<Rightarrow> u32 \<Rightarrow> check_thread list \<Rightarrow> ip_addr \<Rightarrow> rate_entry option \<Rightarrow> bool" where
  "entry_agrees t0 q ps k eo =
     (case eo of
        None \<Rightarrow> verdicts_given False k ps = 0 \<and> verdicts_given True k ps = 0
      | Some e \<Rightarrow> verdicts_given False k ps = unat (re_count e) \<and> t0 \<le> window_start e \<and>
          re_count e \<le> q \<and> (verdicts_given True k ps \<noteq> 0 \<longrightarrow> re_count e = q))"

definition window_inv ::
  "'d dash_map_ops \<Rightarrow> instant \<Rightarrow> duration \<Rightarrow> rate_limit_settings \<Rightarrow> 'd limiter_state \<Rightarrow> bool" where
  "window_inv D t0 w S s \<longleftrightarrow>
     rl_window (fst s) = w \<and> rl_settings (fst s) = S \<and>
     (\<forall>x \<in> set (snd s). \<not> evicting (snd (snd x))) \<and>
     dom (dm_get D (rl_entries (fst s))) \<subseteq> fst ` set (snd s) \<and>
     (\<forall>k. entry_agrees t0 (rs_max_requests S) (snd s) k (dm_get D (rl_entries (fst s)) k))"

lemma account_within_window:
  assumes "chrono C" and "now < window_start e0 + rl_window L" and "account C L now e0 = (v, e)"
  shows "(if rs_max_requests (rl_settings L) \<le> re_count e0
    then e = e0 \<and> (\<forall>r. v = Some r \<longrightarrow> isl r)
    else v = Some (Inr ()) \<and> e = e0\<lparr>re_count := re_count e0 + 1\<rparr>)"
  using assms(2,3) by (auto simp: account_def Let_def chrono.since [OF assms(1)] split: if_splits option.splits)

lemma entry_agrees_account:
  assumes "chrono C" and "account C L now e0 = (v, e)" and "now < t0 + rl_window L" and "t0 \<le> now"
    and "entry_agrees t0 (rs_max_requests (rl_settings L)) ps ip eo"
    and "e0 = (case eo of Some e \<Rightarrow> e | None \<Rightarrow> \<lparr>window_start = now, re_count = 0\<rparr>)"
    and "i < length ps" and "ps ! i = (ip, now, Pruned)"
  shows "entry_agrees t0 (rs_max_requests (rl_settings L))
    (ps[i := (ip, now, case v of Some r \<Rightarrow> Enforcing r | None \<Rightarrow> Panicked)]) ip (Some e)"
proof -
  let ?q = "rs_max_requests (rl_settings L)"
    and ?p = "case v of Some r \<Rightarrow> Enforcing r | None \<Rightarrow> Panicked"
  have e0: "verdicts_given False ip ps = unat (re_count e0)" "t0 \<le> window_start e0" "re_count e0 \<le> ?q"
    "verdicts_given True ip ps \<noteq> 0 \<longrightarrow> re_count e0 = ?q"
    using assms(4,5,6) by (auto simp: entry_agrees_def split: option.splits)
  then have "now < window_start e0 + rl_window L" using assms(3) by linarith
  note acc = account_within_window [OF assms(1) this assms(2)]
  note up = verdicts_given_update [OF assms(7,8), where k = ip and p' = ?p]
  show ?thesis
  proof (cases "?q \<le> re_count e0")
    case True
    then have "e = e0" "v = Some r \<Longrightarrow> isl r" "re_count e0 = ?q" for r
      using acc e0(3) by auto
    moreover from this(2) have "verdicts_given False ip (ps[i := (ip, now, ?p)]) = verdicts_given False ip ps"
      using up [of False] by (cases v) auto
    ultimately show ?thesis using e0 by (simp add: entry_agrees_def)
  next
    case False
    then have v: "v = Some (Inr ())" "e = e0\<lparr>re_count := re_count e0 + 1\<rparr>" "re_count e0 < ?q"
      using acc by auto
    then have "unat (re_count e) = Suc (unat (re_count e0))" "re_count e \<le> ?q"
      by (simp_all add: unat_inc inc_le)
    moreover have "verdicts_given True ip ps = 0" using e0(4) v(3) by auto
    ultimately show ?thesis using up [of False] up [of True] e0 v by (simp add: entry_agrees_def)
  qed
qed

lemma entry_agrees_same:
  assumes "i < length ps" and "ps ! i = (ip, now, p)" and "verdict_of p' = verdict_of p \<or> k \<noteq> ip"
  shows "entry_agrees t0 q (ps[i := (ip, now, p')]) k eo \<longleftrightarrow> entry_agrees t0 q ps k eo"
  using verdicts_given_update [OF assms(1,2), of _ k p'] assms(3)
  by (auto simp: entry_agrees_def split: option.split if_splits)

lemma image_set_update:
  assumes "i < length xs" and "f x = f (xs ! i)"
  shows "f ` set (xs[i := x]) = f ` set xs"
proof -
  have "map f (xs[i := x]) = map f xs"
    using assms by (metis list_update_id map_update)
  then show ?thesis by (metis list.set_map)
qed

lemma arrival_update:
  "i < length ps \<Longrightarrow> ps ! i = (ip, now, p) \<Longrightarrow> arrival ` set (ps[i := (ip, now, p')]) = arrival ` set ps"
  by (rule image_set_update) (simp_all add: arrival_def)

lemma verdicts_given_start [simp]:
  "verdicts_given b k (ps @ [(ip, now, Starting)]) = verdicts_given b k ps"
  by (simp add: verdicts_given_def gave_def)

lemma entry_agrees_start [simp]:
  "entry_agrees t0 q (ps @ [(ip, now, Starting)]) k eo \<longleftrightarrow> entry_agrees t0 q ps k eo"
  by (simp add: entry_agrees_def split: option.split)

lemma check_step_threads:
  "check_step C D s s' \<Longrightarrow>
     arrival ` set (snd s) \<subseteq> arrival ` set (snd s')"
  by (induction rule: check_step.induct)
    (auto simp only: arrival_update snd_conv set_append image_Un)

context limiter_env
begin

lemma window_inv_step:
  assumes "check_step C D s s'" and "window_inv D t0 w S s"
    and "\<forall>a \<in> arrival ` set (snd s'). t0 \<le> snd a \<and> snd a < t0 + w"
    and "card (fst ` set (snd s')) \<le> unat (rs_max_entries S)"
  shows "window_inv D t0 w S s'"
proof -
  have keep: "window_inv D t0 w S (L', ps[i := (ip, now, p')])"
    if "window_inv D t0 w S (L, ps)" "i < length ps" "ps ! i = (ip, now, p)" "verdict_of p' = verdict_of p"
      "\<not> evicting p'" "dm_get D (rl_entries L') = dm_get D (rl_entries L)"
      "rl_window L' = rl_window L" "rl_settings L' = rl_settings L" for L L' ps i ip now p p'
    using that set_update_subset_insert [of ps i "(ip, now, p')"]
    by (auto simp: window_inv_def entry_agrees_same image_set_update)
  have quiet: False if "window_inv D t0 w S (L, ps)" "i < length ps" "ps ! i = (ip, now, p)" "evicting p"
    for L ps i ip now p
    using that nth_mem [of i ps] by (auto simp: window_inv_def)
  show ?thesis
    using assms
  proof (induction rule: check_step.induct)
    case (step_start L ps ip now)
    then show ?case
      by (auto simp: window_inv_def evicting_def)
  next
    case (step_prune i ps ip now L L')
    have now: "now < t0 + w"
      using step_prune.prems(2) set_update_memI [OF step_prune.hyps(1)] by (fastforce simp: arrival_def)
    obtain cutoff where L': "L' = L\<lparr>rl_entries := dm_retain D (rl_entries L) (\<lambda>_ e. cutoff \<le> window_start e)\<rparr>"
      and "ch_instant_sub C now (rl_window L) = Some cutoff"
      using step_prune.hyps(3) by (auto simp: prune_stale_def split: option.splits)
    then have "cutoff \<le> t0" using instant_sub now step_prune.prems(1) by (fastforce simp: window_inv_def)
    moreover have "t0 \<le> window_start e" if "dm_get D (rl_entries L) k = Some e" for k e
      using step_prune.prems(1) that by (auto simp: window_inv_def entry_agrees_def dest!: spec [of _ k])
    ultimately have "dm_get D (rl_entries L') = dm_get D (rl_entries L)"
      by (force simp: L' get_retain split: option.splits)
    then show ?case
      by (intro keep [OF step_prune.prems(1) step_prune.hyps(1,2)]) (simp_all add: L' evicting_def)
  next
    case (step_prune_panic i ps ip now L)
    show ?case by (rule keep [OF step_prune_panic.prems(1) step_prune_panic.hyps(1,2)]) (simp_all add: evicting_def)
  next
    case (step_account i ps ip now L verdict e)
    let ?p = "case verdict of Some r \<Rightarrow> Enforcing r | None \<Rightarrow> Panicked"
    have now: "t0 \<le> now" "now < t0 + w"
      using step_account.prems(2) set_update_memI [OF step_account.hyps(1)] by (fastforce simp: arrival_def)+
    have inv: "rl_window L = w" "rl_settings L = S"
      "entry_agrees t0 (rs_max_requests S) ps ip (dm_get D (rl_entries L) ip)"
      using step_account.prems(1) by (simp_all add: window_inv_def)
    have "entry_agrees t0 (rs_max_requests S) (ps[i := (ip, now, ?p)]) ip (Some e)"
      using entry_agrees_account [OF chrono_axioms step_account.hyps(3) _ now(1) _ entry_or_fresh_def
          step_account.hyps(1,2), unfolded inv(1,2), OF now(2) inv(3)] .
    moreover have "ip \<in> fst ` set ps" using step_account.hyps(1,2) by (force dest: nth_mem)
    moreover have "\<not> evicting ?p" by (simp add: evicting_def split: option.split)
    ultimately show ?case
      using step_account.prems(1) step_account.hyps set_update_subset_insert [of ps i "(ip, now, ?p)"]
      by (auto simp: window_inv_def entry_agrees_same image_set_update)
  next
    case (step_over i ps ip now r L)
    have "dm_len D (rl_entries L) \<le> card (fst ` set ps)"
      using step_over.prems(1) by (auto simp: window_inv_def len_dom intro: card_mono)
    then show ?case using step_over by (simp add: window_inv_def image_set_update)
  next
    case (step_within i ps ip now r L)
    show ?case by (rule keep [OF step_within.prems(1) step_within.hyps(1,2)]) (simp_all add: evicting_def)
  next
    case (step_record i ps ip now r L)
    show ?case by (rule keep [OF step_record.prems(1) step_record.hyps(1,2)]) (simp_all add: evicting_def record_entry_count_def)
  qed (use quiet in \<open>fastforce simp: evicting_def\<close>)+
qed

text \<open>Who checks, and when, is never forgotten.\<close>

lemma window_inv_steps:
  assumes "check_steps C D (with_clock C D S, []) s"
    and "\<forall>a \<in> arrival ` set (snd s). t0 \<le> snd a \<and> snd a < t0 + rl_window (with_clock C D S)"
    and "card (fst ` arrival ` set (snd s)) \<le> max 1 (unat (rs_max_entries S))"
  shows "window_inv D t0 (rl_window (with_clock C D S)) (rl_settings (with_clock C D S)) s"
  using assms
proof (induction rule: rtranclp_induct)
  case base
  show ?case using with_clock_window [OF limiter_env_axioms, of S]
    by (auto simp: window_inv_def entry_agrees_def verdicts_given_def)
next
  case (step s s')
  note threads = check_step_threads [OF step.hyps(2)]
  have fst: "fst ` arrival ` set ps = fst ` set ps" for ps :: "check_thread list"
    by (simp add: image_image arrival_def)
  have "card (fst ` arrival ` set (snd s)) \<le>
      card (fst ` arrival ` set (snd s'))"
    using image_mono [OF threads] by (intro card_mono) simp_all
  then have "window_inv D t0 (rl_window (with_clock C D S)) (rl_settings (with_clock C D S)) s"
    using step.prems threads by (intro step.IH) (blast, linarith)
  then show ?case
    using step.prems with_clock_window [OF limiter_env_axioms, of S]
    by (intro window_inv_step [OF step.hyps(2)]) (simp_all add: fst)
qed

end

text \<open>
  C13: Racing checks neither lose nor invent counts: if all the checks that were begun since the limiter
  was made have read the clock within one span of the window's length, and their clients fit the
  capacity, then however they interleave they have accepted at most the quota of a client's requests,
  and exactly the quota if they have refused any.
\<close>

theorem concurrent_quota:
  assumes "limiter_env C D" and "check_steps C D (with_clock C D S, []) (L, ps)"
    and "\<forall>(ip, now, p) \<in> set ps. t0 \<le> now \<and> now < t0 + rl_window (with_clock C D S)"
    and "card (fst ` set ps) \<le> max 1 (unat (rs_max_entries S))"
  shows "verdicts_given False ip ps \<le> unat (rs_max_requests S) \<and>
    (verdicts_given True ip ps \<noteq> 0 \<longrightarrow> verdicts_given False ip ps = unat (rs_max_requests S))"
proof -
  have "\<forall>a \<in> arrival ` set ps. t0 \<le> snd a \<and> snd a < t0 + rl_window (with_clock C D S)"
    using assms(3) by (auto simp: arrival_def)
  moreover have "fst ` arrival ` set ps = fst ` set ps" by (simp add: image_image arrival_def)
  ultimately have "window_inv D t0 (rl_window (with_clock C D S)) (rl_settings (with_clock C D S)) (L, ps)"
    using assms(4) by (intro limiter_env.window_inv_steps [OF assms(1,2)]) simp_all
  then have "entry_agrees t0 (rs_max_requests S) ps ip (dm_get D (rl_entries L) ip)"
    using with_clock_window [OF assms(1), of S] by (simp add: window_inv_def)
  then show ?thesis by (auto simp: entry_agrees_def word_le_nat_alt split: option.splits)
qed

subsection \<open>Examples\<close>

text \<open>
  Two checks at the same time prune before either sets its entry: two new clients exceed the
  capacity of one, and one client uses up its quota of two.
\<close>

definition racing_limiter :: "(ip_addr \<times> rate_entry) list \<Rightarrow> (ip_addr \<times> rate_entry) list rate_limiter" where
  "racing_limiter entries = (with_clock sample_chrono assoc_dash_map sample_settings)\<lparr>rl_entries := entries\<rparr>"

abbreviation counted :: "u32 \<Rightarrow> rate_entry" where
  "counted n \<equiv> \<lparr>window_start = 100, re_count = n\<rparr>"

lemma racing_start:
  "check_steps sample_chrono assoc_dash_map (with_clock sample_chrono assoc_dash_map sample_settings, [])
     (racing_limiter [(client_a, counted 1)], [(client_a, 100, Enforcing (Inr ())), (k, 100, Pruned)])"
proof -
  let ?step = "check_step sample_chrono assoc_dash_map"
  have s0: "with_clock sample_chrono assoc_dash_map sample_settings = racing_limiter []"
    by (simp add: racing_limiter_def with_clock_def Let_def limiter_sample)
  have prune: "prune_stale sample_chrono assoc_dash_map (racing_limiter []) 100 = Some (racing_limiter [])"
    by (simp add: racing_limiter_def prune_stale_def with_clock_def chrono_duration_def Let_def
        sample_settings_def limiter_sample)
  have account: "account sample_chrono (racing_limiter []) 100
      (entry_or_fresh assoc_dash_map (rl_entries (racing_limiter [])) client_a 100) = (Some (Inr ()), counted 1)"
    by (simp add: racing_limiter_def account_def entry_or_fresh_def with_clock_def chrono_duration_def Let_def
        sample_settings_def word_le_nat_alt limiter_sample)
  have "?step (racing_limiter [], []) (racing_limiter [], [(client_a, 100, Starting)])"
    using step_start [of _ _ _ "[]"] by simp
  moreover have "?step (racing_limiter [], [(client_a, 100, Starting)])
      (racing_limiter [], [(client_a, 100, Starting), (k, 100, Starting)])"
    using step_start [of _ _ _ "[(client_a, 100, Starting)]"] by simp
  moreover have "?step (racing_limiter [], [(client_a, 100, Starting), (k, 100, Starting)])
      (racing_limiter [], [(client_a, 100, Pruned), (k, 100, Starting)])"
    using step_prune [of 0 "[(client_a, 100, Starting), (k, 100, Starting)]", OF _ _ prune] by simp
  moreover have "?step (racing_limiter [], [(client_a, 100, Pruned), (k, 100, Starting)])
      (racing_limiter [], [(client_a, 100, Pruned), (k, 100, Pruned)])"
    using step_prune [of 1 "[(client_a, 100, Pruned), (k, 100, Starting)]", OF _ _ prune] by simp
  moreover have "?step (racing_limiter [], [(client_a, 100, Pruned), (k, 100, Pruned)])
      (racing_limiter [(client_a, counted 1)], [(client_a, 100, Enforcing (Inr ())), (k, 100, Pruned)])"
    using step_account [of 0 "[(client_a, 100, Pruned), (k, 100, Pruned)]", OF _ _ account]
    by (simp add: racing_limiter_def assoc_dash_map_def with_clock_def Let_def)
  ultimately show ?thesis unfolding s0
    by (meson converse_rtranclp_into_rtranclp rtranclp.rtrancl_refl)
qed

lemma racing_steps:
  "check_steps sample_chrono assoc_dash_map (with_clock sample_chrono assoc_dash_map sample_settings, [])
     (racing_limiter [(client_a, counted 1), (client_b, counted 1)],
      [(client_a, 100, Enforcing (Inr ())), (client_b, 100, Enforcing (Inr ()))])"
  "check_steps sample_chrono assoc_dash_map (with_clock sample_chrono assoc_dash_map sample_settings, [])
     (racing_limiter [(client_a, counted 2)],
      [(client_a, 100, Enforcing (Inr ())), (client_a, 100, Enforcing (Inr ()))])"
proof -
  let ?L = "racing_limiter [(client_a, counted 1)]"
    and ?ps = "\<lambda>k. [(client_a, 100, Enforcing (Inr ())), (k, 100, Pruned)]"
  have "account sample_chrono ?L 100 (entry_or_fresh assoc_dash_map (rl_entries ?L) client_b 100) =
      (Some (Inr ()), counted 1)"
    and "account sample_chrono ?L 100 (entry_or_fresh assoc_dash_map (rl_entries ?L) client_a 100) =
      (Some (Inr ()), counted 2)"
    by (simp_all add: racing_limiter_def account_def entry_or_fresh_def with_clock_def chrono_duration_def
        Let_def sample_settings_def word_le_nat_alt limiter_sample)
  note accounts = this
  have "check_step sample_chrono assoc_dash_map (?L, ?ps client_b)
     (racing_limiter [(client_a, counted 1), (client_b, counted 1)],
      [(client_a, 100, Enforcing (Inr ())), (client_b, 100, Enforcing (Inr ()))])"
    using step_account [of 1 "?ps client_b", OF _ _ accounts(1)]
    by (simp add: racing_limiter_def assoc_dash_map_def with_clock_def Let_def client_a_def client_b_def)
  with racing_start show "check_steps sample_chrono assoc_dash_map
     (with_clock sample_chrono assoc_dash_map sample_settings, [])
     (racing_limiter [(client_a, counted 1), (client_b, counted 1)],
      [(client_a, 100, Enforcing (Inr ())), (client_b, 100, Enforcing (Inr ()))])"
    by (rule rtranclp.rtrancl_into_rtrancl)
  have "check_step sample_chrono assoc_dash_map (?L, ?ps client_a)
     (racing_limiter [(client_a, counted 2)],
      [(client_a, 100, Enforcing (Inr ())), (client_a, 100, Enforcing (Inr ()))])"
    using step_account [of 1 "?ps client_a", OF _ _ accounts(2)]
    by (simp add: racing_limiter_def assoc_dash_map_def with_clock_def Let_def)
  with racing_start show "check_steps sample_chrono assoc_dash_map
     (with_clock sample_chrono assoc_dash_map sample_settings, [])
     (racing_limiter [(client_a, counted 2)],
      [(client_a, 100, Enforcing (Inr ())), (client_a, 100, Enforcing (Inr ()))])"
    by (rule rtranclp.rtrancl_into_rtrancl)
qed

lemma concurrent_checks_bounded_witness:
  "dm_len assoc_dash_map [(client_a, counted 1), (client_b, counted 1)] \<le>
     1 + enforcing [(client_a, 100, Enforcing (Inr ())), (client_b, 100, Enforcing (Inr ()))]"
  using concurrent_checks_bounded [OF assoc_env.dash_map_axioms racing_steps(1)]
  by (simp add: racing_limiter_def sample_settings_def)

lemma concurrent_quota_witness:
  "verdicts_given False client_a
     [(client_a, 100, Enforcing (Inr ())), (client_a, 100, Enforcing (Inr ()))] \<le> 2"
proof -
  have "rl_window (with_clock sample_chrono assoc_dash_map sample_settings) = 60"
    by (simp add: with_clock_def chrono_duration_def Let_def sample_settings_def limiter_sample)
  then show ?thesis
    using concurrent_quota [OF sample_limiter_ok(1) racing_steps(2), of 100 client_a]
    by (simp add: sample_settings_def)
qed

lemma concurrent_check_finishes_witness:
  "\<exists>L' p'. check_steps sample_chrono assoc_dash_map
      (racing_limiter [(client_a, counted 1), (client_b, counted 1)],
       [(client_a, 100, Enforcing (Inr ())), (client_b, 100, Enforcing (Inr ()))])
      (L', [(client_a, 100, p'), (client_b, 100, Enforcing (Inr ()))]) \<and> p' = Finished (Inr ())"
  using concurrent_check_finishes [OF assoc_env.dash_map_axioms, of 0
      "[(client_a, 100, Enforcing (Inr ())), (client_b, 100, Enforcing (Inr ()))]" client_a 100 "Enforcing (Inr ())"]
  by auto

end
