(* ===== verification/Limiter_Skew.thy ===== *)
theory Limiter_Skew
  imports Limiter_Threads Limiter_Runs
begin

section \<open>The quota under concurrent checks (src/rate\_limit.rs)\<close>

text \<open>
  Concurrent checks read the clock before they use the map, so that the map sees their readings out
  of order.  \<open>skewed_run\<close> is a run of \<open>check_step\<close> in which no reading that is used lags more than
  \<open>lag\<close> behind the latest one used before; it collects the verdicts in the order in which they are
  given.  The quota then still bounds what is accepted in any span of a window's length, by three
  windows instead of the two of checks in order.
\<close>

subsection \<open>Runs with lagging readings\<close>

text \<open>The verdict a thread is given in a step, and the reading it uses in it.\<close>

definition thread_verdict :: "check_thread \<Rightarrow> check_thread \<Rightarrow> check_trace" where
  "thread_verdict x y =
     (case (verdict_of (snd (snd x)), verdict_of (snd (snd y))) of
        (None, Some r) \<Rightarrow> [(fst x, fst (snd x), r)]
      | _ \<Rightarrow> [])"

definition thread_reading :: "check_thread \<Rightarrow> check_thread \<Rightarrow> instant list" where
  "thread_reading x y = (if x \<noteq> y \<and> snd (snd x) \<in> {Starting, Pruned} then [fst (snd x)] else [])"

definition step_verdicts :: "check_thread list \<Rightarrow> check_thread list \<Rightarrow> check_trace" where
  "step_verdicts ps ps' = concat (map2 thread_verdict ps ps')"

definition step_readings :: "check_thread list \<Rightarrow> check_thread list \<Rightarrow> instant list" where
  "step_readings ps ps' = concat (map2 thread_reading ps ps')"

inductive skewed_run ::
  "chrono_ops \<Rightarrow> 'd dash_map_ops \<Rightarrow> rate_limit_settings \<Rightarrow> duration \<Rightarrow> instant \<Rightarrow> 'd limiter_state \<Rightarrow>
   check_trace \<Rightarrow> bool"
  for C D S lag where
  skewed_start: "skewed_run C D S lag t (with_clock C D S, []) []"
| skewed_step:
    "skewed_run C D S lag t s tr \<Longrightarrow> check_step C D s s' \<Longrightarrow>
     \<forall>now \<in> set (step_readings (snd s) (snd s')). t - lag \<le> now \<Longrightarrow>
     skewed_run C D S lag (foldl max t (step_readings (snd s) (snd s'))) s'
       (tr @ step_verdicts (snd s) (snd s'))"

lemma concat_map2_update:
  assumes "\<And>x. f x x = []" and "i < length xs"
  shows "concat (map2 f xs (xs[i := y])) = f (xs ! i) y"
  using assms(2)
proof (induction xs arbitrary: i)
  case (Cons x xs)
  have same: "concat (map2 f ys ys) = []" for ys by (induction ys) (simp_all add: assms(1))
  show ?case using Cons by (cases i) (simp_all add: same assms(1))
qed simp

lemma concat_map2_append:
  assumes "\<And>x. f x x = []"
  shows "concat (map2 f xs (xs @ ys)) = []"
  by (induction xs) (simp_all add: assms)

lemma step_verdicts_simps [simp]:
  "step_verdicts ps (ps @ qs) = []"
  "i < length ps \<Longrightarrow> step_verdicts ps (ps[i := y]) = thread_verdict (ps ! i) y"
  by (simp_all add: step_verdicts_def concat_map2_append concat_map2_update thread_verdict_def split: option.split)

lemma step_readings_simps [simp]:
  "step_readings ps (ps @ qs) = []"
  "i < length ps \<Longrightarrow> step_readings ps (ps[i := y]) = thread_reading (ps ! i) y"
  by (simp_all add: step_readings_def concat_map2_append concat_map2_update thread_reading_def)

lemma skewed_run_steps: "skewed_run C D S lag t s tr \<Longrightarrow> check_steps C D (with_clock C D S, []) s"
  by (induction rule: skewed_run.induct) (auto intro: rtranclp.rtrancl_into_rtrancl)

subsection \<open>The budget of a span\<close>

text \<open>
  How many acceptances in the span from \<open>a\<close> to \<open>a + w\<close> there can be, given when the last window of
  the client started and how much of it is used: windows start at least \<open>w - lag\<close> apart, so at most
  three of them reach into the span.
\<close>

definition span_budget ::
  "instant \<Rightarrow> duration \<Rightarrow> duration \<Rightarrow> nat \<Rightarrow> instant option \<Rightarrow> nat \<Rightarrow> nat \<Rightarrow> bool" where
  "span_budget a w lag q start used n \<longleftrightarrow>
     (case start of
        None \<Rightarrow> n = 0
      | Some s \<Rightarrow> 1 \<le> used \<and> used \<le> q \<and>
          (s \<le> a - w \<longrightarrow> n = 0) \<and>
          (s < a - lag \<longrightarrow> n \<le> used - 1) \<and>
          (s < a + w - 2 * lag \<longrightarrow> n \<le> q - 1 + used) \<and>
          (s < a + w + lag \<longrightarrow> n \<le> 2 * q - 1 + used) \<and>
          n \<le> 3 * q - 1)"

lemma span_budget_bound: "span_budget a w lag q start used n \<Longrightarrow> n \<le> 3 * q - 1"
  by (auto simp: span_budget_def split: option.splits)

lemma span_budget_same_window:
  assumes "span_budget a w lag q (Some s) used n" and "used < q" and "s - lag \<le> now" and "now < s + w"
    and "0 \<le> lag"
  shows "span_budget a w lag q (Some s) (Suc used) (n + (if a \<le> now \<and> now < a + w then 1 else 0))"
  using assms by (auto simp: span_budget_def)

lemma span_budget_new_window:
  assumes "span_budget a w lag q start used n" and "\<And>s. start = Some s \<Longrightarrow> s + w - lag \<le> now"
    and "1 \<le> q" and "0 \<le> lag" and "4 * lag \<le> w"
  shows "span_budget a w lag q (Some now) 1 (n + (if a \<le> now \<and> now < a + w then 1 else 0))"
proof (cases start)
  case None
  then show ?thesis using assms by (auto simp: span_budget_def)
next
  case (Some s)
  then have "s + w - lag \<le> now" using assms(2) by simp
  with assms(1,3-5) Some show ?thesis by (auto simp: span_budget_def)
qed

subsection \<open>Each client along a run\<close>

definition client_inv ::
  "instant \<Rightarrow> duration \<Rightarrow> duration \<Rightarrow> nat \<Rightarrow> instant \<Rightarrow> rate_entry option \<Rightarrow> nat \<Rightarrow> bool" where
  "client_inv a w lag q t eo n \<longleftrightarrow>
     (\<exists>start used. span_budget a w lag q start used n \<and> (\<forall>s. start = Some s \<longrightarrow> s \<le> t) \<and>
        (case eo of
           Some e \<Rightarrow> start = Some (window_start e) \<and> used = unat (re_count e)
         | None \<Rightarrow> \<forall>s. start = Some s \<longrightarrow> s + w < t))"

lemma client_inv_later: "client_inv a w lag q t eo n \<Longrightarrow> t \<le> t' \<Longrightarrow> client_inv a w lag q t' eo n"
  unfolding client_inv_def by (elim exE) (intro exI, fastforce split: option.splits)

lemma client_inv_drop:
  "client_inv a w lag q t (Some e) n \<Longrightarrow> window_start e + w < t' \<Longrightarrow> t \<le> t' \<Longrightarrow> client_inv a w lag q t' None n"
  unfolding client_inv_def by (elim exE) (intro exI, force)

lemma client_inv_account:
  assumes "chrono C" and "account C L now (case eo of Some e \<Rightarrow> e | None \<Rightarrow> \<lparr>window_start = now, re_count = 0\<rparr>) = (v, e)"
    and "client_inv a (rl_window L) lag (unat (rs_max_requests (rl_settings L))) t eo n" and "t - lag \<le> now"
    and "0 < rs_max_requests (rl_settings L)" and "0 \<le> lag" and "4 * lag \<le> rl_window L" and "0 < rl_window L"
  shows "client_inv a (rl_window L) lag (unat (rs_max_requests (rl_settings L))) (max t now) (Some e)
    (n + (if v = Some (Inr ()) \<and> a \<le> now \<and> now < a + rl_window L then 1 else 0))"
proof -
  let ?w = "rl_window L" and ?q = "rs_max_requests (rl_settings L)"
  note since = chrono.since [OF assms(1)]
  obtain start used where b: "span_budget a ?w lag (unat ?q) start used n" "\<And>s. start = Some s \<Longrightarrow> s \<le> t"
    and eo: "case eo of Some e \<Rightarrow> start = Some (window_start e) \<and> used = unat (re_count e)
      | None \<Rightarrow> \<forall>s. start = Some s \<longrightarrow> s + ?w < t"
    using assms(3) by (auto simp: client_inv_def)
  have q: "1 \<le> unat ?q" using assms(5) by (simp add: unat_gt_0 word_gt_0 Suc_le_eq)
  have starts: "account C L now e0 = (Some (Inr ()), \<lparr>window_start = now, re_count = 1\<rparr>)"
    if "?w \<le> now - window_start e0 \<or> e0 = \<lparr>window_start = now, re_count = 0\<rparr>" for e0
    using that assms(5,8) by (auto simp: account_def Let_def since word_gt_0)
  consider (live) e0 where "eo = Some e0" "now - window_start e0 < ?w"
    | (fresh) "v = Some (Inr ())" "e = \<lparr>window_start = now, re_count = 1\<rparr>" "\<And>s. start = Some s \<Longrightarrow> s + ?w - lag \<le> now"
  proof (cases eo)
    case None
    then have "v = Some (Inr ())" "e = \<lparr>window_start = now, re_count = 1\<rparr>"
      using assms(2) starts [of "\<lparr>window_start = now, re_count = 0\<rparr>"] by auto
    then show thesis using that(2) None eo assms(4) by fastforce
  next
    case (Some e0)
    show thesis
    proof (cases "now - window_start e0 < ?w")
      case True
      then show thesis using that(1) Some by blast
    next
      case False
      then have "v = Some (Inr ())" "e = \<lparr>window_start = now, re_count = 1\<rparr>"
        using assms(2) starts [of e0] Some by auto
      then show thesis using that(2) Some eo False assms(6) by fastforce
    qed
  qed
  then show ?thesis
  proof cases
    case fresh
    have "span_budget a ?w lag (unat ?q) (Some now) 1 (n + (if a \<le> now \<and> now < a + ?w then 1 else 0))"
      using span_budget_new_window [OF b(1) fresh(3) q assms(6,7)] .
    then show ?thesis
      using fresh(1,2) unfolding client_inv_def by (intro exI [of _ "Some now"] exI [of _ 1]) simp
  next
    case live
    then have s: "start = Some (window_start e0)" "used = unat (re_count e0)" using eo by simp_all
    have acc: "if ?q \<le> re_count e0 then e = e0 \<and> (\<forall>r. v = Some r \<longrightarrow> isl r)
        else v = Some (Inr ()) \<and> e = e0\<lparr>re_count := re_count e0 + 1\<rparr>"
      using account_within_window [OF assms(1), of now e0 L v e] assms(2) live by simp
    show ?thesis
    proof (cases "?q \<le> re_count e0")
      case True
      then have "e = e0" "v \<noteq> Some (Inr ())" using acc by auto
      then show ?thesis using assms(3) live(1) by (auto intro: client_inv_later)
    next
      case False
      then have e: "v = Some (Inr ())" "e = e0\<lparr>re_count := re_count e0 + 1\<rparr>" "re_count e0 < ?q"
        using acc by auto
      have "span_budget a ?w lag (unat ?q) start (Suc used) (n + (if a \<le> now \<and> now < a + ?w then 1 else 0))"
        using span_budget_same_window [of a ?w lag "unat ?q" "window_start e0" used n now] b live e(3) s assms(4,6)
        by (auto simp: word_less_nat_alt)
      then show ?thesis using e s b(2) unfolding client_inv_def
        by (intro exI [of _ start] exI [of _ "Suc used"]) (auto simp: unat_inc)
    qed
  qed
qed

definition accepted_of :: "instant \<Rightarrow> duration \<Rightarrow> check_trace \<Rightarrow> ip_addr \<Rightarrow> nat" where
  "accepted_of a w tr k = accepted_in a (a + w) (verdicts_of tr k)"

lemma accepted_of_simps [simp]:
  "accepted_of a w [] k = 0"
  "accepted_of a w (tr @ [(ip, now, r)]) k =
     accepted_of a w tr k + (if ip = k \<and> r = Inr () \<and> a \<le> now \<and> now < a + w then 1 else 0)"
  by (simp_all add: accepted_of_def accepted_in_def verdicts_of_def)

definition skew_inv ::
  "'d dash_map_ops \<Rightarrow> instant \<Rightarrow> duration \<Rightarrow> instant \<Rightarrow> 'd limiter_state \<Rightarrow> check_trace \<Rightarrow>
   'd rate_limiter \<Rightarrow> bool" where
  "skew_inv D a lag t s tr L0 \<longleftrightarrow>
     rl_window (fst s) = rl_window L0 \<and> rl_settings (fst s) = rl_settings L0 \<and>
     (\<forall>x \<in> set (snd s). \<not> evicting (snd (snd x))) \<and>
     dom (dm_get D (rl_entries (fst s))) \<subseteq> fst ` set (snd s) \<and>
     (\<forall>k. client_inv a (rl_window L0) lag (unat (rs_max_requests (rl_settings L0))) t
        (dm_get D (rl_entries (fst s)) k) (accepted_of a (rl_window L0) tr k))"

context limiter_env
begin

text \<open>A step of a thread that leaves the entries as they are and gives no verdict.\<close>

lemma skew_inv_quiet:
  assumes "skew_inv D a lag t (L, ps) tr L0" and "i < length ps" and "ps ! i = (ip, now, p)"
    and "verdict_of p' = verdict_of p" and "\<not> evicting p'" and "t \<le> t'"
    and "rl_entries L' = rl_entries L" and "rl_window L' = rl_window L" and "rl_settings L' = rl_settings L"
  shows "skew_inv D a lag t' (L', ps[i := (ip, now, p')]) tr L0"
  using assms set_update_subset_insert [of ps i "(ip, now, p')"]
  by (auto simp: skew_inv_def image_set_update intro: client_inv_later)

lemma skew_inv_step:
  assumes "check_step C D s s'" and "skew_inv D a lag t s tr L0"
    and "\<forall>now \<in> set (step_readings (snd s) (snd s')). t - lag \<le> now"
    and "card (fst ` set (snd s')) \<le> unat (rs_max_entries (rl_settings L0))"
    and "0 < rs_max_requests (rl_settings L0)" and "0 \<le> lag" and "4 * lag \<le> rl_window L0" and "0 < rl_window L0"
  shows "skew_inv D a lag (foldl max t (step_readings (snd s) (snd s'))) s'
    (tr @ step_verdicts (snd s) (snd s')) L0"
  using assms
proof (induction rule: check_step.induct)
  case (step_start L ps ip now)
  then show ?case by (auto simp: skew_inv_def evicting_def)
next
  case (step_prune i ps ip now L L')
  let ?w = "rl_window L0" and ?A = "dm_get D (rl_entries L)"
  have inv: "rl_window L = ?w" using step_prune.prems(1) by (simp add: skew_inv_def)
  obtain cutoff where "ch_instant_sub C now ?w = Some cutoff"
    using step_prune.hyps(3) inv by (auto simp: prune_stale_def split: option.splits)
  with step_prune.hyps(3) prune_get [of now L cutoff] inv
  have L': "dm_get D (rl_entries L') = pruned (now - ?w) ?A" "rl_window L' = rl_window L"
    "rl_settings L' = rl_settings L"
    by auto
  have "client_inv a ?w lag (unat (rs_max_requests (rl_settings L0))) (max t now)
      (pruned (now - ?w) ?A k) (accepted_of a ?w tr k)" for k
  proof -
    have "client_inv a ?w lag (unat (rs_max_requests (rl_settings L0))) t (?A k) (accepted_of a ?w tr k)"
      using step_prune.prems(1) by (simp add: skew_inv_def)
    then show ?thesis
      by (auto simp: pruned_def intro: client_inv_later client_inv_drop split: option.split)
  qed
  moreover have "dom (pruned (now - ?w) ?A) \<subseteq> fst ` set ps"
    using step_prune.prems(1) by (fastforce simp: pruned_Some skew_inv_def)
  ultimately show ?case
    using step_prune.prems(1) step_prune.hyps(1,2) set_update_subset_insert [of ps i "(ip, now, Pruned)"]
    by (auto simp: skew_inv_def L' image_set_update evicting_def thread_verdict_def thread_reading_def)
next
  case (step_prune_panic i ps ip now L)
  then show ?case
    using skew_inv_quiet [OF step_prune_panic.prems(1) step_prune_panic.hyps(1,2), of Panicked "max t now" L]
    by (simp add: thread_verdict_def thread_reading_def evicting_def)
next
  case (step_account i ps ip now L verdict e)
  let ?p = "case verdict of Some r \<Rightarrow> Enforcing r | None \<Rightarrow> Panicked" and ?w = "rl_window L0"
    and ?A = "dm_get D (rl_entries L)"
  let ?tr = "tr @ (case verdict of Some r \<Rightarrow> [(ip, now, r)] | None \<Rightarrow> [])"
  have inv: "rl_window L = ?w" "rl_settings L = rl_settings L0"
    "\<And>k. client_inv a ?w lag (unat (rs_max_requests (rl_settings L0))) t (?A k) (accepted_of a ?w tr k)"
    using step_account.prems(1) by (simp_all add: skew_inv_def)
  have p: "Pruned \<noteq> ?p" "\<not> evicting ?p" by (simp_all add: evicting_def split: option.split)
  then have now: "t - lag \<le> now"
    using step_account.prems(2) step_account.hyps(1,2) by (simp add: thread_reading_def)
  have "client_inv a ?w lag (unat (rs_max_requests (rl_settings L0))) (max t now) (Some e)
      (accepted_of a ?w tr ip + (if verdict = Some (Inr ()) \<and> a \<le> now \<and> now < a + ?w then 1 else 0))"
    using client_inv_account [OF chrono_axioms _ _ now, of L "?A ip" verdict e a "accepted_of a ?w tr ip"]
      step_account.hyps(3) step_account.prems(4-7) inv by (simp add: entry_or_fresh_def)
  then have "client_inv a ?w lag (unat (rs_max_requests (rl_settings L0))) (max t now)
      ((?A(ip \<mapsto> e)) k) (accepted_of a ?w ?tr k)" for k
    using client_inv_later [OF inv(3) [of k], of "max t now"] by (cases "k = ip") (auto split: option.split)
  moreover have "ip \<in> fst ` set ps" using step_account.hyps(1,2) by (force dest: nth_mem)
  moreover have "step_verdicts ps (ps[i := (ip, now, ?p)]) = (case verdict of Some r \<Rightarrow> [(ip, now, r)] | None \<Rightarrow> [])"
    using step_account.hyps(1,2) by (simp add: thread_verdict_def split: option.split)
  moreover have "step_readings ps (ps[i := (ip, now, ?p)]) = [now]"
    using step_account.hyps(1,2) p(1) by (simp add: thread_reading_def)
  ultimately show ?case
    using step_account.prems(1) step_account.hyps(1,2) set_update_subset_insert [of ps i "(ip, now, ?p)"] p(2)
    by (auto simp: skew_inv_def image_set_update)
next
  case (step_over i ps ip now r L)
  have "dm_len D (rl_entries L) \<le> card (fst ` set ps)"
    using step_over.prems(1) by (auto simp: skew_inv_def len_dom intro: card_mono)
  then show ?case using step_over by (simp add: skew_inv_def image_set_update)
next
  case (step_within i ps ip now r L)
  then show ?case
    using skew_inv_quiet [OF step_within.prems(1) step_within.hyps(1,2), of "Recording r" t L]
    by (simp add: thread_verdict_def thread_reading_def evicting_def)
next
  case (step_record i ps ip now r L)
  then show ?case
    using skew_inv_quiet [OF step_record.prems(1) step_record.hyps(1,2), of "Finished r" t "record_entry_count D L"]
    by (simp add: thread_verdict_def thread_reading_def evicting_def record_entry_count_def)
qed (auto simp: skew_inv_def evicting_def dest!: nth_mem)

text \<open>The latest reading used so far only grows, and no thread is forgotten.\<close>

lemma skewed_run_inv:
  assumes "skewed_run C D S lag t s tr" and "card (fst ` set (snd s)) \<le> max 1 (unat (rs_max_entries S))"
    and "0 < rs_max_requests S" and "0 \<le> lag" and "4 * lag \<le> rl_window (with_clock C D S)"
    and "0 < rl_window (with_clock C D S)"
  shows "skew_inv D a lag t s tr (with_clock C D S)"
  using assms(1,2)
proof (induction rule: skewed_run.induct)
  case (skewed_start t)
  show ?case using with_clock_window [OF limiter_env_axioms, of S]
    by (auto simp: skew_inv_def client_inv_def span_budget_def intro!: exI [of _ None])
next
  case (skewed_step t s tr s')
  note new = with_clock_window [OF limiter_env_axioms, of S]
  have "fst ` set (snd s) \<subseteq> fst ` set (snd s')"
    using image_mono [OF check_step_threads [OF skewed_step.hyps(2)], of fst] by (simp add: image_image arrival_def)
  then have "card (fst ` set (snd s)) \<le> card (fst ` set (snd s'))" by (intro card_mono) simp_all
  then have "skew_inv D a lag t s tr (with_clock C D S)" using skewed_step by simp
  from skew_inv_step [OF skewed_step.hyps(2) this skewed_step.hyps(3)] skewed_step.prems new assms(3-6)
  show ?case by simp
qed

lemma skewed_run_bound:
  assumes "skewed_run C D S lag t s tr" and "card (fst ` set (snd s)) \<le> max 1 (unat (rs_max_entries S))"
    and "0 < rs_max_requests S" and "0 \<le> lag" and "4 * lag \<le> rl_window (with_clock C D S)"
    and "0 < rl_window (with_clock C D S)"
  shows "accepted_in a (a + rl_window (with_clock C D S)) (verdicts_of tr ip)
    \<le> 3 * unat (rs_max_requests S) - 1"
  using skewed_run_inv [OF assms, of a] with_clock_window [OF limiter_env_axioms, of S]
  by (auto simp: skew_inv_def client_inv_def accepted_of_def dest!: spec [of _ ip] span_budget_bound)

end

text \<open>
  C14: The quota holds for concurrent checks: when the readings of the clock that the checks use lag
  at most a quarter of the window behind one another, no client has more than
  \<open>3 * max_requests - 1\<close> requests accepted with readings in any span of the window's length,
  however the checks interleave, as long as the clients fit the capacity.
\<close>

theorem concurrent_span_bounded:
  assumes "limiter_env C D" and "skewed_run C D S lag t (L, ps) tr"
    and "card (fst ` set ps) \<le> max 1 (unat (rs_max_entries S))" and "0 < rs_max_requests S"
    and "0 \<le> lag" and "4 * lag \<le> rl_window (with_clock C D S)" and "0 < rl_window (with_clock C D S)"
  shows "accepted_in a (a + rl_window (with_clock C D S)) (verdicts_of tr ip)
    \<le> 3 * unat (rs_max_requests S) - 1"
  using limiter_env.skewed_run_bound [OF assms(1,2) _ assms(4-7)] assms(3) by simp

text \<open>Two checks of a client: the second has read the clock before the first and uses it later.\<close>

definition sample_lagging :: "check_thread list" where
  "sample_lagging = [(client_a, 110, Enforcing (Inr ())), (client_a, 100, Enforcing (Inr ()))]"

lemma sample_skewed:
  "skewed_run sample_chrono assoc_dash_map sample_settings 15 110
     (racing_limiter [(client_a, \<lparr>window_start = 110, re_count = 2\<rparr>)], sample_lagging)
     [(client_a, 110, Inr ()), (client_a, 100, Inr ())]"
proof -
  let ?step = "check_step sample_chrono assoc_dash_map"
  let ?run = "skewed_run sample_chrono assoc_dash_map sample_settings 15"
  let ?L = "\<lambda>n. racing_limiter [(client_a, \<lparr>window_start = 110, re_count = n\<rparr>)]"
  note ev = racing_limiter_def prune_stale_def account_def entry_or_fresh_def with_clock_def chrono_duration_def
    Let_def sample_settings_def word_le_nat_alt limiter_sample
  have run: "?run t' s' tr'" if "?run t s tr" "?step s s'" "\<forall>now \<in> set (step_readings (snd s) (snd s')). t - 15 \<le> now"
    "t' = foldl max t (step_readings (snd s) (snd s'))" "tr' = tr @ step_verdicts (snd s) (snd s')" for t t' s s' tr tr'
    using skewed_step [OF that(1-3)] that(4,5) by simp
  have s0: "with_clock sample_chrono assoc_dash_map sample_settings = racing_limiter []"
    by (simp add: ev)
  have p: "prune_stale sample_chrono assoc_dash_map (racing_limiter []) 110 = Some (racing_limiter [])"
    "prune_stale sample_chrono assoc_dash_map (?L 1) 100 = Some (?L 1)"
    by (simp_all add: ev)
  have a: "account sample_chrono (racing_limiter []) 110
      (entry_or_fresh assoc_dash_map (rl_entries (racing_limiter [])) client_a 110) =
      (Some (Inr ()), \<lparr>window_start = 110, re_count = 1\<rparr>)"
    "account sample_chrono (?L 1) 100 (entry_or_fresh assoc_dash_map (rl_entries (?L 1)) client_a 100) =
      (Some (Inr ()), \<lparr>window_start = 110, re_count = 2\<rparr>)"
    by (simp_all add: ev)
  have put: "racing_limiter es\<lparr>rl_entries := dm_put assoc_dash_map (rl_entries (racing_limiter es)) client_a e\<rparr> =
      racing_limiter (AList.update client_a e es)" for es e
    by (simp add: racing_limiter_def assoc_dash_map_def)
  let ?E = "Enforcing (Inr ())"
  have s1: "?step (racing_limiter [], []) (racing_limiter [], [(client_a, 110, Starting)])"
    using step_start [of _ _ _ "[]"] by simp
  have s2: "?step (racing_limiter [], [(client_a, 110, Starting)])
      (racing_limiter [], [(client_a, 110, Starting), (client_a, 100, Starting)])"
    using step_start [of _ _ _ "[(client_a, 110, Starting)]"] by simp
  have s3: "?step (racing_limiter [], [(client_a, 110, Starting), (client_a, 100, Starting)])
      (racing_limiter [], [(client_a, 110, Pruned), (client_a, 100, Starting)])"
    using step_prune [of 0 "[(client_a, 110, Starting), (client_a, 100, Starting)]", OF _ _ p(1)] by simp
  have s4: "?step (racing_limiter [], [(client_a, 110, Pruned), (client_a, 100, Starting)])
      (?L 1, [(client_a, 110, ?E), (client_a, 100, Starting)])"
    using step_account [of 0 "[(client_a, 110, Pruned), (client_a, 100, Starting)]", OF _ _ a(1)] by (simp add: put)
  have s5: "?step (?L 1, [(client_a, 110, ?E), (client_a, 100, Starting)])
      (?L 1, [(client_a, 110, ?E), (client_a, 100, Pruned)])"
    using step_prune [of 1 "[(client_a, 110, ?E), (client_a, 100, Starting)]", OF _ _ p(2)] by simp
  have s6: "?step (?L 1, [(client_a, 110, ?E), (client_a, 100, Pruned)]) (?L 2, sample_lagging)"
    using step_account [of 1 "[(client_a, 110, ?E), (client_a, 100, Pruned)]", OF _ _ a(2)]
    by (simp add: put sample_lagging_def)
  note sv = step_readings_def step_verdicts_def thread_reading_def thread_verdict_def sample_lagging_def
  have "?run 80 (racing_limiter [], []) []"
    using skewed_start [of sample_chrono assoc_dash_map sample_settings] by (simp add: s0)
  then have "?run 80 (racing_limiter [], [(client_a, 110, Starting)]) []"
    by (rule run [OF _ s1]) (simp_all add: sv)
  then have "?run 80 (racing_limiter [], [(client_a, 110, Starting), (client_a, 100, Starting)]) []"
    by (rule run [OF _ s2]) (simp_all add: sv)
  then have "?run 110 (racing_limiter [], [(client_a, 110, Pruned), (client_a, 100, Starting)]) []"
    by (rule run [OF _ s3]) (simp_all add: sv)
  then have "?run 110 (?L 1, [(client_a, 110, ?E), (client_a, 100, Starting)]) [(client_a, 110, Inr ())]"
    by (rule run [OF _ s4]) (simp_all add: sv)
  then have "?run 110 (?L 1, [(client_a, 110, ?E), (client_a, 100, Pruned)]) [(client_a, 110, Inr ())]"
    by (rule run [OF _ s5]) (simp_all add: sv)
  then show ?thesis
    by (rule run [OF _ s6]) (simp_all add: sv)
qed

lemma concurrent_span_bounded_witness:
  "accepted_in 100 160 (verdicts_of [(client_a, 110, Inr ()), (client_a, 100, Inr ())] client_a) \<le> 5"
proof -
  have "rl_window (with_clock sample_chrono assoc_dash_map sample_settings) = 60"
    by (simp add: with_clock_def chrono_duration_def Let_def sample_settings_def limiter_sample)
  then show ?thesis
    using concurrent_span_bounded [OF sample_limiter_ok(1) sample_skewed, of 100 client_a]
    by (simp add: sample_settings_def sample_lagging_def)
qed

end
