(* ===== verification/Server_Threads.thy ===== *)
theory Server_Threads
  imports Accept_Loop Limiter_Skew
begin

section \<open>The server with concurrent checks (src/server.rs, src/rate\_limit.rs)\<close>

text \<open>
  \<open>Accept_Loop\<close> takes a connection as one step.  Here the tasks of the server interleave inside the
  limiter as well: a task reads the clock, goes through the steps of its check while others do the
  same, and answers its peer when it has a verdict.  The server of \<open>Accept_Loop\<close> is the special case
  in which checks do not overlap (\<open>atomic_server_simulated\<close>), no task waits for another
  (\<open>waiting_task_answers\<close>), and the bound on the lookups of a client carries over, with the lag of
  the clock readings that concurrency brings.
\<close>

subsection \<open>State and steps\<close>

text \<open>
  \<open>cs_tasks\<close> has the tasks of the checks in \<open>cs_limiter\<close>, in the same order, with whether they have
  answered; \<open>cs_waiting\<close> has the tasks that have not read the clock.
\<close>

type_synonym 'e server_task = "('e socket_ops \<times> socket_addr) \<times> bool"

record ('d, 'e) threads_state =
  cs_limiter :: "'d limiter_state"
  cs_waiting :: "('e socket_ops \<times> socket_addr) list"
  cs_tasks :: "'e server_task list"
  cs_log :: served_log
  cs_result :: "'e cause anyhow option"

definition threads_init :: "'d rate_limiter \<Rightarrow> ('d, 'e) threads_state" where
  "threads_init L = \<lparr>cs_limiter = (L, []), cs_waiting = [], cs_tasks = [], cs_log = [], cs_result = None\<rparr>"

text \<open>What \<open>serve\<close> does once the limiter has given its verdict.\<close>

definition after_check ::
  "('s, 'm, 't, 'b) handler \<Rightarrow> 'e socket_ops \<Rightarrow> rate_limit_error + unit \<Rightarrow> ('e, unit) io" where
  "after_check H K verdict =
     io_bind
       (case verdict of
          Inr _ \<Rightarrow> (Inr False, [])
        | Inl (LimitExceeded retry) \<Rightarrow>
            io_bind (write_response H K rate_limit_message) (\<lambda>_. (Inr True, [Shutdown])))
       (\<lambda>refused. if refused then (Inr (), []) else serve_admitted H K)"

lemma serve_after_check:
  "serve C D H K L addr now =
     (case check_inner C D L (sa_ip addr) now of
        None \<Rightarrow> None
      | Some (Panic L1) \<Rightarrow> Some (Panic L1)
      | Some (Done verdict L1) \<Rightarrow> Some (Done (after_check H K verdict) L1))"
  by (auto simp: serve_def enforce_rate_limit_def after_check_def Let_def
      split: option.split outcome.split sum.split rate_limit_error.split)

text \<open>A turn of the accept loop in this state.\<close>

definition threads_accept ::
  "'e + 'e socket_ops \<times> socket_addr \<Rightarrow> ('d, 'e) threads_state \<Rightarrow> ('d, 'e) threads_state" where
  "threads_accept accepting s =
     (let (waiting, res) = accept_turn accepting (cs_waiting s)
      in s\<lparr>cs_waiting := waiting, cs_result := res\<rparr>)"

inductive threads_step ::
  "chrono_ops \<Rightarrow> 'd dash_map_ops \<Rightarrow> ('s, 'm, 't, 'b) handler \<Rightarrow>
   ('d, 'e) threads_state \<Rightarrow> ('d, 'e) threads_state \<Rightarrow> bool"
  for C D H where
  accepts:
    "cs_result s = None \<Longrightarrow>
     threads_step C D H s (threads_accept accepting s)"
| check_begins:
    "i < length (cs_waiting s) \<Longrightarrow> cs_waiting s ! i = (K, addr) \<Longrightarrow> cs_limiter s = (L, ps) \<Longrightarrow>
     threads_step C D H s
       (s\<lparr>cs_limiter := (L, ps @ [(sa_ip addr, now, Starting)]),
          cs_waiting := remove_task i (cs_waiting s),
          cs_tasks := cs_tasks s @ [((K, addr), False)]\<rparr>)"
| check_moves:
    "check_step C D (cs_limiter s) (L', ps') \<Longrightarrow> length ps' = length (snd (cs_limiter s)) \<Longrightarrow>
     threads_step C D H s (s\<lparr>cs_limiter := (L', ps')\<rparr>)"
| task_answers:
    "i < length (cs_tasks s) \<Longrightarrow> cs_tasks s ! i = ((K, addr), False) \<Longrightarrow>
     i < length (snd (cs_limiter s)) \<Longrightarrow> snd (cs_limiter s) ! i = (sa_ip addr, now, Finished verdict) \<Longrightarrow>
     after_check H K verdict = (r, acts) \<Longrightarrow>
     threads_step C D H s
       (s\<lparr>cs_tasks := (cs_tasks s)[i := ((K, addr), True)],
          cs_log := cs_log s @ [(sa_ip addr, now, acts)]\<rparr>)"

abbreviation threads_steps ::
  "chrono_ops \<Rightarrow> 'd dash_map_ops \<Rightarrow> ('s, 'm, 't, 'b) handler \<Rightarrow>
   ('d, 'e) threads_state \<Rightarrow> ('d, 'e) threads_state \<Rightarrow> bool" where
  "threads_steps C D H \<equiv> (threads_step C D H)\<^sup>*\<^sup>*"

lemma threads_accept_simps [simp]:
  "cs_result s = None \<Longrightarrow> threads_accept (Inr (K, addr)) s = s\<lparr>cs_waiting := cs_waiting s @ [(K, addr)]\<rparr>"
  "threads_accept (Inl e) s = s\<lparr>cs_result := Some (Source (Io e))\<rparr>"
  by (cases s; simp add: threads_accept_def accept_turn_def)+

lemma threads_accept_others [simp]:
  "cs_limiter (threads_accept accepting s) = cs_limiter s"
  "cs_tasks (threads_accept accepting s) = cs_tasks s"
  "cs_log (threads_accept accepting s) = cs_log s"
  by (simp_all add: threads_accept_def split: prod.split)

lemma task_spawned: "cs_result s = None \<Longrightarrow> threads_step C D H s (s\<lparr>cs_waiting := cs_waiting s @ [(K, addr)]\<rparr>)"
  using accepts [of s C D H "Inr (K, addr)"] by simp

lemma accept_fails: "cs_result s = None \<Longrightarrow> threads_step C D H s (s\<lparr>cs_result := Some (Source (Io e))\<rparr>)"
  using accepts [of s C D H "Inl e"] by simp

text \<open>Runs in which the readings of the clock that are used lag at most \<open>lag\<close>.\<close>

inductive threads_run ::
  "chrono_ops \<Rightarrow> 'd dash_map_ops \<Rightarrow> ('s, 'm, 't, 'b) handler \<Rightarrow> 'd rate_limiter \<Rightarrow> duration \<Rightarrow> instant \<Rightarrow>
   ('d, 'e) threads_state \<Rightarrow> bool"
  for C D H L0 lag where
  threads_start: "threads_run C D H L0 lag t (threads_init L0)"
| threads_next:
    "threads_run C D H L0 lag t s \<Longrightarrow> threads_step C D H s s' \<Longrightarrow>
     rs = step_readings (snd (cs_limiter s)) (snd (cs_limiter s')) \<Longrightarrow>
     \<forall>now \<in> set rs. t - lag \<le> now \<Longrightarrow>
     threads_run C D H L0 lag (foldl max t rs) s'"

subsection \<open>The server of whole checks is a special case\<close>

definition same_server :: "('d, 'e) server_state \<Rightarrow> ('d, 'e) threads_state \<Rightarrow> bool" where
  "same_server s u \<longleftrightarrow>
     sv_limiter s = fst (cs_limiter u) \<and> sv_tasks s = cs_waiting u \<and> sv_log s = cs_log u \<and>
     sv_result s = cs_result u \<and> length (cs_tasks u) = length (snd (cs_limiter u))"

text \<open>Steps of checks that start none.\<close>

lemma check_step_length: "check_step C D s s' \<Longrightarrow> length (snd s) \<le> length (snd s')"
  by (induction rule: check_step.induct) simp_all

lemma check_steps_length: "check_steps C D s s' \<Longrightarrow> length (snd s) \<le> length (snd s')"
  by (induction rule: rtranclp_induct) (auto dest: check_step_length)

lemma threads_check_steps:
  assumes "check_steps C D (cs_limiter u) s'" and "length (snd s') = length (snd (cs_limiter u))"
  shows "threads_steps C D H u (u\<lparr>cs_limiter := s'\<rparr>)"
  using assms
proof (induction rule: rtranclp_induct)
  case base
  have "u\<lparr>cs_limiter := cs_limiter u\<rparr> = u" by simp
  then show ?case by simp
next
  case (step s s')
  have "length (snd s) = length (snd (cs_limiter u))"
    using check_steps_length [OF step.hyps(1)] check_step_length [OF step.hyps(2)] step.prems by simp
  moreover from this have "threads_step C D H (u\<lparr>cs_limiter := s\<rparr>) (u\<lparr>cs_limiter := s'\<rparr>)"
    using check_moves [of C D "u\<lparr>cs_limiter := s\<rparr>" "fst s'" "snd s'" H] step.hyps(2) step.prems by simp
  ultimately show ?case using step.IH by simp
qed

lemma whole_check:
  assumes "check_steps C D (L, ps @ [(sa_ip addr, now, Starting)]) (L', ps @ [(sa_ip addr, now, p)])"
    and "cs_limiter u = (L, ps)" and "i < length (cs_waiting u)" and "cs_waiting u ! i = (K, addr)"
  shows "threads_steps C D H u
    (u\<lparr>cs_limiter := (L', ps @ [(sa_ip addr, now, p)]), cs_waiting := remove_task i (cs_waiting u),
       cs_tasks := cs_tasks u @ [((K, addr), False)]\<rparr>)"
proof -
  let ?u = "u\<lparr>cs_limiter := (L, ps @ [(sa_ip addr, now, Starting)]), cs_waiting := remove_task i (cs_waiting u),
       cs_tasks := cs_tasks u @ [((K, addr), False)]\<rparr>"
  have begins: "threads_step C D H u ?u" using check_begins [OF assms(3,4,2)] .
  have moves: "threads_steps C D H ?u (?u\<lparr>cs_limiter := (L', ps @ [(sa_ip addr, now, p)])\<rparr>)"
    using assms(1) by (intro threads_check_steps) simp_all
  have "?u\<lparr>cs_limiter := s\<rparr> = u\<lparr>cs_limiter := s, cs_waiting := remove_task i (cs_waiting u),
      cs_tasks := cs_tasks u @ [((K, addr), False)]\<rparr>" for s
    by (cases u) simp
  from moves [unfolded this] begins show ?thesis by (rule converse_rtranclp_into_rtranclp [rotated])
qed

lemma server_step_simulated:
  assumes "server_step C D H s s'" and "same_server s u"
  shows "\<exists>u'. threads_steps C D H u u' \<and> same_server s' u'"
  using assms(1)
proof (cases rule: server_step.cases)
  case (loop_turns accepting tasks res)
  then show ?thesis
    using accepts [of u C D H accepting] assms(2)
    by (intro exI [of _ "threads_accept accepting u"]) (auto simp: same_server_def threads_accept_def)
next
  case (task_served i K addr now r acts L)
  obtain ps where ps: "cs_limiter u = (sv_limiter s, ps)"
    using assms(2) by (metis same_server_def prod.collapse)
  obtain v where v: "check_inner C D (sv_limiter s) (sa_ip addr) now = Some (Done v L)"
    "after_check H K v = (r, acts)"
    using task_served(5) by (auto simp: serve_after_check split: option.splits outcome.splits)
  let ?u = "u\<lparr>cs_limiter := (L, ps @ [(sa_ip addr, now, Finished v)]),
    cs_waiting := remove_task i (cs_waiting u), cs_tasks := cs_tasks u @ [((K, addr), False)]\<rparr>"
  let ?u' = "?u\<lparr>cs_tasks := cs_tasks u @ [((K, addr), True)], cs_log := cs_log u @ [(sa_ip addr, now, acts)]\<rparr>"
  have "threads_steps C D H u ?u"
    using whole_check [OF started_check_finishes [OF v(1)] ps] task_served(2,3) assms(2)
    by (simp add: same_server_def)
  moreover have "length (cs_tasks u) = length ps" using assms(2) ps by (simp add: same_server_def)
  then have "threads_step C D H ?u ?u'"
    using task_answers [of "length ps" ?u K addr now v H r acts C D] v(2)
    by (simp add: nth_append list_update_append)
  ultimately have "threads_steps C D H u ?u'" by (rule rtranclp.rtrancl_into_rtrancl)
  then show ?thesis
    using task_served(1) assms(2) ps by (intro exI [of _ ?u']) (auto simp: same_server_def)
next
  case (task_panicked i K addr now L)
  obtain ps where ps: "cs_limiter u = (sv_limiter s, ps)"
    using assms(2) by (metis same_server_def prod.collapse)
  have v: "check_inner C D (sv_limiter s) (sa_ip addr) now = Some (Panic L)"
    using task_panicked(5) by (auto simp: serve_after_check split: option.splits outcome.splits)
  let ?u = "u\<lparr>cs_limiter := (L, ps @ [(sa_ip addr, now, Panicked)]),
    cs_waiting := remove_task i (cs_waiting u), cs_tasks := cs_tasks u @ [((K, addr), False)]\<rparr>"
  have "threads_steps C D H u ?u"
    using whole_check [OF started_check_panics [OF v] ps] task_panicked(2,3) assms(2)
    by (simp add: same_server_def)
  then show ?thesis
    using task_panicked(1) assms(2) ps by (intro exI [of _ ?u]) (auto simp: same_server_def)
qed

text \<open>
  The model of whole connections is a special case of the model of interleaved ones: every run
  of \<open>server_step\<close> is one of \<open>threads_step\<close>, with the same limiter, the same tasks not yet
  started, the same log and the same result.
\<close>

lemma atomic_server_simulated:
  assumes "server_steps C D H (server_init C D S t) s"
  shows "\<exists>u. threads_steps C D H (threads_init (with_clock C D S)) u \<and> same_server s u"
  using assms
proof (induction rule: rtranclp_induct)
  case base
  then show ?case
    by (intro exI [of _ "threads_init (with_clock C D S)"]) (simp add: same_server_def server_init_def threads_init_def)
next
  case (step s s')
  then show ?case using server_step_simulated [OF step.hyps(2)] by (meson rtranclp_trans)
qed

lemma atomic_server_simulated_witness:
  "\<exists>u. threads_steps sample_chrono assoc_dash_map (sample_handler sample_objects)
       (threads_init (with_clock sample_chrono assoc_dash_map sample_settings)) u \<and>
     cs_waiting u = [sample_connection] \<and> cs_result u = Some (Source (Io ()))"
proof -
  from atomic_server_simulated [OF sample_server_fails [unfolded sample_start_def]] obtain u where
    "threads_steps sample_chrono assoc_dash_map (sample_handler sample_objects)
       (threads_init (with_clock sample_chrono assoc_dash_map sample_settings)) u" "same_server sample_failed u"
    by blast
  then show ?thesis by (auto simp: same_server_def sample_failed_def)
qed

subsection \<open>A connection is not held up\<close>

text \<open>
  C28: No connection is held up by the others: from every state, whatever the others have done, a task
  that has not started yet can go through its check and answer by steps of its own, while the other
  checks and tasks stay as they are, unless its check panics.
\<close>

theorem waiting_task_answers:
  assumes "dash_map D" and "i < length (cs_waiting s)" and "cs_waiting s ! i = (K, addr)"
    and "length (cs_tasks s) = length (snd (cs_limiter s))"
  shows "\<exists>s' L p. threads_steps C D H s s' \<and> cs_limiter s' = (L, snd (cs_limiter s) @ [(sa_ip addr, now, p)]) \<and>
    cs_waiting s' = remove_task i (cs_waiting s) \<and>
    (p = Panicked \<and> cs_log s' = cs_log s \<or>
     (\<exists>verdict r acts. p = Finished verdict \<and> after_check H K verdict = (r, acts) \<and>
        cs_log s' = cs_log s @ [(sa_ip addr, now, acts)] \<and> cs_tasks s' = cs_tasks s @ [((K, addr), True)]))"
proof -
  obtain L ps where L: "cs_limiter s = (L, ps)" by fastforce
  obtain L' p where p: "check_steps C D (L, ps @ [(sa_ip addr, now, Starting)]) (L', ps @ [(sa_ip addr, now, p)])" "ended p"
    using dash_map.check_finishes [OF assms(1), of "length ps" "ps @ [(sa_ip addr, now, Starting)]" "sa_ip addr" now Starting]
    by fastforce
  let ?s = "s\<lparr>cs_limiter := (L', ps @ [(sa_ip addr, now, p)]), cs_waiting := remove_task i (cs_waiting s),
       cs_tasks := cs_tasks s @ [((K, addr), False)]\<rparr>"
  have steps: "threads_steps C D H s ?s" using whole_check [OF p(1) L assms(2,3)] .
  from p(2) consider "p = Panicked" | verdict where "p = Finished verdict" by (cases p) (auto simp: ended_def)
  then show ?thesis
  proof cases
    case 1
    then show ?thesis using steps L by (intro exI [of _ ?s] exI [of _ L'] exI [of _ p]) simp
  next
    case (2 verdict)
    obtain r acts where acts: "after_check H K verdict = (r, acts)" by fastforce
    let ?s' = "?s\<lparr>cs_tasks := cs_tasks s @ [((K, addr), True)], cs_log := cs_log s @ [(sa_ip addr, now, acts)]\<rparr>"
    have "threads_step C D H ?s ?s'"
      using task_answers [of "length ps" ?s K addr now verdict H r acts C D] acts assms(4) L 2
      by (simp add: nth_append list_update_append)
    with steps have "threads_steps C D H s ?s'" by (rule rtranclp.rtrancl_into_rtrancl)
    then show ?thesis using L 2 acts by (intro exI [of _ ?s'] exI [of _ L'] exI [of _ p]) simp
  qed
qed

lemma waiting_task_answers_witness:
  "\<exists>s' p. threads_steps sample_chrono assoc_dash_map (sample_handler sample_objects)
      ((threads_init sample_limiter :: (_, unit) threads_state)\<lparr>cs_waiting := [sample_connection]\<rparr>) s' \<and>
    snd (cs_limiter s') = [(client_b, 130, p)] \<and> cs_waiting s' = []"
proof -
  let ?s = "(threads_init sample_limiter :: (_, unit) threads_state)\<lparr>cs_waiting := [sample_connection]\<rparr>"
  have "dash_map assoc_dash_map" using sample_limiter_ok(1) by (simp add: limiter_env_def)
  moreover have "cs_waiting ?s ! 0 = (fst sample_connection, \<lparr>sa_ip = client_b, sa_port = 4000\<rparr>)"
    by (simp add: sample_connection_def)
  ultimately show ?thesis
    using waiting_task_answers [of assoc_dash_map 0 ?s "fst sample_connection" "\<lparr>sa_ip = client_b, sa_port = 4000\<rparr>"
        sample_chrono "sample_handler sample_objects" 130]
    by (fastforce simp: threads_init_def remove_task_def)
qed

subsection \<open>The lookups of a client\<close>

text \<open>Every step of a check starts a thread or moves one that has not ended.\<close>

lemma check_step_shape:
  assumes "check_step C D s s'"
  obtains ip now where "snd s' = snd s @ [(ip, now, Starting)]" "fst s' = fst s"
    | i ip now p p' where "i < length (snd s)" "snd s ! i = (ip, now, p)" "snd s' = (snd s)[i := (ip, now, p')]"
      "verdict_of p = None \<or> verdict_of p' = verdict_of p" "\<not> ended p"
  using assms by (cases rule: check_step.cases) (auto simp: ended_def)

definition accepted_thread :: "instant \<Rightarrow> instant \<Rightarrow> ip_addr \<Rightarrow> check_thread \<Rightarrow> bool" where
  "accepted_thread a b k x \<longleftrightarrow> gave False k x \<and> a \<le> fst (snd x) \<and> fst (snd x) < b"

lemma accepted_thread_simp [simp]:
  "accepted_thread a b k (ip, now, p) \<longleftrightarrow> ip = k \<and> verdict_of p = Some (Inr ()) \<and> a \<le> now \<and> now < b"
proof -
  have "\<not> isl z \<Longrightarrow> z = Inr ()" for z :: "rate_limit_error + unit" by (cases z) simp_all
  then show ?thesis by (auto simp: accepted_thread_def gave_def)
qed

lemma accepted_in_append: "accepted_in a b (verdicts_of (tr @ tr') k) =
    accepted_in a b (verdicts_of tr k) + accepted_in a b (verdicts_of tr' k)"
  by (simp add: accepted_in_def verdicts_of_def)

lemma skewed_run_accepted:
  "skewed_run C D S lag t s tr \<Longrightarrow>
     accepted_in a b (verdicts_of tr k) = length (filter (accepted_thread a b k) (snd s))"
proof (induction rule: skewed_run.induct)
  case (skewed_start t)
  show ?case by (simp add: accepted_in_def verdicts_of_def)
next
  case (skewed_step t s tr s')
  from skewed_step.hyps(2) show ?case
  proof (cases rule: check_step_shape)
    case (1 ip now)
    then show ?thesis using skewed_step.IH by (simp add: accepted_in_append accepted_in_def verdicts_of_def)
  next
    case (2 i ip now p p')
    have "accepted_in a b (verdicts_of (thread_verdict (ip, now, p) (ip, now, p')) k) +
        (if accepted_thread a b k (ip, now, p) then 1 else 0) = (if accepted_thread a b k (ip, now, p') then 1 else 0)"
      using 2(4) by (auto simp: thread_verdict_def accepted_in_def verdicts_of_def split: option.split)
    then show ?thesis
      using skewed_step.IH 2 length_filter_update [OF 2(1), of "accepted_thread a b k" "(ip, now, p')"]
      by (simp add: accepted_in_append)
  qed
qed

definition answered_inv :: "instant \<Rightarrow> instant \<Rightarrow> ip_addr \<Rightarrow> ('d, 'e) threads_state \<Rightarrow> bool" where
  "answered_inv a b k s \<longleftrightarrow>
     length (cs_tasks s) = length (snd (cs_limiter s)) \<and>
     (\<forall>i < length (cs_tasks s). snd (cs_tasks s ! i) \<longrightarrow> ended (snd (snd (snd (cs_limiter s) ! i)))) \<and>
     lookups_in a b k (cs_log s) \<le>
       length (filter (\<lambda>(x, t). snd t \<and> accepted_thread a b k x) (zip (snd (cs_limiter s)) (cs_tasks s)))"

lemma after_check_loads:
  assumes "after_check H K v = (r, acts)"
  shows "length (filter is_load acts) \<le> (if v = Inr () then 1 else 0)"
proof (cases v)
  case (Inl e)
  then show ?thesis
    using assms by (auto simp: after_check_def io_bind_def write_response_def timed_write_def is_load_def
        split: rate_limit_error.splits write_outcome.splits)
next
  case (Inr u)
  then have "serve_admitted H K = (r, acts)" using assms by (cases "serve_admitted H K") (simp add: after_check_def io_bind_def)
  moreover have "length (filter is_load (lookups H raw)) \<le> 1" for raw
    by (auto simp: lookups_def is_load_def split: sum.split)
  ultimately show ?thesis
    using serve_admitted_aux [of H K] Inr by (cases "read_request H K") (force simp: is_load_def split: if_splits)+
qed

lemma answered_inv_step:
  assumes "threads_step C D H s s'" and "answered_inv a b k s"
  shows "answered_inv a b k s'"
  using assms(1)
proof (cases rule: threads_step.cases)
  case (check_begins i K addr L ps now)
  then show ?thesis using assms(2) by (auto simp: answered_inv_def nth_append)
next
  case (check_moves L' ps')
  from check_moves(2) show ?thesis
  proof (cases rule: check_step_shape)
    case (1 ip now)
    then show ?thesis using check_moves(3) by simp
  next
    case (2 i ip now p p')
    let ?ps = "snd (cs_limiter s)" and ?ts = "cs_tasks s"
      and ?P = "\<lambda>(x, t). snd t \<and> accepted_thread a b k x"
    have i: "i < length ?ts" "\<not> snd (?ts ! i)" using assms(2) 2(1,2,5) by (auto simp: answered_inv_def)
    have "zip (?ps[i := (ip, now, p')]) ?ts = (zip ?ps ?ts)[i := ((ip, now, p'), ?ts ! i)]"
      using update_zip [of ?ps ?ts i "((ip, now, p'), ?ts ! i)"] by simp
    then have "length (filter ?P (zip (?ps[i := (ip, now, p')]) ?ts)) = length (filter ?P (zip ?ps ?ts))"
      using length_filter_update [of i "zip ?ps ?ts" ?P "((ip, now, p'), ?ts ! i)"] i 2(1,2) by simp
    then show ?thesis using assms(2) check_moves(1) 2(1,3) i
      by (auto simp: answered_inv_def nth_list_update)
  qed
next
  case (task_answers i K addr now v r acts)
  let ?ps = "snd (cs_limiter s)" and ?ts = "cs_tasks s"
    and ?P = "\<lambda>(x, t). snd t \<and> accepted_thread a b k x"
  have "zip ?ps (?ts[i := ((K, addr), True)]) = (zip ?ps ?ts)[i := (?ps ! i, ((K, addr), True))]"
    using update_zip [of ?ps ?ts i "(?ps ! i, ((K, addr), True))"] by simp
  then have "length (filter ?P (zip ?ps (?ts[i := ((K, addr), True)]))) =
      length (filter ?P (zip ?ps ?ts)) + (if accepted_thread a b k (?ps ! i) then 1 else 0)"
    using length_filter_update [of i "zip ?ps ?ts" ?P "(?ps ! i, ((K, addr), True))"] task_answers(2-5) by simp
  moreover have "lookups_in a b k (cs_log s @ [(sa_ip addr, now, acts)]) \<le>
      lookups_in a b k (cs_log s) + (if accepted_thread a b k (?ps ! i) then 1 else 0)"
    using after_check_loads [OF task_answers(6)] task_answers(5) by (auto simp: lookups_in_def split: if_splits)
  ultimately show ?thesis
    using assms(2) task_answers(1,2,5) by (auto simp: answered_inv_def nth_list_update ended_def)
qed (use assms(2) in \<open>auto simp: answered_inv_def\<close>)

lemma threads_run_answered:
  "threads_run C D H L0 lag t s \<Longrightarrow> answered_inv a b k s"
proof (induction rule: threads_run.induct)
  case (threads_start t)
  show ?case by (simp add: answered_inv_def threads_init_def lookups_in_def)
next
  case (threads_next t s s' rs)
  then show ?case using answered_inv_step by blast
qed

lemma threads_run_skewed:
  "threads_run C D H (with_clock C D S) lag t s \<Longrightarrow> \<exists>tr. skewed_run C D S lag t (cs_limiter s) tr"
proof (induction rule: threads_run.induct)
  case (threads_start t)
  show ?case using skewed_start [of C D S lag t] by (auto simp: threads_init_def)
next
  case (threads_next t s s' rs)
  then obtain tr where tr: "skewed_run C D S lag t (cs_limiter s) tr" by blast
  have "step_readings ps ps = []" for ps using step_readings_simps(1) [of ps "[]"] by simp
  then have same: ?case if "cs_limiter s' = cs_limiter s" using that tr threads_next.hyps(3) by auto
  have moved: ?case if "check_step C D (cs_limiter s) (cs_limiter s')"
    using skewed_step [OF tr that] threads_next.hyps(3,4) by auto
  from threads_next.hyps(2) show ?case
  proof (cases rule: threads_step.cases)
    case (check_begins i K addr L ps now)
    then show ?thesis using moved step_start [of C D L ps "sa_ip addr" now] by simp
  qed (use same moved in auto)
qed

lemma zip_filter_length:
  "length ys = length xs \<Longrightarrow> length (filter (\<lambda>(x, y). snd y \<and> P x) (zip xs ys)) \<le> length (filter P xs)"
  by (induction ys xs rule: list_induct2) auto

text \<open>The clients the limiter has been asked about.\<close>

definition clients :: "('d, 'e) threads_state \<Rightarrow> ip_addr set" where
  "clients s = fst ` set (snd (cs_limiter s))"

lemma concurrent_lookups_bounded:
  assumes "limiter_env C D" and "threads_run C D H (with_clock C D S) lag t s"
    and "card (clients s) \<le> max 1 (unat (rs_max_entries S))" and "0 < rs_max_requests S"
    and "0 \<le> lag" and "4 * lag \<le> rl_window (with_clock C D S)" and "0 < rl_window (with_clock C D S)"
  shows "lookups_in a (a + rl_window (with_clock C D S)) ip (cs_log s) \<le> 3 * unat (rs_max_requests S) - 1"
proof -
  let ?b = "a + rl_window (with_clock C D S)" and ?ps = "snd (cs_limiter s)"
  obtain tr where tr: "skewed_run C D S lag t (cs_limiter s) tr" using threads_run_skewed [OF assms(2)] by blast
  note inv = threads_run_answered [OF assms(2), of a ?b ip]
  have "lookups_in a ?b ip (cs_log s) \<le> length (filter (accepted_thread a ?b ip) ?ps)"
    using inv zip_filter_length [of "cs_tasks s" ?ps "accepted_thread a ?b ip"] by (simp add: answered_inv_def)
  also have "\<dots> = accepted_in a ?b (verdicts_of tr ip)" using skewed_run_accepted [OF tr] by simp
  also have "\<dots> \<le> 3 * unat (rs_max_requests S) - 1"
    using limiter_env.skewed_run_bound [OF assms(1) tr] assms(3-7) by (simp add: clients_def)
  finally show ?thesis .
qed

subsection \<open>One connection\<close>

lemma step_readings_threads:
  assumes "check_step C D s s'" and "now \<in> set (step_readings (snd s) (snd s'))"
  shows "now \<in> (fst \<circ> snd) ` set (snd s)"
  using assms(1)
proof (cases rule: check_step_shape)
  case (2 i ip now' p p')
  then have "now = now'" using assms(2) by (simp add: thread_reading_def split: if_splits)
  then show ?thesis using 2 by (force dest: nth_mem)
qed (use assms(2) in simp)

lemma foldl_max_le: "foldl max t rs \<le> (m :: instant) \<longleftrightarrow> t \<le> m \<and> (\<forall>r \<in> set rs. r \<le> m)"
  by (induction rs arbitrary: t) auto

lemma threads_run_checks:
  assumes "check_steps C D (cs_limiter s) l" and "threads_run C D H L0 lag t s" and "0 \<le> lag" and "t \<le> now"
    and "length (snd l) = length (snd (cs_limiter s))" and "\<forall>x \<in> set (snd l). fst (snd x) = now"
  shows "\<exists>t' \<le> now. threads_run C D H L0 lag t' (s\<lparr>cs_limiter := l\<rparr>)"
  using assms(1,5,6)
proof (induction rule: rtranclp_induct)
  case base
  have "s\<lparr>cs_limiter := cs_limiter s\<rparr> = s" by simp
  then show ?case using assms(2,4) by auto
next
  case (step l l')
  have len: "length (snd l) = length (snd (cs_limiter s))"
    using check_steps_length [OF step.hyps(1)] check_step_length [OF step.hyps(2)] step.prems(1) by simp
  have "arrival ` set (snd l) \<subseteq> arrival ` set (snd l')" by (rule check_step_threads [OF step.hyps(2)])
  then have times: "\<forall>x \<in> set (snd l). fst (snd x) = now" using step.prems(2) by (fastforce simp: arrival_def)
  obtain t' where t': "t' \<le> now" "threads_run C D H L0 lag t' (s\<lparr>cs_limiter := l\<rparr>)"
    using step.IH [OF len times] by blast
  have rs: "r = now" if "r \<in> set (step_readings (snd l) (snd l'))" for r
    using step_readings_threads [OF step.hyps(2) that] times by auto
  have "threads_step C D H (s\<lparr>cs_limiter := l\<rparr>) (s\<lparr>cs_limiter := l'\<rparr>)"
    using check_moves [of C D "s\<lparr>cs_limiter := l\<rparr>" "fst l'" "snd l'" H] step.hyps(2) step.prems(1) len by simp
  from threads_next [OF t'(2) this refl] rs t'(1) assms(3)
  have "threads_run C D H L0 lag (foldl max t' (step_readings (snd l) (snd l'))) (s\<lparr>cs_limiter := l'\<rparr>)"
    by fastforce
  moreover have "foldl max t' (step_readings (snd l) (snd l')) \<le> now"
    using rs t'(1) by (auto simp: foldl_max_le)
  ultimately show ?case by blast
qed

lemma one_task_run:
  fixes K :: "'e socket_ops" and addr :: socket_addr and H :: "('s, 'm, 't, 'b) handler"
  assumes "limiter_env C D" and "cutoff_ok C (with_clock C D S) now" and "0 \<le> lag"
  shows "\<exists>t s acts. threads_run C D H (with_clock C D S) lag t (s :: ('d, 'e) threads_state) \<and>
    cs_log s = [(sa_ip addr, now, acts)] \<and> clients s = {sa_ip addr}"
proof -
  let ?L = "with_clock C D S" and ?run = "threads_run C D H (with_clock C D S) lag"
  let ?s0 = "threads_init ?L :: ('d, 'e) threads_state"
  let ?s1 = "?s0\<lparr>cs_waiting := [(K, addr)]\<rparr>"
  let ?s2 = "?s1\<lparr>cs_limiter := (?L, [(sa_ip addr, now, Starting)]), cs_waiting := [], cs_tasks := [((K, addr), False)]\<rparr>"
  have "?run now ?s0" by (rule threads_start)
  moreover have "threads_step C D H ?s0 ?s1" using task_spawned [of ?s0 C D H K addr] by (simp add: threads_init_def)
  ultimately have r1: "?run now ?s1" using threads_next [of C D H ?L lag now ?s0 ?s1 "[]"] by (simp add: threads_init_def step_readings_def)
  have "threads_step C D H ?s1 ?s2"
    using check_begins [of 0 ?s1 K addr ?L "[]" C D H now] by (simp add: threads_init_def remove_task_def)
  with r1 have r2: "?run now ?s2" using threads_next [of C D H ?L lag now ?s1 ?s2 "[]"] by (simp add: threads_init_def step_readings_def)
  obtain r e where fw: "fixed_window (rs_max_requests (rl_settings ?L)) (rl_window ?L) now
      (dm_get D (rl_entries ?L) (sa_ip addr)) = (r, e)" by fastforce
  obtain v L' where "check_inner C D ?L (sa_ip addr) now = Some (Done v L')"
    using check_done [OF assms(1) limiter_wf_with_clock [OF assms(1)] assms(2) fresh_limiter_empty [OF assms(1)] fw] by blast
  from started_check_finishes [OF this, of "[]"]
  have fin: "check_steps C D (cs_limiter ?s2) (L', [(sa_ip addr, now, Finished v)])" by simp
  let ?s3 = "?s2\<lparr>cs_limiter := (L', [(sa_ip addr, now, Finished v)])\<rparr>"
  obtain t' where r3: "?run t' ?s3" using threads_run_checks [OF fin r2 assms(3)] by auto
  obtain res acts where acts: "after_check H K v = (res, acts)" by fastforce
  let ?s4 = "?s3\<lparr>cs_tasks := [((K, addr), True)], cs_log := [(sa_ip addr, now, acts)]\<rparr>"
  have "threads_step C D H ?s3 ?s4"
    using task_answers [of 0 ?s3 K addr now v H res acts C D] acts by (simp add: threads_init_def)
  with r3 have "?run t' ?s4" using threads_next [of C D H ?L lag t' ?s3 ?s4 "[]"] by (simp add: step_readings_def thread_reading_def)
  then show ?thesis by (intro exI [of _ t'] exI [of _ ?s4] exI [of _ acts]) (simp add: clients_def)
qed

end
