(* ===== verification/Process.thy ===== *)
theory Process
  imports Options Server_Threads "HOL-Library.Multiset"
begin

section \<open>The process (src/main.rs)\<close>

text \<open>
  \<open>main\<close> and \<open>run\<close> as a whole: the server of \<open>Server_Threads\<close> and the metrics endpoint of
  \<open>Telemetry\<close> side by side, the shutdown of the endpoint once the accept loop has ended, and the
  result that \<open>run\<close> returns.  A step of the process is a step of one of its parts or of \<open>run\<close>
  itself, so that what was shown of the parts holds of the process.  The task of the endpoint does
  not panic here.
\<close>

subsection \<open>State and steps\<close>

record ('d, 'e) process_state =
  pr_server :: "('d, 'e) threads_state"
  pr_metrics :: "'e endpoint_state option"
  pr_exit :: "('e cause anyhow + unit) option"

text \<open>
  Logging falls back to the level \<open>info\<close>, and a subscriber that is set already stays: \<open>try_init\<close>
  fails then, and its result is dropped.
\<close>

definition install_tracing :: "'x + 'f \<Rightarrow> (str \<Rightarrow> 'f) \<Rightarrow> ('f \<Rightarrow> 'g \<Rightarrow> 'y + 'g) \<Rightarrow> 'g \<Rightarrow> 'g" where
  "install_tracing from_env new_filter try_init subscriber =
     (let filter = (case from_env of Inr f \<Rightarrow> f | Inl _ \<Rightarrow> new_filter (lit ''info''))
      in case try_init filter subscriber of Inr subscriber1 \<Rightarrow> subscriber1 | Inl _ \<Rightarrow> subscriber)"

text \<open>A server that cannot bind has its result at once; the endpoint is shut down all the same.\<close>

definition process_init ::
  "(socket_addr \<Rightarrow> 'e + unit) \<Rightarrow> (socket_addr \<Rightarrow> str) \<Rightarrow> 's server_config \<Rightarrow> 'd rate_limiter \<Rightarrow>
   'e endpoint_state option \<Rightarrow> instant \<Rightarrow> ('d, 'e) process_state" where
  "process_init bind show_addr cfg L metrics_endpoint t =
     \<lparr>pr_server =
        (case run_start bind show_addr cfg L t of
           Inl e \<Rightarrow> (threads_init L)\<lparr>cs_result := Some e\<rparr>
         | Inr s \<Rightarrow> threads_init (sv_limiter s)),
      pr_metrics = metrics_endpoint, pr_exit = None\<rparr>"

text \<open>The process from the runtime to the loop, with what \<open>startup\<close> gives.\<close>

definition main_start ::
  "'e + unit \<Rightarrow> 'e anyhow + (('s, 'm, 't, 'b) handler \<times> 'd rate_limiter \<times> 'e endpoint_state option) \<times> 'f \<Rightarrow>
   (socket_addr \<Rightarrow> 'e + unit) \<Rightarrow> (socket_addr \<Rightarrow> str) \<Rightarrow> instant \<Rightarrow>
   'e anyhow + ('s, 'm, 't, 'b) handler \<times> ('d, 'e) process_state" where
  "main_start runtime started bind show_addr t =
     and_then (map_err Source runtime) (\<lambda>_.
     and_then started (\<lambda>((server, limiter, metrics_endpoint), fs).
       Inr (server, process_init bind show_addr (h_config server) limiter metrics_endpoint t)))"

text \<open>
  \<open>main\<close>: tracing, the runtime, the options, and \<open>startup\<close> with these.  Options that are refused end
  the process inside of clap.
\<close>

datatype ('x, 'r) main_outcome = Usage_Error 'x | Returned 'r

definition main_program ::
  "'x value_parsers \<Rightarrow> arg_source \<Rightarrow> 'y + 'f \<Rightarrow> (str \<Rightarrow> 'f) \<Rightarrow> ('f \<Rightarrow> 'g \<Rightarrow> 'z + 'g) \<Rightarrow> 'g \<Rightarrow> 'e + unit \<Rightarrow>
   (cli_options \<Rightarrow>
      'e anyhow + (('s, 'm, 't, 'b) handler \<times> 'd rate_limiter \<times> 'e endpoint_state option) \<times> 'h) \<Rightarrow>
   (socket_addr \<Rightarrow> 'e + unit) \<Rightarrow> (socket_addr \<Rightarrow> str) \<Rightarrow> instant \<Rightarrow>
   'g \<times> ('x, 'e anyhow + ('s, 'm, 't, 'b) handler \<times> ('d, 'e) process_state) main_outcome" where
  "main_program V A from_env new_filter try_init subscriber runtime start bind show_addr t =
     (install_tracing from_env new_filter try_init subscriber,
      case runtime of
        Inl e \<Rightarrow> Returned (Inl (Source e))
      | Inr _ \<Rightarrow>
          (case parse_options V A of
             Inl refused \<Rightarrow> Usage_Error refused
           | Inr cli \<Rightarrow> Returned (main_start runtime (start cli) bind show_addr t)))"

inductive process_step ::
  "chrono_ops \<Rightarrow> 'd dash_map_ops \<Rightarrow> ('s, 'm, 't, 'b) handler \<Rightarrow>
   ('d, 'e) process_state \<Rightarrow> ('d, 'e) process_state \<Rightarrow> bool"
  for C D H where
  server_moves:
    "pr_exit p = None \<Longrightarrow> threads_step C D H (pr_server p) s \<Longrightarrow>
     process_step C D H p (p\<lparr>pr_server := s\<rparr>)"
| metrics_moves:
    "pr_exit p = None \<Longrightarrow> pr_metrics p = Some m \<Longrightarrow> task_step m m' \<Longrightarrow>
     process_step C D H p (p\<lparr>pr_metrics := Some m'\<rparr>)"
| shutdown_begins:
    "pr_exit p = None \<Longrightarrow> cs_result (pr_server p) = Some e \<Longrightarrow> pr_metrics p = Some m \<Longrightarrow> ep_join m \<Longrightarrow>
     process_step C D H p (p\<lparr>pr_metrics := Some (begin_shutdown m)\<rparr>)"
| exits_plainly:
    "pr_exit p = None \<Longrightarrow> cs_result (pr_server p) = Some e \<Longrightarrow> pr_metrics p = None \<Longrightarrow>
     process_step C D H p (p\<lparr>pr_exit := Some (finish None (Inl e))\<rparr>)"
| exits_joined:
    "pr_exit p = None \<Longrightarrow> cs_result (pr_server p) = Some e \<Longrightarrow> pr_metrics p = Some m \<Longrightarrow> \<not> ep_join m \<Longrightarrow>
     joined m \<Longrightarrow>
     process_step C D H p
       (p\<lparr>pr_metrics := Some (drop_endpoint m), pr_exit := Some (finish (Some (Inr ())) (Inl e))\<rparr>)"

abbreviation process_steps ::
  "chrono_ops \<Rightarrow> 'd dash_map_ops \<Rightarrow> ('s, 'm, 't, 'b) handler \<Rightarrow>
   ('d, 'e) process_state \<Rightarrow> ('d, 'e) process_state \<Rightarrow> bool" where
  "process_steps C D H \<equiv> (process_step C D H)\<^sup>*\<^sup>*"

inductive_cases process_stepE: "process_step C D H p p'"

subsection \<open>The parts of the process\<close>

lemma process_step_parts:
  "process_step C D H p p' \<Longrightarrow>
     threads_steps C D H (pr_server p) (pr_server p') \<and>
     rel_option metrics_steps (pr_metrics p) (pr_metrics p')"
  by (erule process_stepE)
    (auto intro: task_moves owner_shutdown owner_drop simp: rel_option_iff split: option.split)

text \<open>
  What the process does is what its parts do: along every run of the process the server makes a
  run of its own steps, and so does the metrics endpoint.
\<close>

lemma process_runs_parts:
  assumes "process_steps C D H p p'"
  shows "threads_steps C D H (pr_server p) (pr_server p') \<and>
    rel_option metrics_steps (pr_metrics p) (pr_metrics p')"
  using assms
proof (induction rule: rtranclp_induct)
  case base
  show ?case by (cases "pr_metrics p") simp_all
next
  case (step q r)
  then show ?case
    using process_step_parts [OF step.hyps(2)] by (auto simp: rel_option_iff split: option.splits)
qed

definition process_inv :: "('d, 'e) process_state \<Rightarrow> bool" where
  "process_inv p \<longleftrightarrow>
     (\<forall>m. pr_metrics p = Some m \<longrightarrow> endpoint_inv m \<and> (\<not> ep_join m \<longrightarrow> ep_ready m)) \<and>
     (\<forall>r. pr_exit p = Some r \<longrightarrow> (\<exists>e. cs_result (pr_server p) = Some e \<and> r = Inl e) \<and>
        (\<forall>m. pr_metrics p = Some m \<longrightarrow> joined m))"

lemma joined_Stopped: "joined m \<longleftrightarrow> ep_task m = Stopped"
  by (simp add: joined_def split: metrics_task.split)

lemma begin_shutdown_ready: "endpoint_inv m \<Longrightarrow> ep_ready (begin_shutdown m)"
  by (auto simp: begin_shutdown_def take_and_send_def endpoint_inv_def)

lemma task_step_flags: "task_step m m' \<Longrightarrow> ep_join m' = ep_join m \<and> ep_ready m' = ep_ready m"
  by (erule task_stepE) auto

lemma process_inv_step:
  assumes "process_step C D H p p'" and "process_inv p"
  shows "process_inv p'"
  using assms(1)
proof (cases rule: process_step.cases)
  case (metrics_moves m m')
  then show ?thesis
    using assms(2) task_step_flags [OF metrics_moves(4)] endpoint_inv_step [OF task_moves]
    by (auto simp: process_inv_def)
next
  case (shutdown_begins e m)
  then show ?thesis
    using assms(2) endpoint_inv_step [OF owner_shutdown, of m] begin_shutdown_ready [of m]
    by (auto simp: process_inv_def)
next
  case (exits_joined e m)
  then have m: "endpoint_inv m" "ep_ready m" using assms(2) by (auto simp: process_inv_def)
  then have "drop_endpoint m = m" by (auto simp: endpoint_inv_def drop_endpoint_def take_and_send_def split: if_splits)
  then show ?thesis using exits_joined m by (auto simp: process_inv_def finish_def shutdown_result_def)
qed (use assms(2) in \<open>auto simp: process_inv_def finish_def\<close>)

lemma process_inv_steps: "process_steps C D H p p' \<Longrightarrow> process_inv p \<Longrightarrow> process_inv p'"
  by (induction rule: rtranclp_induct) (auto intro: process_inv_step)

text \<open>The endpoint is a new one, if there is one.\<close>

definition fresh_endpoint :: "'e endpoint_state option \<Rightarrow> bool" where
  "fresh_endpoint metrics \<longleftrightarrow>
     (\<forall>m. metrics = Some m \<longrightarrow> ep_join m \<and> ep_shutdown m \<and> \<not> ep_ready m \<and> ep_sends m = 0 \<and>
        ep_task m = Selecting \<and> ep_log m = [])"

lemma installed_fresh:
  "install_metrics recorder show_addr bind listen = Inr metrics \<Longrightarrow> fresh_endpoint metrics"
  by (auto simp: install_metrics_def spawn_metrics_endpoint_def fresh_endpoint_def result_iff split: option.splits)

lemma process_inv_init: "fresh_endpoint metrics \<Longrightarrow> process_inv (process_init bind show_addr cfg L metrics t)"
  by (auto simp: process_inv_def process_init_def fresh_endpoint_def endpoint_inv_def)

text \<open>What \<open>main\<close> starts satisfies the invariant.\<close>

lemma main_started:
  assumes "main_program V A from_env new_filter try_init subscriber runtime
      (startup I IM T C D F new_with_prefix recorder show_addr bind fs) listen show_listen t =
      (logging, Returned (Inr (H, p)))"
  shows "process_inv p" and "\<And>m. pr_metrics p = Some m \<Longrightarrow> fresh_endpoint (Some m)" and "pr_exit p = None"
proof -
  obtain cli L metrics fs1 where s: "startup I IM T C D F new_with_prefix recorder show_addr bind fs cli = Inr ((H, L, metrics), fs1)"
    "p = process_init listen show_listen (h_config H) L metrics t"
    using assms by (auto simp: main_program_def main_start_def result_iff split: prod.splits sum.splits)
  have "fresh_endpoint metrics" using s(1) unfolding startup_Inr by (auto intro: installed_fresh)
  then show "process_inv p" "\<And>m. pr_metrics p = Some m \<Longrightarrow> fresh_endpoint (Some m)" "pr_exit p = None"
    using process_inv_init by (auto simp: s(2) process_init_def)
qed

text \<open>
  C31: The process ends with an error or not at all: \<open>run\<close> returns only after the server has failed,
  to bind or to accept, with that error, and after the metrics endpoint has been told to stop, once,
  and has stopped.
\<close>

theorem process_exit:
  assumes "main_program V A from_env new_filter try_init subscriber runtime
      (startup I IM T C D F new_with_prefix recorder show_addr bind fs) listen show_listen t =
      (logging, Returned (Inr (H, p0)))"
    and "process_steps C D H p0 p" and "pr_exit p = Some r"
  shows "(\<exists>e. cs_result (pr_server p) = Some e \<and> r = Inl e) \<and>
    (\<forall>m. pr_metrics p = Some m \<longrightarrow> joined m \<and> ep_sends m = 1)"
  using process_inv_steps [OF assms(2) main_started(1) [OF assms(1)]] assms(3)
  by (fastforce simp: process_inv_def endpoint_inv_def joined_Stopped)

subsection \<open>Ending the process\<close>

lemma task_steps_process:
  "task_steps m m' \<Longrightarrow> pr_exit p = None \<Longrightarrow> pr_metrics p = Some m \<Longrightarrow>
     process_steps C D H p (p\<lparr>pr_metrics := Some m'\<rparr>)"
proof (induction rule: rtranclp_induct)
  case base
  then have "p\<lparr>pr_metrics := Some m\<rparr> = p" by (cases p) simp
  then show ?case by simp
next
  case (step m1 m2)
  then show ?case
    using metrics_moves [of "p\<lparr>pr_metrics := Some m1\<rparr>" m1 m2 C D H] by simp
qed

text \<open>
  C32: Once the server has failed, the process can always still end, with the error of the server,
  unless the metrics endpoint is busy with a connection whose handler never returns.
\<close>

theorem process_can_exit:
  assumes "main_program V A from_env new_filter try_init subscriber runtime
      (startup I IM T C D F new_with_prefix recorder show_addr bind fs) listen show_listen t =
      (logging, Returned (Inr (H, p0)))"
    and "process_steps C D H p0 p"
    and "pr_exit p = None" and "cs_result (pr_server p) = Some e"
    and "\<forall>m K. pr_metrics p = Some m \<and> ep_task m = Handling K \<longrightarrow> \<not> stalls K"
  shows "\<exists>p'. process_steps C D H p p' \<and> pr_exit p' = Some (Inl e)"
proof (cases "pr_metrics p")
  case None
  then show ?thesis
    using exits_plainly [OF assms(3,4) None, of C D H]
    by (intro exI [of _ "p\<lparr>pr_exit := Some (finish None (Inl e))\<rparr>"]) (auto simp: finish_def)
next
  case (Some m)
  have inv: "endpoint_inv m" "\<not> ep_join m \<Longrightarrow> ep_ready m"
    using process_inv_steps [OF assms(2) main_started(1) [OF assms(1)]] Some by (auto simp: process_inv_def)
  have shut: "\<exists>p'. process_steps C D H q p' \<and> pr_exit p' = Some (Inl e)"
    if q: "pr_exit q = None" "cs_result (pr_server q) = Some e" "pr_metrics q = Some n" "\<not> ep_join n" "ep_ready n"
      and stall: "\<And>K. ep_task n = Handling K \<Longrightarrow> \<not> stalls K" for q n
  proof -
    obtain n' where n': "task_steps n n'" "joined n'" using task_can_stop [OF q(5) stall] by blast
    have "ep_join n' = ep_join n"
      using n'(1) by (induction rule: rtranclp_induct) (auto dest: task_step_flags)
    then have "process_step C D H (q\<lparr>pr_metrics := Some n'\<rparr>)
        (q\<lparr>pr_metrics := Some (drop_endpoint n'), pr_exit := Some (finish (Some (Inr ())) (Inl e))\<rparr>)"
      using exits_joined [of "q\<lparr>pr_metrics := Some n'\<rparr>" e n' C D H] q n'(2) by simp
    with task_steps_process [OF n'(1) q(1,3)]
    have "process_steps C D H q
        (q\<lparr>pr_metrics := Some (drop_endpoint n'), pr_exit := Some (finish (Some (Inr ())) (Inl e))\<rparr>)"
      by (rule rtranclp.rtrancl_into_rtrancl)
    then show ?thesis
      by (intro exI [of _ "q\<lparr>pr_metrics := Some (drop_endpoint n'), pr_exit := Some (finish (Some (Inr ())) (Inl e))\<rparr>"])
        (simp add: finish_def shutdown_result_def)
  qed
  show ?thesis
  proof (cases "ep_join m")
    case False
    then show ?thesis using shut [OF assms(3,4) Some] inv assms(5) Some by blast
  next
    case True
    let ?q = "p\<lparr>pr_metrics := Some (begin_shutdown m)\<rparr>"
    have "ep_task (begin_shutdown m) = ep_task m" "\<not> ep_join (begin_shutdown m)"
      by (simp_all add: begin_shutdown_def take_and_send_def)
    then have "\<exists>p'. process_steps C D H ?q p' \<and> pr_exit p' = Some (Inl e)"
      using shut [of ?q "begin_shutdown m"] assms(3,4,5) Some begin_shutdown_ready [OF inv(1)] by simp
    then show ?thesis
      using shutdown_begins [OF assms(3,4) Some True, of C D H] by (meson converse_rtranclp_into_rtranclp)
  qed
qed

lemma stuck_step:
  "process_step C D H p p' \<Longrightarrow> pr_exit p = None \<Longrightarrow> pr_metrics p = Some m \<Longrightarrow> ep_task m = Handling K \<Longrightarrow> stalls K \<Longrightarrow>
     pr_exit p' = None \<and> (\<exists>m'. pr_metrics p' = Some m' \<and> ep_task m' = Handling K)"
  by (erule process_stepE)
    (auto simp: begin_shutdown_def take_and_send_def joined_Stopped dest: stalled_step [OF task_moves])

lemma stuck_steps:
  "process_steps C D H p p' \<Longrightarrow> pr_exit p = None \<Longrightarrow> pr_metrics p = Some m \<Longrightarrow> ep_task m = Handling K \<Longrightarrow> stalls K \<Longrightarrow>
     pr_exit p' = None \<and> (\<exists>m'. pr_metrics p' = Some m' \<and> ep_task m' = Handling K)"
  by (induction rule: rtranclp_induct) (auto dest: stuck_step)

text \<open>
  C33: A single peer of the metrics endpoint can keep the process from ever ending: if it connects and
  sends nothing, the server can fail and the endpoint be told to stop, and yet \<open>run\<close> does not return
  in any continuation.
\<close>

theorem silent_peer_keeps_process:
  fixes K :: "'e metrics_socket"
  assumes "main_program V A from_env new_filter try_init subscriber runtime
      (startup I IM T C D F new_with_prefix recorder show_addr bind fs) listen show_listen t =
      (logging, Returned (Inr (H, p0)))"
    and "pr_metrics p0 = Some m" and "cs_result (pr_server p0) = None" and "mk_read K 1024 = Read_pending"
  shows "\<exists>p. process_steps C D H p0 p \<and>
    cs_result (pr_server p) = Some (Source (Io (e :: 'e))) \<and> (\<exists>m'. pr_metrics p = Some m' \<and> ep_ready m') \<and>
    (\<forall>p'. process_steps C D H p p' \<longrightarrow> pr_exit p' = None)"
proof -
  let ?p0 = p0
  note p0 = main_started(3) [OF assms(1)] assms(2,3) and fresh = main_started(2) [OF assms(1,2)]
  let ?m1 = "m\<lparr>ep_task := Handling K\<rparr>"
  let ?p1 = "?p0\<lparr>pr_metrics := Some ?m1\<rparr>"
  have s1: "process_step C D H ?p0 ?p1"
    using metrics_moves [OF p0(1,2), of ?m1 C D H] select_accept [of m "Inr K"] fresh
    by (simp add: fresh_endpoint_def handle_accept_def)
  let ?p2 = "?p1\<lparr>pr_server := (pr_server ?p0)\<lparr>cs_result := Some (Source (Io e))\<rparr>\<rparr>"
  have s2: "process_step C D H ?p1 ?p2"
    using server_moves [of ?p1 C D H] accept_fails [of "pr_server ?p0" C D H e] p0 by simp
  let ?p3 = "?p2\<lparr>pr_metrics := Some (begin_shutdown ?m1)\<rparr>"
  have s3: "process_step C D H ?p2 ?p3"
    using shutdown_begins [of ?p2 "Source (Io e)" ?m1 C D H] p0 fresh by (simp add: fresh_endpoint_def)
  have "process_steps C D H ?p0 ?p3" using s1 s2 s3 by (meson converse_rtranclp_into_rtranclp r_into_rtranclp)
  moreover have m3: "pr_metrics ?p3 = Some (begin_shutdown ?m1)" "ep_task (begin_shutdown ?m1) = Handling K"
    "ep_ready (begin_shutdown ?m1)" "pr_exit ?p3 = None" "cs_result (pr_server ?p3) = Some (Source (Io e))"
    using p0 fresh by (simp_all add: begin_shutdown_def take_and_send_def fresh_endpoint_def)
  moreover have "pr_exit p' = None" if "process_steps C D H ?p3 p'" for p'
    using stuck_steps [OF that m3(4,1,2) silent_peer_stalls [OF assms(4)]] by blast
  ultimately show ?thesis by (intro exI [of _ ?p3]) blast
qed

subsection \<open>A failed accept\<close>

text \<open>The connections a server has accepted, answered ones included.\<close>

definition connections :: "('d, 'e) threads_state \<Rightarrow> ('e socket_ops \<times> socket_addr) multiset" where
  "connections s = mset (cs_waiting s) + mset (map fst (cs_tasks s))"

lemma mset_remove_task:
  assumes "i < length tasks"
  shows "mset tasks = add_mset (tasks ! i) (mset (remove_task i tasks))"
proof -
  have "mset tasks = mset (take i tasks @ tasks ! i # drop (Suc i) tasks)" using id_take_nth_drop [OF assms] by simp
  then show ?thesis by (simp add: remove_task_def)
qed

lemma failed_server_step:
  assumes "threads_step C D H s s'" and "cs_result s = Some e"
  shows "cs_result s' = Some e \<and> connections s' = connections s"
  using assms(1)
proof (cases rule: threads_step.cases)
  case (check_begins i K addr L ps now)
  then show ?thesis using assms(2) mset_remove_task [OF check_begins(2)] by (simp add: connections_def)
next
  case (task_answers i K addr now verdict r acts)
  then have "map fst ((cs_tasks s)[i := ((K, addr), True)]) = map fst (cs_tasks s)"
    by (simp add: map_update list_update_same_conv)
  then show ?thesis using task_answers(1) assms(2) by (simp add: connections_def)
qed (use assms(2) in \<open>auto simp: connections_def\<close>)

lemma failed_process_step:
  assumes "process_step C D H p p'" and "cs_result (pr_server p) = Some e"
    and "\<forall>r. pr_exit p = Some r \<longrightarrow> r = Inl e"
  shows "cs_result (pr_server p') = Some e \<and> connections (pr_server p') = connections (pr_server p) \<and>
    (\<forall>r. pr_exit p' = Some r \<longrightarrow> r = Inl e)"
  using assms by (cases rule: process_step.cases)
    (auto simp: finish_def shutdown_result_def dest: failed_server_step)

lemma failed_process_steps:
  assumes "process_steps C D H p p'" and "cs_result (pr_server p) = Some e" and "pr_exit p = None"
  shows "cs_result (pr_server p') = Some e \<and> connections (pr_server p') = connections (pr_server p) \<and>
    (\<forall>r. pr_exit p' = Some r \<longrightarrow> r = Inl e)"
  using assms(1)
proof (induction rule: rtranclp_induct)
  case (step y z)
  then show ?case using failed_process_step [OF step.hyps(2), of e] by simp
qed (use assms(2,3) in simp)

text \<open>
  C30: One failed \<open>accept\<close>, whatever the error, is a step that ends the server: in every continuation
  the process accepts no other connection, it has exactly those it had before, and when \<open>run\<close>
  returns, it returns that error.
\<close>

theorem failed_accept_is_final:
  assumes "pr_exit p = None" and "cs_result (pr_server p) = None"
    and "q = p\<lparr>pr_server := threads_accept (Inl e) (pr_server p)\<rparr>"
  shows "process_step C D H p q \<and>
    (\<forall>p'. process_steps C D H q p' \<longrightarrow>
       cs_result (pr_server p') = Some (Source (Io e)) \<and>
       connections (pr_server p') = connections (pr_server p) \<and>
       (\<forall>r. pr_exit p' = Some r \<longrightarrow> r = Inl (Source (Io e))))"
proof -
  have "process_step C D H p q" unfolding assms(3) by (rule server_moves [OF assms(1) accepts [OF assms(2)]])
  moreover have "cs_result (pr_server q) = Some (Source (Io e))" "pr_exit q = None"
    "connections (pr_server q) = connections (pr_server p)"
    using assms(1) by (simp_all add: assms(3) connections_def)
  ultimately show ?thesis by (metis failed_process_steps)
qed

subsection \<open>The configured rate\<close>

text \<open>
  C6: The configured rate also bounds a server whose connections race: with a clock whose readings
  lag by at most a quarter of the window, whatever the scheduling, the checks of a client within any
  \<open>max(rate_window_secs, 1)\<close> seconds have caused at most \<open>3 * max(rate_limit, 1) - 1\<close> lookups, as
  long as no more than \<open>max(rate_capacity, 1)\<close> clients came.
\<close>

theorem configured_rate_concurrent:
  assumes "limiter_env C D"
    and "startup I IM T C D F new_with_prefix recorder show_addr bind fs cli = Inr ((H, L, metrics), fs1)"
    and "ch_from_std C (duration_from_secs (max (cli_rate_window_secs cli) 1)) \<noteq> None"
    and "0 \<le> lag" and "4 * lag \<le> int (unat (max (cli_rate_window_secs cli) 1)) * 1000000000"
    and "threads_run C D H L lag t s"
    and "card (clients s) \<le> unat (max (cli_rate_capacity cli) 1)"
  shows "lookups_in a (a + int (unat (max (cli_rate_window_secs cli) 1)) * 1000000000) ip (cs_log s)
    \<le> 3 * unat (max (cli_rate_limit cli) 1) - 1"
proof -
  note L = started_limiter [OF assms(2)]
  note w = started_window [OF assms(1,3,2)]
  let ?S = "cfg_rate (h_config H)"
  have run: "threads_run C D H (with_clock C D ?S) lag t s" using assms(6) L(1) by simp
  have card: "card (clients s) \<le> max 1 (unat (rs_max_entries ?S))" using assms(7) by (simp add: L(2))
  have pos: "0 < rs_max_requests ?S" "0 < max (cli_rate_window_secs cli) 1"
    by (simp_all add: L(2) word_less_def word_le_def max_def)
  then have "0 < rl_window (with_clock C D ?S)" using w L(1) by (simp add: word_less_def)
  from concurrent_lookups_bounded [OF assms(1) run card pos(1) assms(4) _ this, of a ip] show ?thesis
    using assms(5) w L by simp
qed

subsection \<open>A process that ends\<close>

text \<open>
  \<open>main\<close> with the flag for a metrics endpoint, and no variable.  The first \<open>accept\<close> fails, the
  endpoint is told to stop and does, and \<open>run\<close> returns.
\<close>

definition sample_args :: arg_source where
  "sample_args =
     \<lparr>arg_flag = \<lambda>f. (if f = lit ''metrics-listen'' then Some (lit ''0.0.0.0:9100'') else None),
      arg_env = \<lambda>v. None\<rparr>"

definition sample_main where
  "sample_main =
     (main_program decimal_parsers sample_args (Inl ()) id (\<lambda>f g. Inr f :: unit + str) [] (Inr ())
        (startup list_index_set assoc_index_map (const_toml sample_table) day_chrono assoc_dash_map
          table_fs (\<lambda>fs p. Inr (sample_store sample_objects)) (Inr ()) (\<lambda>a. []) (\<lambda>a. Inr ()) [])
        (\<lambda>a. Inr ()) (\<lambda>a. []) 0 ::
      str \<times> (unit, unit anyhow + (hostname list, (str \<times> str) list, unit, unit) handler \<times>
        ((ip_addr \<times> rate_entry) list, unit) process_state) main_outcome)"

lemma sample_options:
  "\<exists>cli. parse_options decimal_parsers sample_args = Inr cli \<and>
     cli_metrics_listen cli = Some \<lparr>sa_ip = V4 0, sa_port = 9100\<rparr> \<and>
     cli_default_host cli = lit ''localhost'' \<and> cli_allowed_hosts cli = None"
proof -
  have shown: "lit ''0.0.0.0:9100'' = display_v4 [0, 0, 0, 0] 9100" "lit ''0.0.0.0:7979'' = display_v4 [0, 0, 0, 0] 7979"
    by (simp_all add: display_v4_def lit_def display_nat.simps)
  have zero: "word_rcat [0, 0, 0, 0 :: 8 word] = (0 :: u32)" by (simp add: word_rcat_def)
  have none: "arg_value sample_args flag var = None" if "lit flag \<noteq> lit ''metrics-listen''" for flag var
    using that by (simp add: arg_value_def sample_args_def)
  have flags: "lit ''listen'' \<noteq> lit ''metrics-listen''" "lit ''default-host'' \<noteq> lit ''metrics-listen''"
    "lit ''allowed-hosts'' \<noteq> lit ''metrics-listen''" "lit ''store-root'' \<noteq> lit ''metrics-listen''"
    "lit ''profile-prefix'' \<noteq> lit ''metrics-listen''" "lit ''plan-prefix'' \<noteq> lit ''metrics-listen''"
    "lit ''rate-limit'' \<noteq> lit ''metrics-listen''" "lit ''rate-window-secs'' \<noteq> lit ''metrics-listen''"
    "lit ''rate-capacity'' \<noteq> lit ''metrics-listen''" "lit ''request-timeout-ms'' \<noteq> lit ''metrics-listen''"
    "lit ''max-request-bytes'' \<noteq> lit ''metrics-listen''"
    by (simp_all add: lit_def)
  have given: "arg_value sample_args ''metrics-listen'' var = Some (lit ''0.0.0.0:9100'')" for var
    by (simp add: arg_value_def sample_args_def)
  show ?thesis
    using decimals.u32 [of 30] decimals.u64 [of 60] decimals.u64 [of 3000] decimals.usize [of 8192]
      decimals.usize [of 512] decimals.addr [of 0 0 0 0 7979] decimals.addr [of 0 0 0 0 9100]
    by (simp add: parse_options_def arg_or_def arg_optional_def none flags given shown zero) (simp add: lit_def)
qed

lemma sample_main_starts:
  "\<exists>H p. sample_main = (lit ''info'', Returned (Inr (H, p))) \<and> pr_exit p = None \<and>
     pr_metrics p = Some sample_endpoint \<and> cs_result (pr_server p) = None"
proof -
  obtain cli where cli: "parse_options decimal_parsers sample_args = Inr cli"
    "cli_metrics_listen cli = Some \<lparr>sa_ip = V4 0, sa_port = 9100\<rparr>"
    "cli_default_host cli = lit ''localhost''" "cli_allowed_hosts cli = None"
    using sample_options by blast
  have "hostname_parse (lit ''localhost'') = Inr (HostName (lit ''localhost''))" by (simp add: text_eval)
  then obtain cfg where cfg: "(from_cli list_index_set cli :: unit anyhow + _) = Inr cfg"
    by (simp add: from_cli_def cli)
  have "(install_metrics (Inr ()) (\<lambda>a. []) (\<lambda>a. Inr ()) (cfg_metrics_listen cfg) :: unit anyhow + _) =
      Inr (Some sample_endpoint)"
    by (simp add: install_metrics_def from_cli_rate(3) [OF cfg] cli(2) sample_endpoint_spawned)
  moreover have "build_store table_fs (\<lambda>fs p. Inr (sample_store sample_objects)) cfg [] =
      Inr (sample_store sample_objects, [(cfg_store_root cfg, True)])"
    by (simp add: build_store_def ensure_directory_def table_fs_def)
  ultimately show ?thesis
    by (simp add: sample_main_def main_program_def install_tracing_def main_start_def startup_def cli(1) cfg Let_def
        process_init_def run_start_def threads_init_def)
qed

lemma process_fails:
  "pr_exit p = None \<Longrightarrow> cs_result (pr_server p) = None \<Longrightarrow>
     process_steps C D H p (p\<lparr>pr_server := (pr_server p)\<lparr>cs_result := Some (Source (Io e))\<rparr>\<rparr>)"
  by (intro r_into_rtranclp server_moves accept_fails)

lemma sample_failed_ends:
  fixes p :: "('d, unit) process_state"
  assumes "pr_exit p = None" and "pr_metrics p = Some sample_endpoint" and "cs_result (pr_server p) = None"
  shows "\<exists>p' m. process_steps C D H (p\<lparr>pr_server := (pr_server p)\<lparr>cs_result := Some (Source (Io ()))\<rparr>\<rparr>) p' \<and>
    pr_metrics p' = Some m \<and> pr_exit p' = Some (Inl (Source (Io ())))"
proof -
  let ?run = "process_steps C D H" and ?stopping = "begin_shutdown sample_endpoint"
  let ?failed = "p\<lparr>pr_server := (pr_server p)\<lparr>cs_result := Some (Source (Io ()))\<rparr>\<rparr>"
  let ?stopped = "?stopping\<lparr>ep_task := Stopped\<rparr>"
  let ?p = "?failed\<lparr>pr_metrics := Some ?stopping\<rparr>"
  have m: "ep_join sample_endpoint" "ep_task ?stopping = Selecting" "ep_ready ?stopping" "\<not> ep_join ?stopping"
    by (simp_all add: sample_endpoint_def begin_shutdown_def take_and_send_def)
  have "?run ?failed ?p"
    using shutdown_begins [of ?failed "Source (Io ())" sample_endpoint C D H] m(1) assms by (intro r_into_rtranclp) simp
  moreover have "?run ?p (?p\<lparr>pr_metrics := Some ?stopped\<rparr>)"
    using metrics_moves [of ?p ?stopping ?stopped] select_shutdown [OF m(2,3)] assms by (intro r_into_rtranclp) simp
  moreover have "?run (?p\<lparr>pr_metrics := Some ?stopped\<rparr>)
      (?p\<lparr>pr_metrics := Some (drop_endpoint ?stopped), pr_exit := Some (finish (Some (Inr ())) (Inl (Source (Io ()))))\<rparr>)"
    using exits_joined [of "?p\<lparr>pr_metrics := Some ?stopped\<rparr>" "Source (Io ())" ?stopped] assms m(4)
    by (intro r_into_rtranclp) (simp add: joined_def)
  ultimately show ?thesis
    by (intro exI [of _ "?p\<lparr>pr_metrics := Some (drop_endpoint ?stopped),
        pr_exit := Some (finish (Some (Inr ())) (Inl (Source (Io ()))))\<rparr>"] exI [of _ "drop_endpoint ?stopped"])
      (auto simp: finish_def shutdown_result_def intro: rtranclp_trans)
qed

lemma sample_process_ends:
  fixes p :: "('d, unit) process_state"
  assumes "pr_exit p = None" and "pr_metrics p = Some sample_endpoint" and "cs_result (pr_server p) = None"
  shows "\<exists>p' m. process_steps C D H p p' \<and> pr_metrics p' = Some m \<and> pr_exit p' = Some (Inl (Source (Io ())))"
  using sample_failed_ends [OF assms, of C D H] process_fails [OF assms(1,3), of C D H "()"]
  by (blast intro: rtranclp_trans)

lemma failed_accept_is_final_witness:
  "\<exists>H p0 p. sample_main = (lit ''info'', Returned (Inr (H, p0))) \<and>
     process_steps day_chrono assoc_dash_map H (p0\<lparr>pr_server := threads_accept (Inl ()) (pr_server p0)\<rparr>) p \<and>
     cs_result (pr_server p) = Some (Source (Io ())) \<and> connections (pr_server p) = connections (pr_server p0) \<and>
     pr_exit p = Some (Inl (Source (Io ())))"
proof -
  obtain H p0 where s: "sample_main = (lit ''info'', Returned (Inr (H, p0)))" "pr_exit p0 = None" "pr_metrics p0 = Some sample_endpoint"
    "cs_result (pr_server p0) = None" using sample_main_starts by blast
  obtain p where p: "process_steps day_chrono assoc_dash_map H (p0\<lparr>pr_server := threads_accept (Inl ()) (pr_server p0)\<rparr>) p"
    "pr_exit p = Some (Inl (Source (Io ())))"
    using sample_failed_ends [OF s(2-4), of day_chrono assoc_dash_map H] by auto
  from failed_accept_is_final [OF s(2,4) refl] s(1) p show ?thesis by blast
qed

lemma process_exit_witness:
  "\<exists>H p0 p m. sample_main = (lit ''info'', Returned (Inr (H, p0))) \<and> process_steps day_chrono assoc_dash_map H p0 p \<and>
     cs_result (pr_server p) = Some (Source (Io ())) \<and> pr_metrics p = Some m \<and> joined m \<and> ep_sends m = 1"
proof -
  obtain H p0 where s: "sample_main = (lit ''info'', Returned (Inr (H, p0)))" "pr_exit p0 = None" "pr_metrics p0 = Some sample_endpoint"
    "cs_result (pr_server p0) = None" using sample_main_starts by blast
  obtain p m where p: "process_steps day_chrono assoc_dash_map H p0 p" "pr_metrics p = Some m"
    "pr_exit p = Some (Inl (Source (Io ())))" using sample_process_ends [OF s(2-4)] by blast
  from process_exit [OF s(1) [unfolded sample_main_def] p(1,3)] s(1) p(1,2) show ?thesis by auto
qed

lemma process_runs_parts_witness:
  "\<exists>H p0 p m. sample_main = (lit ''info'', Returned (Inr (H, p0))) \<and> process_steps day_chrono assoc_dash_map H p0 p \<and>
     pr_exit p \<noteq> None \<and> pr_metrics p = Some m \<and> metrics_steps sample_endpoint m \<and>
     threads_steps day_chrono assoc_dash_map H (pr_server p0) (pr_server p)"
proof -
  obtain H p0 where s: "sample_main = (lit ''info'', Returned (Inr (H, p0)))" "pr_exit p0 = None" "pr_metrics p0 = Some sample_endpoint"
    "cs_result (pr_server p0) = None" using sample_main_starts by blast
  obtain p m where p: "process_steps day_chrono assoc_dash_map H p0 p" "pr_metrics p = Some m"
    "pr_exit p = Some (Inl (Source (Io ())))" using sample_process_ends [OF s(2-4)] by blast
  from process_runs_parts [OF p(1)] s p show ?thesis by auto
qed

lemma process_can_exit_witness:
  "\<exists>H p0 p. sample_main = (lit ''info'', Returned (Inr (H, p0))) \<and>
     process_steps day_chrono assoc_dash_map H
       (p0\<lparr>pr_server := (pr_server p0)\<lparr>cs_result := Some (Source (Io ()))\<rparr>\<rparr>) p \<and>
     pr_exit p = Some (Inl (Source (Io ())))"
proof -
  obtain H p0 where s: "sample_main = (lit ''info'', Returned (Inr (H, p0)))" "pr_exit p0 = None" "pr_metrics p0 = Some sample_endpoint"
    "cs_result (pr_server p0) = None" using sample_main_starts by blast
  let ?p = "p0\<lparr>pr_server := (pr_server p0)\<lparr>cs_result := Some (Source (Io ()))\<rparr>\<rparr>"
  have p: "process_steps day_chrono assoc_dash_map H p0 ?p" using process_fails [OF s(2,4)] .
  have q: "pr_exit ?p = None" "cs_result (pr_server ?p) = Some (Source (Io ()))" using s(2) by simp_all
  have "\<forall>m K. pr_metrics ?p = Some m \<and> ep_task m = Handling K \<longrightarrow> \<not> stalls K"
    using s(3) by (auto simp: sample_endpoint_def)
  from process_can_exit [OF s(1) [unfolded sample_main_def] p q this] s(1) show ?thesis by blast
qed

lemma silent_peer_keeps_process_witness:
  "\<exists>H p0 p. sample_main = (lit ''info'', Returned (Inr (H, p0))) \<and> process_steps day_chrono assoc_dash_map H p0 p \<and>
     cs_result (pr_server p) = Some (Source (Io ())) \<and>
     (\<forall>p'. process_steps day_chrono assoc_dash_map H p p' \<longrightarrow> pr_exit p' = None)"
proof -
  obtain H p0 where s: "sample_main = (lit ''info'', Returned (Inr (H, p0)))" "pr_exit p0 = None" "pr_metrics p0 = Some sample_endpoint"
    "cs_result (pr_server p0) = None" using sample_main_starts by blast
  have "mk_read (scripted_metrics Read_pending) 1024 = Read_pending" by (simp add: scripted_metrics_def)
  from silent_peer_keeps_process [OF s(1) [unfolded sample_main_def] s(3,4) this, of "()"] s(1)
  show ?thesis by blast
qed

lemma configured_rate_concurrent_witness:
  "\<exists>H L metrics fs1 t s acts. sample_startup = Inr ((H, L, metrics), fs1) \<and>
     threads_run day_chrono assoc_dash_map H L 250000000 t (s :: (_, unit) threads_state) \<and>
     cs_log s = [(client_a, 2000000000, acts)] \<and>
     lookups_in 2000000000 3000000000 client_a (cs_log s) \<le> 2"
proof -
  obtain H L metrics fs1 where s: "sample_startup = Inr ((H, L, metrics), fs1)"
    using sample_startup_succeeds by blast
  let ?S = "cfg_rate (h_config H)"
  note L = started_limiter [OF s [unfolded sample_startup_def]]
  have window: "ch_from_std day_chrono (duration_from_secs (max (cli_rate_window_secs sample_cli) 1)) \<noteq> None"
    by (simp add: sample_cli_def duration_from_secs_def nanos_per_sec_def day_chrono_def ranged_chrono_def)
  have cutoff: "cutoff_ok day_chrono (with_clock day_chrono assoc_dash_map ?S) 2000000000"
    by (simp add: L(2) cutoff_ok_def with_clock_def chrono_duration_def Let_def day_chrono_def ranged_chrono_def
        sample_cli_def duration_from_secs_def nanos_per_sec_def)
  obtain t acts and st :: "((ip_addr \<times> rate_entry) list, unit) threads_state" where
    st: "threads_run day_chrono assoc_dash_map H L 250000000 t st"
    "cs_log st = [(client_a, 2000000000, acts)]" "clients st = {client_a}"
    using one_task_run [OF day_env cutoff, where lag = 250000000 and H = H
        and addr = "\<lparr>sa_ip = client_a, sa_port = 4000\<rparr>"] L(1) by auto
  have card: "card (clients st) \<le> unat (max (cli_rate_capacity sample_cli) 1)"
    by (simp add: st(3) sample_cli_def)
  have "lookups_in 2000000000 3000000000 client_a (cs_log st) \<le> 2"
    using configured_rate_concurrent [OF day_env s [unfolded sample_startup_def] window _ _ st(1) card,
        of 2000000000 client_a] by (simp add: sample_cli_def)
  with s st(1,2) show ?thesis by blast
qed

end
