(* ===== verification/Parser_Tests.thy ===== *)
theory Parser_Tests
  imports Query Framing
begin

section \<open>The unit tests of the parsers and of the framing\<close>

text \<open>
  The tests that src/identity.rs, src/query.rs and src/framing.rs carry, over the model: a definition per test function, with its
  assertions as a bool, and the cases of its attributes as a list.  That they all pass ties the model
  to what the authors expect of the code, example by example.  A \<open>panic!\<close> or an error that a test
  returns is \<^term>\<open>False\<close>.
\<close>

subsection \<open>src/identity.rs\<close>

definition as_str_is :: "'e + 'a \<Rightarrow> ('a \<Rightarrow> str) \<Rightarrow> str option \<Rightarrow> bool" where
  "as_str_is outcome as_str expected =
     (case expected of
        Some val \<Rightarrow> (case outcome of Inr name \<Rightarrow> as_str name = val | Inl _ \<Rightarrow> False)
      | None \<Rightarrow> isl outcome)"

definition username_validation :: "str \<Rightarrow> str option \<Rightarrow> bool" where
  "username_validation input expected = as_str_is (username_parse input) username_str expected"

definition username_cases :: "(str \<times> str option) list" where
  "username_cases =
     [(lit ''alice'', Some (lit ''alice'')), (lit ''ALICE'', Some (lit ''alice'')),
      (lit ''bob-1'', Some (lit ''bob-1'')), (lit ''  charlie_2  '', Some (lit ''charlie_2'')),
      (lit '''', None), (lit ''averylongusernamebeyondlimittoolong'', None),
      (lit ''bad.name'', None), (lit ''bad name'', None)]"

definition hostname_validation :: "str \<Rightarrow> str option \<Rightarrow> bool" where
  "hostname_validation input expected = as_str_is (hostname_parse input) hostname_str expected"

definition hostname_cases :: "(str \<times> str option) list" where
  "hostname_cases =
     [(lit ''example.com'', Some (lit ''example.com'')), (lit ''Example.COM'', Some (lit ''example.com'')),
      (lit ''a-b.c-d'', Some (lit ''a-b.c-d'')), (lit ''-bad.com'', None), (lit ''bad-.com'', None),
      (lit ''bad..com'', None), (lit ''bad@com'', None)]"

subsection \<open>src/query.rs\<close>

definition to_line :: "str \<Rightarrow> bytes" where
  "to_line query = as_bytes (query @ crlf)"

definition successful_parse :: "str \<Rightarrow> bool \<Rightarrow> str \<Rightarrow> str option \<Rightarrow> bool" where
  "successful_parse input verbose expected_user expected_host =
     (case query_parse (to_line input) of
        Inl _ \<Rightarrow> False
      | Inr query \<Rightarrow> fq_verbose query = verbose \<and> username_str (fq_username query) = expected_user \<and>
          map_option hostname_str (fq_host query) = expected_host)"

definition successful_cases :: "(str \<times> bool \<times> str \<times> str option) list" where
  "successful_cases =
     [(lit ''alice'', False, lit ''alice'', None),
      (lit ''alice@remote'', False, lit ''alice'', Some (lit ''remote'')),
      (lit ''/W alice'', True, lit ''alice'', None),
      (lit ''/W    alice@example.com'', True, lit ''alice'', Some (lit ''example.com'')),
      (lit ''/W alice@example.com@other'', True, lit ''alice'', Some (lit ''example.com'')),
      (lit ''/w alice'', True, lit ''alice'', None),
      (lit ''/w alice@example.com'', True, lit ''alice'', Some (lit ''example.com''))]"

definition invalid_queries :: "str \<Rightarrow> bool" where
  "invalid_queries input = isl (query_parse (to_line input))"

definition invalid_cases :: "str list" where
  "invalid_cases =
     [lit ''/W alice more'', lit ''/x alice'', lit '''', lit ''AL ice'', lit ''/walice'',
      lit ''/Walice@example.com'']"

subsection \<open>src/framing.rs\<close>

definition push_line_normalises_endings :: "str \<Rightarrow> bytes \<Rightarrow> bool" where
  "push_line_normalises_endings input expected =
     (into_bytes (push_line \<lparr>buf_bytes = []\<rparr> input) = expected)"

definition ending_cases :: "(str \<times> bytes) list" where
  "ending_cases =
     [(lit '''', as_bytes crlf), (lit ''status'', as_bytes (lit ''status'' @ crlf)),
      (lit ''status'' @ crlf, as_bytes (lit ''status'' @ crlf)),
      (lit ''status'' @ [CR], as_bytes (lit ''status'' @ crlf)),
      (lit ''status'' @ [LF], as_bytes (lit ''status'' @ crlf))]"

lemma username_tests: "list_all (\<lambda>(input, expected). username_validation input expected) username_cases"
  by (simp add: username_cases_def username_validation_def as_str_is_def) (simp add: text_eval)

lemma hostname_tests: "list_all (\<lambda>(input, expected). hostname_validation input expected) hostname_cases"
  by (simp add: hostname_cases_def hostname_validation_def as_str_is_def) (simp add: text_eval)

lemma ending_tests: "list_all (\<lambda>(input, expected). push_line_normalises_endings input expected) ending_cases"
  by (simp add: ending_cases_def push_line_normalises_endings_def push_line_def into_bytes_def trim_line_endings_def)
    (simp add: text_eval line_ending_def crlf_def)

lemma validate_to_line:
  "valid_str s \<Longrightarrow> \<not> list_ex is_embedded_control_char (as_bytes s) \<Longrightarrow> validate_input (to_line s) = Inr s"
  by (simp add: validate_input_def to_line_def crlf_def is_scalar_def flip: crlf_def)

lemmas query_eval =
  text_eval split_whitespace_def parse_verbose_flag_def ensure_valid_def eq_ignore_ascii_case_def
  parse_user_host_def host_fragment_def splitn2_def

lemma query_lines:
  "s \<in> fst ` set successful_cases \<union> set invalid_cases \<Longrightarrow> validate_input (to_line s) = Inr s"
  unfolding successful_cases_def invalid_cases_def
  by (intro validate_to_line)
    (auto simp: lit_def is_scalar_def encode_char_def byte_def is_embedded_control_char_def word_le_nat_alt)

lemma invalid_tests: "list_all invalid_queries invalid_cases"
proof -
  have "list_all (\<lambda>s. validate_input (to_line s) = Inr s) invalid_cases"
    using query_lines by (simp add: list_all_iff)
  then show ?thesis
    by (simp add: invalid_cases_def invalid_queries_def query_parse_def) (simp add: query_eval)
qed

lemma successful_tests:
  "list_all (\<lambda>(input, verbose, user, host). successful_parse input verbose user host) successful_cases"
proof -
  have "list_all (\<lambda>s. validate_input (to_line s) = Inr s) (map fst successful_cases)"
    using query_lines by (simp add: list_all_iff)
  then show ?thesis
    by (simp add: successful_cases_def successful_parse_def query_parse_def) (simp add: query_eval)
qed

text \<open>
  The parsers and the framing pass their unit tests: every case of the tests of usernames,
  hostnames, accepted queries, refused queries and line endings has the outcome that the test
  expects.
\<close>

lemma parser_tests_pass:
  "list_all (\<lambda>(input, expected). username_validation input expected) username_cases \<and>
   list_all (\<lambda>(input, expected). hostname_validation input expected) hostname_cases \<and>
   list_all (\<lambda>(input, verbose, user, host). successful_parse input verbose user host) successful_cases \<and>
   list_all invalid_queries invalid_cases \<and>
   list_all (\<lambda>(input, expected). push_line_normalises_endings input expected) ending_cases"
  by (intro conjI username_tests hostname_tests successful_tests invalid_tests ending_tests)

end
