(* ===== verification/Profile_Tests.thy ===== *)
theory Profile_Tests
  imports Server "HOL-Library.Sublist"
begin

section \<open>The unit tests of profiles, repository and responses\<close>

text \<open>
  The tests that src/user.rs, src/storage.rs and src/server.rs carry, over the model, as in
  \<open>Parser_Tests\<close>.  What the toml crate reads from their documents is an assumption of the properties,
  \<open>reads_documents\<close>.  A directory of files
  is the list of their paths and contents.
\<close>

subsection \<open>Documents\<close>

text \<open>A table has its keys in order; a value that is not a string is \<^term>\<open>None\<close>.\<close>

definition toml_reads ::
  "('v, 'e) toml_ops \<Rightarrow> str \<Rightarrow> (str \<times> str option) list option \<Rightarrow> bool" where
  "toml_reads T contents entries =
     (case toml_from_str T contents of
        Inl _ \<Rightarrow> entries = None
      | Inr doc \<Rightarrow> map_option (map (\<lambda>(k, v). (k, toml_as_str T v))) (toml_as_table T doc) = entries \<and>
          entries \<noteq> None)"

text \<open>A raw string of several indented lines.\<close>

definition raw_lines :: "nat \<Rightarrow> string list \<Rightarrow> nat \<Rightarrow> str" where
  "raw_lines indent ls closing =
     LF # concat (map (\<lambda>l. replicate indent 32 @ lit l @ [LF]) ls) @ replicate closing 32"

definition doc_alice :: str where
  \<open>doc_alice = raw_lines 12
     [''username = "alice"'', ''full_name = "Alice Smith"'', ''email = "alice@example.com"''] 8\<close>

definition doc_bob :: str where
  \<open>doc_bob = lit ''username = "bob"'' @ [LF] @ lit ''full_name = "Alice Smith"'' @ [LF]\<close>

definition doc_bad_name :: str where
  \<open>doc_bad_name = lit ''username = "bad name"'' @ [LF] @ lit ''full_name = "Alice Smith"'' @ [LF]\<close>

definition doc_no_name :: str where
  \<open>doc_no_name = lit ''full_name = "Alice Smith"'' @ [LF]\<close>

definition doc_age :: str where
  \<open>doc_age = lit ''username = "alice"'' @ [LF] @ lit ''age = 42'' @ [LF]\<close>

definition doc_cut :: str where
  \<open>doc_cut = lit ''username = "alice"'' @ [LF] @ lit ''full_name =''\<close>

definition doc_name_only :: str where
  \<open>doc_name_only = raw_lines 12 [''username = "alice"''] 8\<close>

definition doc_example :: str where
  \<open>doc_example = raw_lines 24 [''username = "alice"'', ''full_name = "Alice Example"''] 20\<close>

definition test_document :: "str \<Rightarrow> str" where
  \<open>test_document name = LF # replicate 16 32 @ lit ''username = "'' @ name @ lit ''"'' @ [LF] @
     replicate 16 32 @ lit ''full_name = "Test User"'' @ [LF] @ replicate 12 32\<close>

definition documents :: "(str \<times> (str \<times> str option) list option) list" where
  "documents =
     [(doc_alice, Some [(lit ''email'', Some (lit ''alice@example.com'')),
        (lit ''full_name'', Some (lit ''Alice Smith'')), (username_key, Some (lit ''alice''))]),
      (doc_bob, Some [(lit ''full_name'', Some (lit ''Alice Smith'')), (username_key, Some (lit ''bob''))]),
      (doc_bad_name, Some [(lit ''full_name'', Some (lit ''Alice Smith'')), (username_key, Some (lit ''bad name''))]),
      (doc_no_name, Some [(lit ''full_name'', Some (lit ''Alice Smith''))]),
      (doc_age, Some [(lit ''age'', None), (username_key, Some (lit ''alice''))]),
      (doc_cut, None),
      (doc_name_only, Some [(username_key, Some (lit ''alice''))]),
      (doc_example, Some [(lit ''full_name'', Some (lit ''Alice Example'')), (username_key, Some (lit ''alice''))]),
      (test_document (lit ''alice''), Some [(lit ''full_name'', Some (lit ''Test User'')), (username_key, Some (lit ''alice''))])]"

definition reads_documents :: "('v, 'e) toml_ops \<Rightarrow> bool" where
  "reads_documents T \<longleftrightarrow> list_all (\<lambda>(contents, entries). toml_reads T contents entries) documents"

definition str_contains :: "str \<Rightarrow> str \<Rightarrow> bool" where
  "str_contains s pat = sublist pat s"

subsection \<open>src/user.rs\<close>

text \<open>The text of a response, when it is UTF-8.\<close>

definition text_has :: "bytes \<Rightarrow> str list \<Rightarrow> bool" where
  "text_has response expected =
     (case from_utf8 response of
        None \<Rightarrow> False
      | Some contents \<Rightarrow> list_all (str_contains contents) expected)"

definition parses_profile :: "('v, 'e) toml_ops \<Rightarrow> 'm index_map_ops \<Rightarrow> bool" where
  "parses_profile T IM =
     (case username_parse (lit ''alice'') of
        Inl _ \<Rightarrow> False
      | Inr username \<Rightarrow>
          (case profile_parse T IM username (as_bytes doc_alice) of
             Inl _ \<Rightarrow> False
           | Inr profile \<Rightarrow>
               text_has (response_as_bytes (render IM profile False None))
                 [lit ''User: alice'', lit ''Full name: Alice Smith'', lit ''Email: alice@example.com'']))"

definition rejects_invalid_profile ::
  "('v, 'e) toml_ops \<Rightarrow> 'm index_map_ops \<Rightarrow> str \<Rightarrow> ('e profile_error \<Rightarrow> bool) \<Rightarrow> bool" where
  "rejects_invalid_profile T IM body is_expected =
     (case username_parse (lit ''alice'') of
        Inl _ \<Rightarrow> False
      | Inr username \<Rightarrow>
          (case profile_parse T IM username (as_bytes body) of
             Inl err \<Rightarrow> is_expected err
           | Inr _ \<Rightarrow> False))"

definition rejected_cases :: "(str \<times> ('e profile_error \<Rightarrow> bool)) list" where
  "rejected_cases =
     [(doc_bob, \<lambda>err. err = UsernameMismatch),
      (doc_bad_name, \<lambda>err. case err of UsernameInvalid _ \<Rightarrow> True | _ \<Rightarrow> False),
      (doc_no_name, \<lambda>err. err = MissingUsername),
      (doc_age, \<lambda>err. err = NonStringValue (lit ''age'')),
      (doc_cut, \<lambda>err. case err of Toml _ \<Rightarrow> True | _ \<Rightarrow> False)]"

definition renders_plan_variants :: "('v, 'e) toml_ops \<Rightarrow> 'm index_map_ops \<Rightarrow> str option \<Rightarrow> str \<Rightarrow> bool" where
  "renders_plan_variants T IM plan expected =
     (case username_parse (lit ''alice'') of
        Inl _ \<Rightarrow> False
      | Inr username \<Rightarrow>
          (case profile_parse T IM username (as_bytes doc_name_only) of
             Inl _ \<Rightarrow> False
           | Inr profile \<Rightarrow> text_has (response_as_bytes (render IM profile True plan)) [expected]))"

definition plan_cases :: "(str option \<times> str) list" where
  "plan_cases = [(Some [], lit ''(empty plan)''), (None, lit ''(no plan)'')]"

subsection \<open>src/storage.rs\<close>

datatype expectation = LoadsProfile bool str "str option" | MissingUser

definition load_user_behaviour ::
  "('v, 't) toml_ops \<Rightarrow> 'm index_map_ops \<Rightarrow> ((str \<times> bytes) list \<Rightarrow> ('p, 'r, 'e) object_store_ops) \<Rightarrow>
   (str \<times> str \<times> str option) option \<Rightarrow> str \<Rightarrow> bool \<Rightarrow> expectation \<Rightarrow> bool" where
  "load_user_behaviour T IM open_dir existing_user looked_up include_plan expected =
     (let files =
        (case existing_user of
           None \<Rightarrow> []
         | Some (username, profile, plan) \<Rightarrow>
             (lit ''profiles/'' @ username @ lit ''.toml'', as_bytes profile) #
             (case plan of None \<Rightarrow> [] | Some p \<Rightarrow> [(lit ''plans/'' @ username @ lit ''.plan'', as_bytes p)]));
          repo = user_store_new (open_dir files) (lit ''profiles'') (lit ''plans'')
      in case username_parse looked_up of
           Inl _ \<Rightarrow> False
         | Inr username \<Rightarrow>
             (case expected of
                LoadsProfile expect_plan full_name fragment \<Rightarrow>
                  (case load_user T IM repo username include_plan of
                     Inl _ \<Rightarrow> False
                   | Inr r \<Rightarrow> (ur_plan r \<noteq> None) = expect_plan \<and>
                       text_has (response_as_bytes (render IM (ur_profile r) include_plan (ur_plan r)))
                         (full_name # (case fragment of None \<Rightarrow> [] | Some snippet \<Rightarrow> [snippet])))
              | MissingUser \<Rightarrow>
                  (case load_user T IM repo username include_plan of Inl NotFound \<Rightarrow> True | _ \<Rightarrow> False)))"

definition load_cases :: "((str \<times> str \<times> str option) option \<times> str \<times> bool \<times> expectation) list" where
  "load_cases =
     [(Some (lit ''alice'', doc_example, Some (lit ''improve documentation'' @ [LF])), lit ''alice'', True,
       LoadsProfile True (lit ''Alice Example'') (Some (lit ''improve documentation''))),
      (None, lit ''bob'', False, MissingUser)]"

text \<open>
  A directory that is opened as a store serves the files in it, and no others.  \<open>Path::from\<close> brings
  its argument into a canonical form, so this is asked only of texts that are in that form, as those
  of the tests are: a directory and a file name, of lower case letters, digits, hyphens, underscores
  and inner dots.
\<close>

definition plain_segment :: "str \<Rightarrow> bool" where
  "plain_segment s \<longleftrightarrow>
     s \<noteq> [] \<and> length s \<le> 64 \<and> hd s \<noteq> dot \<and> last s \<noteq> dot \<and>
     list_all (\<lambda>c. is_lower c \<or> is_digit c \<or> c = hyphen \<or> c = underscore \<or> c = dot) s"

definition plain_path :: "str \<Rightarrow> bool" where
  "plain_path path \<longleftrightarrow>
     (case split_on (\<lambda>c. c = solidus) path of
        [dir, file] \<Rightarrow> plain_segment dir \<and> plain_segment file
      | _ \<Rightarrow> False)"

definition serves_files :: "((str \<times> bytes) list \<Rightarrow> ('p, 'r, 'e) object_store_ops) \<Rightarrow> bool" where
  "serves_files open_dir \<longleftrightarrow>
     (\<forall>files path. distinct (map fst files) \<and> list_all plain_path (map fst files) \<and> plain_path path \<longrightarrow>
       (let store = open_dir files; got = and_then (os_get store (os_path_from store path)) (os_bytes store) in
        case map_of files path of
          Some content \<Rightarrow> got = Inr content
        | None \<Rightarrow> (case got of Inl e \<Rightarrow> os_is_not_found store e | Inr _ \<Rightarrow> False)))"

subsection \<open>src/server.rs\<close>

definition static_store :: "'m user_record option \<Rightarrow> username \<Rightarrow> bool \<Rightarrow> ('t, 'b) repository_error + 'm user_record" where
  "static_store record username include_plan = ok_or record NotFound"

definition base_config :: "'s index_set_ops \<Rightarrow> identity_error + 's server_config" where
  "base_config I =
     and_then (hostname_parse (lit ''localhost'')) (\<lambda>default_host. Inr
       \<lparr>cfg_listen = \<lparr>sa_ip = V4 0x7F000001, sa_port = 0\<rparr>, cfg_default_host = default_host,
        cfg_allowed_hosts = is_from I default_host, cfg_store_root = lit ''.'',
        cfg_profile_prefix = lit ''profiles'', cfg_plan_prefix = lit ''plans'',
        cfg_rate = \<lparr>rs_max_requests = 10, rs_window = duration_from_secs 60, rs_max_entries = 8192\<rparr>,
        cfg_metrics_listen = None, cfg_request_timeout = duration_from_secs 5, cfg_max_request_bytes = 512\<rparr>)"

definition build_profile :: "('v, 't) toml_ops \<Rightarrow> 'm index_map_ops \<Rightarrow> str \<Rightarrow> 'm finger_profile option" where
  "build_profile T IM name =
     (case username_parse name of
        Inl _ \<Rightarrow> None
      | Inr user \<Rightarrow>
          (case profile_parse T IM user (as_bytes (test_document name)) of Inl _ \<Rightarrow> None | Inr p \<Rightarrow> Some p))"

definition build_response_scenarios ::
  "('v, 't) toml_ops \<Rightarrow> 'm index_map_ops \<Rightarrow> 's index_set_ops \<Rightarrow> str \<Rightarrow> bool \<Rightarrow> str option \<Rightarrow> str \<Rightarrow> str option \<Rightarrow> bool" where
  "build_response_scenarios T IM I name verbose plan expected_content expected_plan =
     (let store =
        (if name = lit ''alice''
         then map_option (\<lambda>profile. static_store (Some \<lparr>ur_profile = profile, ur_plan = plan\<rparr>))
                (build_profile T IM (lit ''alice''))
         else Some (static_store None :: username \<Rightarrow> bool \<Rightarrow> ('t, unit) repository_error + 'm user_record))
      in case (store, base_config I, username_parse name) of
           (Some load, Inr config, Inr username) \<Rightarrow>
             let handler = \<lparr>h_index = I, h_maps = IM, h_config = config, h_load = load\<rparr>;
                 query = \<lparr>fq_username = username, fq_host = None, fq_verbose = verbose\<rparr>
             in text_has (fst (build_response handler query (cfg_default_host config)))
                  (expected_content # (case expected_plan of None \<Rightarrow> [] | Some fragment \<Rightarrow> [fragment]))
         | _ \<Rightarrow> False)"

definition response_cases :: "(str \<times> bool \<times> str option \<times> str \<times> str option) list" where
  "response_cases =
     [(lit ''alice'', True, Some (lit ''Plan line''), lit ''Test User'', Some (lit ''Plan line'')),
      (lit ''bob'', False, None, user_missing, None)]"

subsection \<open>What the code makes of a document\<close>

text \<open>The loop of \<open>FingerProfile::parse\<close>, on the keys and the strings of a table.\<close>

fun entry_fields ::
  "'m index_map_ops \<Rightarrow> (str \<times> str option) list \<Rightarrow> 'm \<Rightarrow> str option \<Rightarrow> 'e profile_error + 'm \<times> str option" where
  "entry_fields IM [] attributes declared = Inr (attributes, declared)"
| "entry_fields IM ((key, None) # rest) attributes declared = Inl (NonStringValue key)"
| "entry_fields IM ((key, Some s) # rest) attributes declared =
     (if key = username_key then entry_fields IM rest attributes (Some s)
      else entry_fields IM rest (im_insert IM attributes key s) declared)"

lemma profile_fields_entries:
  "profile_fields T IM table m d = entry_fields IM (map (\<lambda>(k, v). (k, toml_as_str T v)) table) m d"
proof (induction table arbitrary: m d)
  case (Cons kv table)
  then show ?case by (cases kv; cases "toml_as_str T (snd kv)") simp_all
qed simp

lemma parse_document:
  assumes "toml_reads T contents (Some entries)" and "valid_str contents"
  shows "\<exists>n. profile_parse T IM u (as_bytes contents) =
    and_then (entry_fields IM entries (im_with_capacity IM n) None) (\<lambda>(attributes, declared_username).
    and_then (ok_or declared_username MissingUsername) (\<lambda>declared.
    and_then (map_err UsernameInvalid (username_parse declared)) (\<lambda>parsed.
      if parsed \<noteq> u then Inl UsernameMismatch
      else Inr \<lparr>fp_username = u, fp_attributes = attributes\<rparr>)))"
proof -
  obtain doc table where t: "toml_from_str T contents = Inr doc" "toml_as_table T doc = Some table"
    "map (\<lambda>(k, v). (k, toml_as_str T v)) table = entries"
    using assms(1) by (auto simp: toml_reads_def split: sum.splits)
  show ?thesis
    by (intro exI [of _ "length table"]) (simp add: profile_parse_def assms(2) t profile_fields_entries)
qed

lemma contains_line:
  assumes "list_all printable_line ls" and "l \<in> set ls" and "sublist pat l"
  shows "str_contains (framed ls) pat"
proof -
  obtain xs ys where "ls = xs @ l # ys" using split_list [OF assms(2)] by blast
  moreover have "trim_line_endings l = l" using assms(1,2) by (auto simp: list_all_iff printable_line_framing)
  ultimately have "sublist l (framed ls)" by (simp add: sublist_def) blast
  then show ?thesis using assms(3) unfolding str_contains_def by (rule sublist_order.order_trans [rotated])
qed

lemma text_has_lines:
  assumes "list_all printable_line ls" and "list_all (\<lambda>e. list_ex (sublist e) ls) expected"
  shows "text_has (as_bytes (framed ls)) expected"
  using assms contains_line [OF assms(1)]
  by (auto simp: text_has_def framed_printable list_all_iff list_ex_iff)

lemma response_text_has:
  "list_all printable_line (body_lines r) \<Longrightarrow> list_all (\<lambda>e. list_ex (sublist e) (body_lines r)) expected \<Longrightarrow>
     text_has (response_as_bytes r) expected"
  unfolding response_bytes_framed by (rule text_has_lines)

lemmas document_defs =
  doc_alice_def doc_bob_def doc_bad_name_def doc_no_name_def doc_age_def doc_cut_def doc_name_only_def
  doc_example_def test_document_def raw_lines_def

lemma replicate_pred: "replicate (numeral k) x = x # replicate (pred_numeral k) x"
  by (simp add: numeral_eq_Suc)

lemma documents_valid: "list_all (\<lambda>(contents, _). valid_str contents) documents"
  by (simp add: documents_def document_defs list_all_iff) (simp add: lit_def is_scalar_def replicate_pred)

lemma document_parse:
  assumes "reads_documents T" and "(contents, Some entries) \<in> set documents"
  shows "\<exists>n. profile_parse T IM u (as_bytes contents) =
    and_then (entry_fields IM entries (im_with_capacity IM n) None) (\<lambda>(attributes, declared_username).
    and_then (ok_or declared_username MissingUsername) (\<lambda>declared.
    and_then (map_err UsernameInvalid (username_parse declared)) (\<lambda>parsed.
      if parsed \<noteq> u then Inl UsernameMismatch
      else Inr \<lparr>fp_username = u, fp_attributes = attributes\<rparr>)))"
  using assms documents_valid by (intro parse_document) (auto simp: reads_documents_def list_all_iff)

text \<open>The profiles and errors of the documents.\<close>

lemma names_parse:
  "username_parse (lit ''alice'') = Inr (Username (lit ''alice''))"
  "username_parse (lit ''bob'') = Inr (Username (lit ''bob''))"
  "username_parse (lit ''bad name'') = Inl UsernameCharacters"
  by (simp_all add: text_eval)

lemma username_key_entry: "lit ''full_name'' \<noteq> username_key" "lit ''email'' \<noteq> username_key"
  by (simp_all add: username_key_def lit_def)

lemma stored_document:
  assumes "reads_documents T"
    and "(contents, Some [(lit ''full_name'', Some name), (username_key, Some (lit ''alice''))]) \<in> set documents"
  shows "\<exists>n. profile_parse T IM (Username (lit ''alice'')) (as_bytes contents) =
    Inr \<lparr>fp_username = Username (lit ''alice''), fp_attributes = im_insert IM (im_with_capacity IM n) (lit ''full_name'') name\<rparr>"
  using document_parse [OF assms, of IM "Username (lit ''alice'')"] by (simp add: username_key_entry names_parse)

lemma rejected_tests:
  assumes "reads_documents T"
  shows "list_all (\<lambda>(body, is_expected). rejects_invalid_profile T IM body is_expected) rejected_cases"
proof -
  let ?u = "Username (lit ''alice'')"
  have member: "(doc_bob, Some [(lit ''full_name'', Some (lit ''Alice Smith'')), (username_key, Some (lit ''bob''))]) \<in> set documents"
    "(doc_bad_name, Some [(lit ''full_name'', Some (lit ''Alice Smith'')), (username_key, Some (lit ''bad name''))]) \<in> set documents"
    "(doc_no_name, Some [(lit ''full_name'', Some (lit ''Alice Smith''))]) \<in> set documents"
    "(doc_age, Some [(lit ''age'', None), (username_key, Some (lit ''alice''))]) \<in> set documents"
    by (simp_all add: documents_def)
  have cut: "isl (toml_from_str T doc_cut)" "valid_str doc_cut"
    using assms documents_valid by (auto simp: reads_documents_def documents_def toml_reads_def split: sum.splits)
  have "\<exists>e. profile_parse T IM ?u (as_bytes doc_cut) = Inl (Toml e)"
    using cut by (cases "toml_from_str T doc_cut") (simp_all add: profile_parse_def)
  moreover note parsed = member [THEN document_parse [OF assms, of _ _ IM ?u]]
  have "?u \<noteq> Username (lit ''bob'')" by (simp add: lit_def)
  ultimately show ?thesis
    using parsed by (auto simp: rejected_cases_def rejects_invalid_profile_def names_parse username_key_entry)
qed

lemmas line_eval = lit_def printable_def ascii_upper_def is_lower_def sanitise_line_def trim_def trim_matches_def
  trim_end_matches_def is_whitespace_def

context index_map
begin

lemma alice_test:
  assumes "reads_documents T"
  shows "parses_profile T IM"
proof -
  have "(doc_alice, Some [(lit ''email'', Some (lit ''alice@example.com'')),
      (lit ''full_name'', Some (lit ''Alice Smith'')), (username_key, Some (lit ''alice''))]) \<in> set documents"
    by (simp add: documents_def)
  from document_parse [OF assms this, of IM "Username (lit ''alice'')"] obtain n where
    p: "profile_parse T IM (Username (lit ''alice'')) (as_bytes doc_alice) =
      Inr \<lparr>fp_username = Username (lit ''alice''), fp_attributes =
        im_insert IM (im_insert IM (im_with_capacity IM n) (lit ''email'') (lit ''alice@example.com''))
          (lit ''full_name'') (lit ''Alice Smith'')\<rparr>"
    by (auto simp: username_key_entry names_parse)
  have distinct: "lit ''email'' \<noteq> lit ''full_name''" by (simp add: lit_def)
  show ?thesis
    unfolding parses_profile_def names_parse sum.case p
    by (rule response_text_has; simp add: render_def distinct; simp add: line_eval sublist_code)
qed

lemma plan_tests:
  assumes "reads_documents T"
  shows "list_all (\<lambda>(plan, expected). renders_plan_variants T IM plan expected) plan_cases"
proof -
  have "(doc_name_only, Some [(username_key, Some (lit ''alice''))]) \<in> set documents" by (simp add: documents_def)
  from document_parse [OF assms this, of IM "Username (lit ''alice'')"] obtain n where
    p: "profile_parse T IM (Username (lit ''alice'')) (as_bytes doc_name_only) =
      Inr \<lparr>fp_username = Username (lit ''alice''), fp_attributes = im_with_capacity IM n\<rparr>"
    by (auto simp: names_parse)
  have "renders_plan_variants T IM plan expected"
    if "(plan, expected) \<in> set plan_cases" for plan expected
    unfolding renders_plan_variants_def names_parse sum.case p
    by (rule response_text_has; insert that; simp add: plan_cases_def render_def append_plan_lines_def;
        auto simp: line_eval sublist_code)
  then show ?thesis by (auto simp: list_all_iff)
qed

lemma response_tests:
  assumes "reads_documents T" and "index_set I"
  shows "list_all (\<lambda>(name, verbose, plan, content, expected_plan).
    build_response_scenarios T IM I name verbose plan content expected_plan) response_cases"
proof -
  have "(test_document (lit ''alice''), Some [(lit ''full_name'', Some (lit ''Test User'')),
      (username_key, Some (lit ''alice''))]) \<in> set documents"
    by (simp add: documents_def)
  from stored_document [OF assms(1) this, of IM] obtain n where
    p: "profile_parse T IM (Username (lit ''alice'')) (as_bytes (test_document (lit ''alice''))) =
      Inr \<lparr>fp_username = Username (lit ''alice''),
        fp_attributes = im_insert IM (im_with_capacity IM n) (lit ''full_name'') (lit ''Test User'')\<rparr>" by blast
  have host: "hostname_parse (lit ''localhost'') = Inr (HostName (lit ''localhost''))" by (simp add: text_eval)
  have distinct: "lit ''bob'' \<noteq> lit ''alice''" by (simp add: lit_def)
  let ?r = "render IM \<lparr>fp_username = Username (lit ''alice''),
      fp_attributes = im_insert IM (im_with_capacity IM n) (lit ''full_name'') (lit ''Test User'')\<rparr> True
      (Some (lit ''Plan line''))"
  have "text_has (response_as_bytes ?r) [lit ''Test User'', lit ''Plan line'']"
    by (rule response_text_has; simp add: render_def append_plan_lines_def;
        simp add: line_eval sublist_code str_lines_def)
  moreover have "text_has (render_message user_missing) [user_missing]"
    unfolding render_message_framed
    by (rule text_has_lines; simp add: user_missing_def; simp add: line_eval)
  ultimately show ?thesis
    by (simp add: response_cases_def build_response_scenarios_def build_profile_def base_config_def host names_parse p
        distinct build_response_def accepts_host_def static_store_def index_set.contains_iter [OF assms(2)]
        index_set.iter_from [OF assms(2)])
qed

lemma load_tests:
  assumes "reads_documents T" and "serves_files open_dir"
  shows "list_all (\<lambda>(existing, looked_up, include_plan, expected).
    load_user_behaviour T IM open_dir existing looked_up include_plan expected) load_cases"
proof -
  let ?files = "[(lit ''profiles/'' @ lit ''alice'' @ lit ''.toml'', as_bytes doc_example),
      (lit ''plans/'' @ lit ''alice'' @ lit ''.plan'', as_bytes (lit ''improve documentation'' @ [LF]))]"
  let ?repo = "\<lambda>files. user_store_new (open_dir files) (lit ''profiles'') (lit ''plans'')"
  have trims: "trim_slashes (lit ''profiles'') = lit ''profiles''" "trim_slashes (lit ''plans'') = lit ''plans''"
    by (simp_all add: trim_slashes_def line_eval)
  have fetch: "case map_of files path of
      Some content \<Rightarrow> fetch_bytes (?repo files) (os_path_from (open_dir files) path) = Inr content
    | None \<Rightarrow> \<exists>e. fetch_bytes (?repo files) (os_path_from (open_dir files) path) = Inl e \<and> os_is_not_found (open_dir files) e"
    if "distinct (map fst files)" "list_all plain_path (map fst files)" "plain_path path" for files path
    using assms(2) [unfolded serves_files_def, rule_format, of files path] that
    by (auto simp: fetch_bytes_def user_store_new_def Let_def simp del: map_of_eq_Some_iff
        split: option.splits sum.splits)
  have paths: "profile_path (?repo files) (Username u) = os_path_from (open_dir files) (lit ''profiles/'' @ u @ lit ''.toml'')"
    "plan_path (?repo files) (Username u) = os_path_from (open_dir files) (lit ''plans/'' @ u @ lit ''.plan'')" for files u
    by (simp_all add: profile_path_def plan_path_def join_path_def join_text_def user_store_new_def profile_file_def
        plan_file_def trims) (simp_all add: lit_def)
  have "(doc_example, Some [(lit ''full_name'', Some (lit ''Alice Example'')), (username_key, Some (lit ''alice''))])
      \<in> set documents"
    by (simp add: documents_def)
  from stored_document [OF assms(1) this, of IM] obtain n where
    p: "profile_parse T IM (Username (lit ''alice'')) (as_bytes doc_example) =
      Inr \<lparr>fp_username = Username (lit ''alice''),
        fp_attributes = im_insert IM (im_with_capacity IM n) (lit ''full_name'') (lit ''Alice Example'')\<rparr>" (is "_ = Inr ?p")
    by blast
  have plan: "from_utf8 (as_bytes (lit ''improve documentation'' @ [LF])) = Some (lit ''improve documentation'' @ [LF])"
    by (rule from_utf8_as_bytes) (simp add: lit_def is_scalar_def)
  have plain: "plain_path (lit ''profiles/'' @ lit ''alice'' @ lit ''.toml'')" "plain_path (lit ''plans/'' @ lit ''alice'' @ lit ''.plan'')"
    "plain_path (lit ''profiles/'' @ lit ''bob'' @ lit ''.toml'')"
    by (simp_all add: plain_path_def plain_segment_def lit_def char_class_defs)
  have "fetch_bytes (?repo ?files) (profile_path (?repo ?files) (Username (lit ''alice''))) = Inr (as_bytes doc_example)"
    "fetch_bytes (?repo ?files) (plan_path (?repo ?files) (Username (lit ''alice''))) =
      Inr (as_bytes (lit ''improve documentation'' @ [LF]))"
    using fetch [OF _ _ plain(1), of ?files] fetch [OF _ _ plain(2), of ?files] plain
    unfolding paths by (simp_all add: lit_def)
  then have loaded: "load_user T IM (?repo ?files) (Username (lit ''alice'')) True =
      Inr \<lparr>ur_profile = ?p, ur_plan = Some (lit ''improve documentation'' @ [LF])\<rparr>"
    by (simp add: load_user_def load_plan_if_requested_def p plan)
  have missing: "load_user T IM (?repo []) (Username (lit ''bob'')) False = Inl NotFound"
    unfolding load_user_not_found_iff paths using fetch [OF _ _ plain(3), of "[]"]
    by (simp add: user_store_new_def)
  have "text_has (response_as_bytes (render IM ?p True (Some (lit ''improve documentation'' @ [LF]))))
      [lit ''Alice Example'', lit ''improve documentation'']"
    by (rule response_text_has; simp add: render_def append_plan_lines_def;
        simp add: line_eval sublist_code str_lines_def strip_cr_def strip_suffix_def)
  then show ?thesis
    using loaded missing
    by (simp add: load_cases_def load_user_behaviour_def names_parse)
qed

end

subsection \<open>Properties\<close>

text \<open>The providers of the example: the documents by their text, files by their path.\<close>

definition listed_toml ::
  "(str \<times> (str \<times> str option) list option) list \<Rightarrow> ((str \<times> str option) list + str option, unit) toml_ops" where
  "listed_toml docs =
     \<lparr>toml_from_str = \<lambda>s. (case map_of docs s of Some (Some t) \<Rightarrow> Inr (Inl t) | _ \<Rightarrow> Inl ()),
      toml_as_table = \<lambda>v. (case v of Inl t \<Rightarrow> Some (map (\<lambda>(k, s). (k, Inr s)) t) | Inr _ \<Rightarrow> None),
      toml_as_str = \<lambda>v. (case v of Inl _ \<Rightarrow> None | Inr s \<Rightarrow> s)\<rparr>"

lemma listed_toml_reads: "map_of docs s = Some entries \<Longrightarrow> toml_reads (listed_toml docs) s entries"
  by (cases entries) (auto simp: toml_reads_def listed_toml_def intro!: map_idI)

lemma listed_documents: "reads_documents (listed_toml documents)"
proof -
  have "distinct (map fst documents)"
    by (simp add: documents_def document_defs) (simp add: lit_def replicate_pred)
  then have "map_of documents s = Some entries" if "(s, entries) \<in> set documents" for s entries
    using that by simp
  then show ?thesis by (auto simp: reads_documents_def list_all_iff intro: listed_toml_reads)
qed

lemma sample_store_files: "serves_files sample_store"
  by (simp add: serves_files_def sample_store_def Let_def split: option.split)

text \<open>
  C39: Profiles, the repository and the responses of the server pass their unit tests, whatever map,
  set, store and TOML parser are used, as long as these do what is documented of them and the parser
  reads the documents of the tests as they are meant.
\<close>

theorem profile_tests_pass:
  assumes "index_map IM" and "index_set I" and "reads_documents T" and "serves_files open_dir"
  shows "parses_profile T IM \<and>
    list_all (\<lambda>(body, is_expected). rejects_invalid_profile T IM body is_expected) rejected_cases \<and>
    list_all (\<lambda>(plan, expected). renders_plan_variants T IM plan expected) plan_cases \<and>
    list_all (\<lambda>(existing, looked_up, include_plan, expected).
      load_user_behaviour T IM open_dir existing looked_up include_plan expected) load_cases \<and>
    list_all (\<lambda>(name, verbose, plan, content, expected_plan).
      build_response_scenarios T IM I name verbose plan content expected_plan) response_cases"
  using index_map.alice_test [OF assms(1,3)] rejected_tests [OF assms(3)] index_map.plan_tests [OF assms(1,3)]
    index_map.load_tests [OF assms(1,3,4)] index_map.response_tests [OF assms(1,3,2)] by blast

lemma profile_tests_pass_witness:
  "parses_profile (listed_toml documents) assoc_index_map \<and>
   list_all (\<lambda>(existing, looked_up, include_plan, expected).
     load_user_behaviour (listed_toml documents) assoc_index_map sample_store existing looked_up include_plan expected)
     load_cases"
  using profile_tests_pass [OF assoc_im.index_map_axioms list_set.index_set_axioms listed_documents sample_store_files]
  by blast

end
