(* ===== verification/Limiter_Tests.thy ===== *)
theory Limiter_Tests
  imports Rate_Limit
begin

section \<open>The unit tests of the rate limiter\<close>

text \<open>
  The tests that src/rate\_limit.rs carries, over the model, as in \<open>Parser_Tests\<close>: a limiter with a
  clock whose readings are given, and a few checks.  The time at which a test starts is arbitrary.
\<close>

subsection \<open>The clock\<close>

text \<open>
  \<open>ManualClock\<close>: the readings that are left, of which the last is repeated; with none at all the
  system clock is read.
\<close>

definition manual_utc :: "instant \<Rightarrow> instant list \<Rightarrow> instant \<times> instant list" where
  "manual_utc system_now ticks =
     (case ticks of [] \<Rightarrow> (system_now, []) | [t] \<Rightarrow> (t, [t]) | t # later \<Rightarrow> (t, later))"

definition timestamps :: "instant \<Rightarrow> int list \<Rightarrow> instant list" where
  "timestamps base offsets = map (\<lambda>secs. base + secs * int nanos_per_sec) offsets"

text \<open>\<open>RateLimiter::check\<close> with that clock; a check that panics ends the test.\<close>

definition check_ticking ::
  "chrono_ops \<Rightarrow> 'd dash_map_ops \<Rightarrow> 'd rate_limiter \<times> instant list \<Rightarrow> ip_addr \<Rightarrow>
   ((rate_limit_error + unit) \<times> 'd rate_limiter \<times> instant list) option" where
  "check_ticking C D s ip =
     (let (now, later) = manual_utc 0 (snd s)
      in case check_inner C D (fst s) ip now of
           Some (Done verdict L) \<Rightarrow> Some (verdict, L, later)
         | _ \<Rightarrow> None)"

text \<open>Checks one after the other, with their verdicts.\<close>

fun checks_ticking ::
  "chrono_ops \<Rightarrow> 'd dash_map_ops \<Rightarrow> 'd rate_limiter \<times> instant list \<Rightarrow> ip_addr list \<Rightarrow>
   ((rate_limit_error + unit) list \<times> 'd rate_limiter \<times> instant list) option" where
  "checks_ticking C D s [] = Some ([], s)"
| "checks_ticking C D s (ip # ips) =
     (case check_ticking C D s ip of
        None \<Rightarrow> None
      | Some (verdict, s1) \<Rightarrow>
          (case checks_ticking C D s1 ips of
             None \<Rightarrow> None
           | Some (verdicts, s2) \<Rightarrow> Some (verdict # verdicts, s2)))"

definition setup_limiter ::
  "chrono_ops \<Rightarrow> 'd dash_map_ops \<Rightarrow> u32 \<Rightarrow> u64 \<Rightarrow> usize \<Rightarrow> instant list \<Rightarrow> 'd rate_limiter \<times> instant list" where
  "setup_limiter C D max_requests window_secs max_entries ticks =
     (with_clock C D \<lparr>rs_max_requests = max_requests, rs_window = duration_from_secs window_secs,
        rs_max_entries = max_entries\<rparr>, ticks)"

subsection \<open>The tests\<close>

definition allows_requests_up_to_limit :: "chrono_ops \<Rightarrow> 'd dash_map_ops \<Rightarrow> instant \<Rightarrow> bool" where
  "allows_requests_up_to_limit C D base =
     (let ip = V4 0xC0000201
      in case checks_ticking C D (setup_limiter C D 2 60 16 (timestamps base [0, 0, 10])) [ip, ip] of
           None \<Rightarrow> False
         | Some (verdicts, _) \<Rightarrow> verdicts = [Inr (), Inr ()])"

definition enforces_limit :: "chrono_ops \<Rightarrow> 'd dash_map_ops \<Rightarrow> instant \<Rightarrow> bool" where
  "enforces_limit C D base =
     (let ip = V4 0xC6336402
      in case checks_ticking C D (setup_limiter C D 1 60 8 (timestamps base [0, 5])) [ip, ip] of
           Some ([Inr _, Inl (LimitExceeded retry)], _) \<Rightarrow> retry \<le> duration_from_secs 60
         | _ \<Rightarrow> False)"

definition resets_after_window :: "chrono_ops \<Rightarrow> 'd dash_map_ops \<Rightarrow> instant \<Rightarrow> bool" where
  "resets_after_window C D base =
     (let ip = V4 0xCB007105
      in case checks_ticking C D (setup_limiter C D 1 10 16 (timestamps base [0, 15])) [ip, ip] of
           None \<Rightarrow> False
         | Some (verdicts, _) \<Rightarrow> verdicts = [Inr (), Inr ()])"

definition contains_key :: "'d dash_map_ops \<Rightarrow> 'd rate_limiter \<Rightarrow> ip_addr \<Rightarrow> bool" where
  "contains_key D L ip = (dm_get D (rl_entries L) ip \<noteq> None)"

definition evicts_stale_entries :: "chrono_ops \<Rightarrow> 'd dash_map_ops \<Rightarrow> instant \<Rightarrow> bool" where
  "evicts_stale_entries C D base =
     (let first_ip = V4 0xC6120001; second_ip = V4 0xC6120002
      in case checks_ticking C D (setup_limiter C D 5 60 16 (timestamps base [0, 0, 120])) [first_ip, second_ip] of
           None \<Rightarrow> False
         | Some (verdicts, s) \<Rightarrow> verdicts = [Inr (), Inr ()] \<and> contains_key D (fst s) first_ip \<and>
             (case check_ticking C D s first_ip of
                Some (Inr _, L, _) \<Rightarrow> \<not> contains_key D L second_ip
              | _ \<Rightarrow> False))"

definition enforces_capacity_limit :: "chrono_ops \<Rightarrow> 'd dash_map_ops \<Rightarrow> instant \<Rightarrow> bool" where
  "enforces_capacity_limit C D base =
     (let ip1 = V4 0xCB007101; ip2 = V4 0xCB007102; ip3 = V4 0xCB007103
      in case checks_ticking C D (setup_limiter C D 5 300 2 (timestamps base [0, 1, 2, 3])) [ip1, ip2] of
           None \<Rightarrow> False
         | Some (verdicts, s) \<Rightarrow> verdicts = [Inr (), Inr ()] \<and> dm_len D (rl_entries (fst s)) = 2 \<and>
             (case check_ticking C D s ip3 of
                Some (Inr _, L, _) \<Rightarrow> dm_len D (rl_entries L) = 2 \<and> \<not> contains_key D L ip1
              | _ \<Rightarrow> False))"

subsection \<open>A check in a test\<close>

text \<open>chrono can represent the windows of the tests, and the instants of a test and their cutoffs.\<close>

definition handles_times :: "chrono_ops \<Rightarrow> instant \<Rightarrow> bool" where
  "handles_times C base \<longleftrightarrow>
     (\<forall>w \<le> 300 * nanos_per_sec. ch_from_std C w \<noteq> None) \<and>
     (\<forall>secs d. 0 \<le> secs \<and> secs \<le> 120 \<and> 0 \<le> d \<and> d \<le> 300 * int nanos_per_sec \<longrightarrow>
        ch_instant_sub C (base + secs * int nanos_per_sec) d \<noteq> None)"

text \<open>What is known of a limiter in a test: its settings and its entries.\<close>

definition limiter_is ::
  "'d dash_map_ops \<Rightarrow> u32 \<Rightarrow> duration \<Rightarrow> nat \<Rightarrow> (ip_addr \<rightharpoonup> rate_entry) \<Rightarrow> 'd rate_limiter \<Rightarrow> bool" where
  "limiter_is D q w n A L \<longleftrightarrow>
     limiter_wf L \<and> rs_max_requests (rl_settings L) = q \<and> rl_window L = w \<and>
     unat (rs_max_entries (rl_settings L)) = n \<and> dm_get D (rl_entries L) = A"

context limiter_env
begin

lemma setup_is:
  assumes "handles_times C base" and "secs \<le> 300" and "n \<noteq> 0"
  shows "\<exists>L. setup_limiter C D q secs n ticks = (L, ticks) \<and>
    limiter_is D q (int (unat secs) * int nanos_per_sec) (unat n) (\<lambda>_. None) L"
proof -
  let ?S = "\<lparr>rs_max_requests = q, rs_window = duration_from_secs secs, rs_max_entries = n\<rparr>"
  have "unat secs \<le> 300" using assms(2) by (simp add: word_le_nat_alt)
  then have "ch_from_std C (duration_from_secs secs) \<noteq> None"
    using assms(1) by (auto simp: handles_times_def duration_from_secs_def)
  moreover have "1 \<le> unat n" using assms(3) by (simp add: unat_gt_0 Suc_le_eq)
  ultimately have "limiter_is D q (int (unat secs) * int nanos_per_sec) (unat n) (\<lambda>_. None) (with_clock C D ?S)"
    using with_clock_window [OF limiter_env_axioms, of ?S]
    by (auto simp: limiter_is_def duration_from_secs_def fun_eq_iff)
  then show ?thesis by (simp add: setup_limiter_def)
qed

lemma check_is:
  assumes "handles_times C base" and "limiter_is D q w n A L" and "w \<le> 300 * int nanos_per_sec"
    and "0 \<le> secs" "secs \<le> 120" and "started_by (base + secs * int nanos_per_sec) A"
    and "fixed_window q w (base + secs * int nanos_per_sec) (A ip) = (r, e)"
    and "A' = (pruned (base + secs * int nanos_per_sec - w) A)(ip \<mapsto> e)"
  shows "\<exists>L' A''. check_inner C D L ip (base + secs * int nanos_per_sec) = Some (Done r L') \<and>
    limiter_is D q w n A'' L' \<and> evicts_oldest ip A' A'' \<and> dm_len D (rl_entries L') = min n (card (dom A')) \<and>
    (card (dom A') \<le> n \<longrightarrow> A'' = A')"
proof -
  let ?now = "base + secs * int nanos_per_sec"
  have L: "limiter_wf L" "rs_max_requests (rl_settings L) = q" "rl_window L = w"
    "unat (rs_max_entries (rl_settings L)) = n" "dm_get D (rl_entries L) = A"
    using assms(2) by (auto simp: limiter_is_def)
  have "cutoff_ok C L ?now"
    using assms(1,3-5) L(1,3) by (auto simp: cutoff_ok_def handles_times_def limiter_wf_def)
  from check_done [OF limiter_env_axioms L(1) this assms(6) [folded L(5)], unfolded L(2-5), OF assms(7)]
  obtain L' where L': "check_inner C D L ip ?now = Some (Done r L')" "rl_settings L' = rl_settings L" "rl_window L' = w"
    "evicts_oldest ip ((pruned (?now - w) A)(ip \<mapsto> e)) (dm_get D (rl_entries L'))"
    "card (insert ip (dom (pruned (?now - w) A))) \<le> n \<Longrightarrow> dm_get D (rl_entries L') = (pruned (?now - w) A)(ip \<mapsto> e)"
    "dm_len D (rl_entries L') = min n (card (insert ip (dom (pruned (?now - w) A))))" by metis
  have dom: "dom A' = insert ip (dom (pruned (?now - w) A))" by (simp add: assms(8))
  have "limiter_is D q w n (dm_get D (rl_entries L')) L'"
    using L L'(2,3) by (simp add: limiter_is_def limiter_wf_def)
  then show ?thesis
    using L'(1,4-6) unfolding dom by (intro exI [of _ L'] exI [of _ "dm_get D (rl_entries L')"]) (simp add: assms(8))
qed

lemma ticking_is:
  assumes "handles_times C base" and "limiter_is D q w n A L" and "w \<le> 300 * int nanos_per_sec"
    and "0 \<le> secs" "secs \<le> 120" and "started_by (base + secs * int nanos_per_sec) A"
    and "fixed_window q w (base + secs * int nanos_per_sec) (A ip) = (r, e)"
    and "(pruned (base + secs * int nanos_per_sec - w) A)(ip \<mapsto> e) = A'" and "card (dom A') \<le> n"
  shows "\<exists>L'. check_ticking C D (L, (base + secs * int nanos_per_sec) # later) ip =
      Some (r, L', if later = [] then [base + secs * int nanos_per_sec] else later) \<and>
    limiter_is D q w n A' L' \<and> dm_len D (rl_entries L') = card (dom A')"
  using check_is [OF assms(1-7) assms(8) [symmetric]] assms(9)
  by (fastforce simp: check_ticking_def manual_utc_def split: list.splits)

end

lemma window_entry:
  "live_entry w now None = \<lparr>window_start = now, re_count = 0\<rparr>"
  "now - u < w \<Longrightarrow> live_entry w now (Some \<lparr>window_start = u, re_count = c\<rparr>) = \<lparr>window_start = u, re_count = c\<rparr>"
  "w \<le> now - u \<Longrightarrow> live_entry w now (Some \<lparr>window_start = u, re_count = c\<rparr>) = \<lparr>window_start = now, re_count = 0\<rparr>"
  by (simp_all add: live_entry_def)

lemma pruned_upd:
  "pruned c (\<lambda>_. None) = (\<lambda>_. None)"
  "pruned c (A(k \<mapsto> e)) = (if c \<le> window_start e then (pruned c A)(k \<mapsto> e) else (pruned c A)(k := None))"
  by (auto simp: pruned_def fun_eq_iff split: option.split)

lemma started_upd: "started_by now (\<lambda>_. None)"
  "window_start e \<le> now \<Longrightarrow> started_by now A \<Longrightarrow> started_by now (A(k \<mapsto> e))"
  by (auto simp: started_by_def)

lemmas test_eval = fixed_window_def window_entry pruned_upd started_upd nanos_per_sec_def word_less_nat_alt word_le_nat_alt

context limiter_env
begin

lemma up_to_limit_test:
  assumes "handles_times C base"
  shows "allows_requests_up_to_limit C D base"
proof -
  let ?t = "base + 0 * int nanos_per_sec" and ?ip = "V4 0xC0000201" and ?w = "60 * int nanos_per_sec"
  let ?later = "timestamps base [0, 10]"
  obtain L0 where L0: "setup_limiter C D 2 60 16 (?t # ?later) = (L0, ?t # ?later)"
    "limiter_is D 2 ?w 16 (\<lambda>_. None) L0"
    using setup_is [OF assms, of 60 16 2 "?t # ?later"] by (auto simp: word_le_nat_alt)
  obtain L1 where L1: "check_ticking C D (L0, ?t # ?later) ?ip = Some (Inr (), L1, ?later)"
    "limiter_is D 2 ?w 16 [?ip \<mapsto> \<lparr>window_start = ?t, re_count = 1\<rparr>] L1"
    using ticking_is [OF assms L0(2), where secs = 0 and ip = ?ip and r = "Inr ()" and e = "\<lparr>window_start = ?t, re_count = 1\<rparr>"
        and A' = "[?ip \<mapsto> \<lparr>window_start = ?t, re_count = 1\<rparr>]" and later = ?later]
    by (auto simp: test_eval timestamps_def)
  obtain L2 where L2: "check_ticking C D (L1, ?later) ?ip = Some (Inr (), L2, timestamps base [10])"
    using ticking_is [OF assms L1(2), where secs = 0 and ip = ?ip and r = "Inr ()" and e = "\<lparr>window_start = ?t, re_count = 2\<rparr>"
        and A' = "[?ip \<mapsto> \<lparr>window_start = ?t, re_count = 2\<rparr>]" and later = "timestamps base [10]"]
    by (auto simp: test_eval timestamps_def)
  show ?thesis
    using L0(1) L1(1) L2 by (simp add: allows_requests_up_to_limit_def timestamps_def)
qed

lemma limit_test:
  assumes "handles_times C base"
  shows "enforces_limit C D base"
proof -
  let ?t = "base + 0 * int nanos_per_sec" and ?u = "base + 5 * int nanos_per_sec"
  let ?ip = "V4 0xC6336402" and ?w = "60 * int nanos_per_sec"
  let ?e = "\<lparr>window_start = ?t, re_count = 1\<rparr>"
  obtain L0 where L0: "setup_limiter C D 1 60 8 [?t, ?u] = (L0, [?t, ?u])" "limiter_is D 1 ?w 8 (\<lambda>_. None) L0"
    using setup_is [OF assms, of 60 8 1 "[?t, ?u]"] by (auto simp: word_le_nat_alt)
  obtain L1 where L1: "check_ticking C D (L0, [?t, ?u]) ?ip = Some (Inr (), L1, [?u])"
    "limiter_is D 1 ?w 8 [?ip \<mapsto> ?e] L1"
    using ticking_is [OF assms L0(2), where secs = 0 and ip = ?ip and r = "Inr ()" and e = ?e
        and A' = "[?ip \<mapsto> ?e]" and later = "[?u]"]
    by (auto simp: test_eval)
  obtain L2 where L2: "check_ticking C D (L1, [?u]) ?ip = Some (Inl (LimitExceeded 55000000000), L2, [?u])"
    using ticking_is [OF assms L1(2), where secs = 5 and ip = ?ip and r = "Inl (LimitExceeded 55000000000)" and e = ?e
        and A' = "[?ip \<mapsto> ?e]" and later = "[]"]
    by (auto simp: test_eval)
  show ?thesis
    using L0(1) L1(1) L2 by (simp add: enforces_limit_def timestamps_def duration_from_secs_def nanos_per_sec_def)
qed

lemma window_test:
  assumes "handles_times C base"
  shows "resets_after_window C D base"
proof -
  let ?t = "base + 0 * int nanos_per_sec" and ?u = "base + 15 * int nanos_per_sec"
  let ?ip = "V4 0xCB007105" and ?w = "10 * int nanos_per_sec"
  let ?e = "\<lambda>t. \<lparr>window_start = t, re_count = 1\<rparr>"
  obtain L0 where L0: "setup_limiter C D 1 10 16 [?t, ?u] = (L0, [?t, ?u])" "limiter_is D 1 ?w 16 (\<lambda>_. None) L0"
    using setup_is [OF assms, of 10 16 1 "[?t, ?u]"] by (auto simp: word_le_nat_alt)
  obtain L1 where L1: "check_ticking C D (L0, [?t, ?u]) ?ip = Some (Inr (), L1, [?u])"
    "limiter_is D 1 ?w 16 [?ip \<mapsto> ?e ?t] L1"
    using ticking_is [OF assms L0(2), where secs = 0 and ip = ?ip and r = "Inr ()" and e = "?e ?t"
        and A' = "[?ip \<mapsto> ?e ?t]" and later = "[?u]"]
    by (auto simp: test_eval)
  obtain L2 where L2: "check_ticking C D (L1, [?u]) ?ip = Some (Inr (), L2, [?u])"
    using ticking_is [OF assms L1(2), where secs = 15 and ip = ?ip and r = "Inr ()" and e = "?e ?u"
        and A' = "[?ip \<mapsto> ?e ?u]" and later = "[]"]
    by (auto simp: test_eval)
  show ?thesis
    using L0(1) L1(1) L2 by (simp add: resets_after_window_def timestamps_def)
qed

lemma stale_test:
  assumes "handles_times C base"
  shows "evicts_stale_entries C D base"
proof -
  let ?t = "base + 0 * int nanos_per_sec" and ?u = "base + 120 * int nanos_per_sec"
  let ?ip1 = "V4 0xC6120001" and ?ip2 = "V4 0xC6120002" and ?w = "60 * int nanos_per_sec"
  let ?e = "\<lambda>t. \<lparr>window_start = t, re_count = 1\<rparr>"
  obtain L0 where L0: "setup_limiter C D 5 60 16 [?t, ?t, ?u] = (L0, [?t, ?t, ?u])"
    "limiter_is D 5 ?w 16 (\<lambda>_. None) L0"
    using setup_is [OF assms, of 60 16 5 "[?t, ?t, ?u]"] by (auto simp: word_le_nat_alt)
  obtain L1 where L1: "check_ticking C D (L0, [?t, ?t, ?u]) ?ip1 = Some (Inr (), L1, [?t, ?u])"
    "limiter_is D 5 ?w 16 [?ip1 \<mapsto> ?e ?t] L1"
    using ticking_is [OF assms L0(2), where secs = 0 and ip = ?ip1 and r = "Inr ()" and e = "?e ?t"
        and A' = "[?ip1 \<mapsto> ?e ?t]" and later = "[?t, ?u]"]
    by (auto simp: test_eval)
  obtain L2 where L2: "check_ticking C D (L1, [?t, ?u]) ?ip2 = Some (Inr (), L2, [?u])"
    "limiter_is D 5 ?w 16 [?ip1 \<mapsto> ?e ?t, ?ip2 \<mapsto> ?e ?t] L2"
    using ticking_is [OF assms L1(2), where secs = 0 and ip = ?ip2 and r = "Inr ()" and e = "?e ?t"
        and A' = "[?ip1 \<mapsto> ?e ?t, ?ip2 \<mapsto> ?e ?t]" and later = "[?u]"]
    by (auto simp: test_eval)
  obtain L3 where L3: "check_ticking C D (L2, [?u]) ?ip1 = Some (Inr (), L3, [?u])"
    "limiter_is D 5 ?w 16 [?ip1 \<mapsto> ?e ?u] L3"
    using ticking_is [OF assms L2(2), where secs = 120 and ip = ?ip1 and r = "Inr ()" and e = "?e ?u"
        and A' = "[?ip1 \<mapsto> ?e ?u]" and later = "[]"]
    by (auto simp: test_eval)
  show ?thesis
    using L0(1) L1(1) L2 L3 by (simp add: evicts_stale_entries_def timestamps_def contains_key_def limiter_is_def)
qed

lemma capacity_test:
  assumes "handles_times C base"
  shows "enforces_capacity_limit C D base"
proof -
  let ?t = "\<lambda>s. base + s * int nanos_per_sec" and ?w = "300 * int nanos_per_sec"
  let ?ip1 = "V4 0xCB007101" and ?ip2 = "V4 0xCB007102" and ?ip3 = "V4 0xCB007103"
  let ?e = "\<lambda>s. \<lparr>window_start = ?t s, re_count = 1\<rparr>"
  obtain L0 where L0: "setup_limiter C D 5 300 2 [?t 0, ?t 1, ?t 2, ?t 3] = (L0, [?t 0, ?t 1, ?t 2, ?t 3])"
    "limiter_is D 5 ?w 2 (\<lambda>_. None) L0"
    using setup_is [OF assms, of 300 2 5 "[?t 0, ?t 1, ?t 2, ?t 3]"] by (auto simp: word_le_nat_alt)
  obtain L1 where L1: "check_ticking C D (L0, [?t 0, ?t 1, ?t 2, ?t 3]) ?ip1 = Some (Inr (), L1, [?t 1, ?t 2, ?t 3])"
    "limiter_is D 5 ?w 2 [?ip1 \<mapsto> ?e 0] L1"
    using ticking_is [OF assms L0(2), where secs = 0 and ip = ?ip1 and r = "Inr ()" and e = "?e 0"
        and A' = "[?ip1 \<mapsto> ?e 0]" and later = "[?t 1, ?t 2, ?t 3]"]
    by (auto simp: test_eval)
  obtain L2 where L2: "check_ticking C D (L1, [?t 1, ?t 2, ?t 3]) ?ip2 = Some (Inr (), L2, [?t 2, ?t 3])"
    "limiter_is D 5 ?w 2 [?ip1 \<mapsto> ?e 0, ?ip2 \<mapsto> ?e 1] L2" "dm_len D (rl_entries L2) = 2"
    using ticking_is [OF assms L1(2), where secs = 1 and ip = ?ip2 and r = "Inr ()" and e = "?e 1"
        and A' = "[?ip1 \<mapsto> ?e 0, ?ip2 \<mapsto> ?e 1]" and later = "[?t 2, ?t 3]"]
    by (auto simp: test_eval)
  let ?A = "[?ip1 \<mapsto> ?e 0, ?ip2 \<mapsto> ?e 1, ?ip3 \<mapsto> ?e 2]"
  obtain L3 B where L3: "check_inner C D L2 ?ip3 (?t 2) = Some (Done (Inr ()) L3)" "limiter_is D 5 ?w 2 B L3"
    "evicts_oldest ?ip3 ?A B" "dm_len D (rl_entries L3) = 2"
    using check_is [OF assms L2(2), where secs = 2 and ip = ?ip3 and r = "Inr ()" and e = "?e 2" and A' = ?A]
    by (auto simp: test_eval)
  have card: "card (dom B) = 2" using L3(2,4) by (simp add: limiter_is_def len_dom)
  have le: "B \<subseteq>\<^sub>m ?A" and own: "B ?ip3 \<noteq> None"
    and oldest: "\<And>k e k' e'. ?A k = Some e \<Longrightarrow> B k = None \<Longrightarrow> k' \<noteq> ?ip3 \<Longrightarrow> B k' = Some e' \<Longrightarrow>
      window_start e \<le> window_start e'"
    using L3(3) by (auto simp: evicts_oldest_def)
  have "B ?ip1 = None"
  proof (rule ccontr)
    assume kept: "B ?ip1 \<noteq> None"
    have "B ?ip2 = None"
    proof (rule ccontr)
      assume "B ?ip2 \<noteq> None"
      then have "{?ip1, ?ip2, ?ip3} \<subseteq> dom B" using kept own by auto
      moreover have "finite (dom B)" using card by (intro card_ge_0_finite) simp
      ultimately have "card {?ip1, ?ip2, ?ip3} \<le> card (dom B)" by (rule card_mono [rotated])
      then show False by (simp add: card)
    qed
    moreover have "B ?ip1 = Some (?e 0)" using le kept by (force simp: map_le_def)
    ultimately show False using oldest [of ?ip2 "?e 1" ?ip1 "?e 0"] by (simp add: nanos_per_sec_def)
  qed
  then show ?thesis
    using L0(1) L1(1) L2 L3 by (simp add: enforces_capacity_limit_def timestamps_def contains_key_def limiter_is_def
        check_ticking_def manual_utc_def)
qed

end

subsection \<open>Properties\<close>

text \<open>
  C38: The limiter passes its unit tests, whenever they are run and whatever map and clock library
  are used, as long as these do what is documented of them: it allows the quota and refuses the
  request after it, opens a new window, drops entries whose window has lapsed, and at capacity drops
  the oldest.
\<close>

theorem limiter_tests_pass:
  assumes "limiter_env C D" and "handles_times C base"
  shows "allows_requests_up_to_limit C D base \<and> enforces_limit C D base \<and> resets_after_window C D base \<and>
    evicts_stale_entries C D base \<and> enforces_capacity_limit C D base"
  using limiter_env.up_to_limit_test [OF assms] limiter_env.limit_test [OF assms] limiter_env.window_test [OF assms]
    limiter_env.stale_test [OF assms] limiter_env.capacity_test [OF assms] by blast

lemma limiter_tests_pass_witness:
  "enforces_limit (ranged_chrono 300000000000 0) assoc_dash_map 300000000000 \<and>
   enforces_capacity_limit (ranged_chrono 300000000000 0) assoc_dash_map 300000000000"
proof -
  have "handles_times (ranged_chrono 300000000000 0) 300000000000"
    by (simp add: handles_times_def ranged_chrono_def nanos_per_sec_def)
  from limiter_tests_pass [OF assoc_env.limiter_env_axioms this] show ?thesis by blast
qed

end
