(* ===== verification/Spec2Isabelle.thy ===== *)
theory Spec2Isabelle
  imports Process Parser_Tests Profile_Tests Limiter_Tests
begin

section \<open>A verification library for fingermouse\<close>

text \<open>
  Fingermouse is a finger daemon (RFC 1288 style): a client connects, is rate limited by its
  address, sends one query line, and is sent the profile (and on request the plan) of a user,
  read from an object store.  The library models the program of src/src, one theory per module.

  The parts and the theories that model them, bottom up:
  \<^item> \<open>Prelude\<close>: machine words, \<open>Result\<close> as a sum type with \<open>and_then\<close> for the question mark.
  \<^item> \<open>Utf8\<close> and \<open>Text\<close>: Rust's strings as lists of Unicode scalar values with \<open>as_bytes\<close> and
    \<open>from_utf8\<close>, and the string operations of the standard library that the code calls.  They
    model the language, not a module, and are not in the map of definitions to source lines.
  \<^item> \<open>Identity\<close> (src/identity.rs): \<open>Username\<close> and \<open>HostName\<close> and their parsers.
  \<^item> \<open>Query\<close> (src/query.rs): the query line, from bytes to \<open>FingerQuery\<close>.  \<open>query_line\<close> is a
    declarative grammar; the parser is proved equal to it, and to invert the printer.
  \<^item> \<open>Framing\<close> (src/framing.rs): \<open>CrlfBuffer\<close>.
  \<^item> \<open>Profile\<close> (src/user.rs): TOML profiles and how a response is rendered.
  \<^item> \<open>Storage\<close> (src/storage.rs): the repository over an object store.  The trait \<open>UserStore\<close> is
    the locale \<open>user_store\<close>; the repository is its interpretation.
  \<^item> \<open>Rate_Limit\<close> (src/rate\_limit.rs): the limiter, statement by statement, and one check of it
    related to one fixed window per client (\<open>fixed_window\<close>).
  \<^item> \<open>Limiter_Runs\<close> (src/rate\_limit.rs): sequences of checks; \<open>served\<close> is the reachability
    relation, \<open>client_run\<close> the abstract specification.
  \<^item> \<open>Limiter_Threads\<close> (src/rate\_limit.rs): the checks of concurrent connections, interleaved at
    the operations of the shared map (\<open>check_step\<close>); \<open>check_inner\<close> is the check that runs alone.
  \<^item> \<open>Limiter_Skew\<close>: runs of such checks whose clock readings are used with a bounded lag
    (\<open>skewed_run\<close>), and what they accept in any span of the window's length.
  \<^item> \<open>Config\<close> (src/config.rs): options to configuration, the allow list, the store root.
  \<^item> \<open>Server\<close> (src/server.rs): a connection from rate limit to shutdown, with the actions it
    takes; \<open>answer\<close> and \<open>lookups\<close> specify what it sends and asks for.
  \<^item> \<open>Accept_Loop\<close> (src/server.rs): \<open>FingerServer::run\<close>, its loop and the tasks it spawns, as the
    step relation \<open>server_step\<close>, in which a connection is one step; \<open>accept_turn\<close> is a turn of the loop.
  \<^item> \<open>Server_Threads\<close> (src/server.rs): the same server with tasks whose checks interleave
    (\<open>threads_step\<close>), of which the other is a special case (\<open>atomic_server_simulated\<close>).
  \<^item> \<open>Telemetry\<close> (src/telemetry.rs): the metrics endpoint, a connection to it as a function and
    the select loop as the step relation \<open>task_step\<close>, with its owner \<open>metrics_step\<close>.
  \<^item> \<open>Options\<close> (src/config.rs): \<open>CliOptions\<close> from arguments, environment and defaults.
  \<^item> \<open>Startup\<close> (src/main.rs): \<open>run\<close> up to the accept loop, which builds all of these from the
    options, and what a started server guarantees.
  \<^item> \<open>Process\<close> (src/main.rs): \<open>main\<close> and \<open>run\<close> to their end, from the arguments (\<open>main_program\<close>) to
    the server beside the metrics endpoint, as the step relation \<open>process_step\<close>.
  \<^item> \<open>Parser_Tests\<close>, \<open>Limiter_Tests\<close>, \<open>Profile_Tests\<close>: the unit tests of the modules over the model.
  \<^item> This theory: the properties that need several of them.

  How they interact: \<open>startup\<close> turns the options into a configuration, starts the metrics endpoint,
  and builds the store, the limiter and the server.  The accept loop spawns a task for each
  connection; \<open>serve\<close> calls \<open>check_inner\<close> on the limiter that all tasks share, reads a line below
  the configured size, gives it to \<open>query_parse\<close>, asks the repository through \<open>UserStore\<close>, and
  writes what \<open>render\<close> and \<open>push_line\<close> make of the result.  The limiter is the only state that
  connections share and a connection uses it once, so in \<open>server_step\<close> a connection is one step, at
  the time of its check, and in \<open>threads_step\<close> a task goes through the steps of its check while
  others do the same.  When the loop has ended, \<open>run\<close> shuts the endpoint down and returns
  (\<open>process_step\<close>).

  What the lemmas show: the parsers equal declarative grammars and invert printers
  (\<open>Identity\<close>, \<open>Query\<close>, \<open>Profile\<close>); the limiter refines one fixed
  window per client and stays within its capacity, for one check and for sequences, and checks that
  interleave neither hold each other up nor lose counts; a connection whose request is read makes one
  answer, that of an abstract specification, and depends on no object but users' files below the
  configured prefixes (\<open>connection_paths_confined\<close>); from the command line on, a started server keeps
  the configured rate while its clients fit the configured capacity, with connections one at a time
  (\<open>configured_rate_enforced\<close>) and with connections that race (\<open>configured_rate_concurrent\<close>,
  where the bound is larger by one quota); a failed accept ends the server for good
  (\<open>failed_accept_is_final\<close>); and the process ends with the error of the server, if it ends (\<open>process_exit\<close>,
  \<open>process_can_exit\<close>). The unit tests of the repository pass in the model. Where the code
  does not do what its documentation or its purpose asks for, a theorem shows it:
  \<open>window_does_not_slide\<close>, \<open>check_panics_iff\<close>,
  \<open>render_key_injection\<close>, \<open>failed_accept_is_final\<close>,
  \<open>silent_peer_keeps_process\<close>.

  Code that is not in the repository is a parameter: \<open>toml_ops\<close> (toml), \<open>index_map_ops\<close> and
  \<open>index_set_ops\<close> (indexmap), \<open>object_store_ops\<close> (object\_store), \<open>chrono_ops\<close> (chrono),
  \<open>dash_map_ops\<close> (dashmap), \<open>fs_ops\<close> (the file system), \<open>socket_ops\<close> (tokio's timed reads and
  writes), \<open>metrics_socket\<close> (reads and writes without a time limit, which may never complete), the
  rendered metrics, the outcome of binding a listener, how a socket address is displayed, the parsers
  of option values (\<open>value_parsers\<close>), and what tracing and tokio's runtime give when they start.
  What the code relies on is stated in the locales \<open>index_map\<close>, \<open>index_set\<close>, \<open>chrono\<close>,
  \<open>dash_map\<close>, \<open>file_system\<close>, \<open>line_reader\<close>, \<open>option_values\<close>; each is interpreted on a concrete provider, and the
  witnesses of the properties compute with these.  No law fixes the order in which the limiter's
  map is iterated.

  Bounds and termination: integers keep their width (\<open>u32\<close> counters, \<open>usize\<close> capacities); the
  counter of an entry never wraps because it stays at or below the quota.  The eviction loop is
  a partial function whose \<^term>\<open>None\<close> is divergence, and \<open>check_terminates\<close> shows that it
  always ends; no fuel is used.  A panic of chrono's operators is an outcome, and
  \<open>check_panics_iff\<close> says exactly when it happens.

  Where the model is coarser than the program: \<open>server_step\<close> takes a connection whole, which
  \<open>threads_step\<close> does not; \<open>check_step\<close> takes each operation on the shared map as one step, while the
  crate locks it shard by shard in \<open>retain\<close>, \<open>len\<close> and iteration; \<open>parse_options\<close> reports the first
  refused option in the order of the declaration, and clap may report another; \<open>process_step\<close> has the join
  of the endpoint's task succeed, as that task does not panic.  The statements about the lines a client
  reads need the keys of the stored profiles to be printable, as the code does not
  sanitise them (\<open>render_key_injection\<close>).

  Not modelled: logging, \<open>Debug\<close> texts, the texts that describe metrics (the gauge's value is
  modelled), help texts and the messages of clap, and the panics of the endpoint's task.  A write is
  one operation: how much of it was sent before it failed or stalled is not modelled.  The steps of
  \<open>server_step\<close> take the clock not to go back; those of \<open>check_step\<close> and \<open>threads_step\<close> allow any
  reading, and the bounds over them name the lag they tolerate, a quarter of the window.
  The order of a profile's lines is that of the map the toml crate returns.
\<close>

section \<open>Properties that span components\<close>

subsection \<open>From the command line to the object store\<close>

lemma from_cli_prefixes:
  "from_cli I cli = Inr cfg \<Longrightarrow>
     cfg_profile_prefix cfg = sanitise_prefix (cli_profile_prefix cli) \<and>
     cfg_plan_prefix cfg = sanitise_prefix (cli_plan_prefix cli)"
  by (auto simp: from_cli_def result_iff)

lemma trim_slashes_sanitised: "trim_slashes (sanitise_prefix s) = sanitise_prefix s"
  unfolding trim_slashes_def sanitise_prefix_def by (rule trim_matches_idem)

lemma join_text_hd:
  assumes "pfx = [] \<or> hd pfx \<noteq> solidus" and "username_wf u"
  shows "hd (join_text pfx (profile_file u)) \<noteq> solidus" "hd (join_text pfx (plan_file u)) \<noteq> solidus"
proof -
  have "profile_file u \<noteq> []" "plan_file u \<noteq> []" by (simp_all add: profile_file_def plan_file_def lit_def)
  then have "hd (profile_file u) \<noteq> solidus" "hd (plan_file u) \<noteq> solidus"
    using user_file_no_slash [OF assms(2)] by (metis hd_in_set)+
  with assms(1) show "hd (join_text pfx (profile_file u)) \<noteq> solidus"
    "hd (join_text pfx (plan_file u)) \<noteq> solidus"
    by (auto simp: join_text_def hd_append)
qed

text \<open>The texts of the paths that a server may look up: a user's file directly below its prefix.\<close>

definition directly_below :: "str \<Rightarrow> str \<Rightarrow> str \<Rightarrow> bool" where
  "directly_below pfx file t \<longleftrightarrow>
     hd t \<noteq> solidus \<and>
     split_on (\<lambda>c. c = solidus) t = (if pfx = [] then [] else split_on (\<lambda>c. c = solidus) pfx) @ [file]"

definition user_object :: "cli_options \<Rightarrow> str \<Rightarrow> bool" where
  "user_object cli t \<longleftrightarrow>
     (\<exists>u. username_wf u \<and>
        (directly_below (sanitise_prefix (cli_profile_prefix cli)) (username_str u @ lit ''.toml'') t \<or>
         directly_below (sanitise_prefix (cli_plan_prefix cli)) (username_str u @ lit ''.plan'') t))"

lemma user_paths:
  assumes "from_cli I cli = Inr cfg" and "username_wf u"
    and "S = user_store_new store (cfg_profile_prefix cfg) (cfg_plan_prefix cfg)"
  shows "\<exists>t. user_object cli t \<and> profile_path S u = os_path_from store t"
    and "\<exists>t. user_object cli t \<and> plan_path S u = os_path_from store t"
proof -
  have S: "st_profile_prefix S = sanitise_prefix (cli_profile_prefix cli)"
    "st_plan_prefix S = sanitise_prefix (cli_plan_prefix cli)" "st_store S = store"
    using assms(3) from_cli_prefixes [OF assms(1)] by (simp_all add: user_store_new_def trim_slashes_sanitised)
  have ends: "sanitise_prefix s = [] \<or> hd (sanitise_prefix s) \<noteq> solidus" for s
    using trim_matches_ends(1) unfolding sanitise_prefix_def by blast
  note below = split_join_text [OF user_file_no_slash(1) [OF assms(2)]] split_join_text [OF user_file_no_slash(2) [OF assms(2)]]
    join_text_hd [OF ends assms(2)]
  have "user_object cli (join_text (sanitise_prefix (cli_profile_prefix cli)) (profile_file u))"
    unfolding user_object_def directly_below_def
    using assms(2) below by (intro exI [of _ u]) (simp add: profile_file_def)
  then show "\<exists>t. user_object cli t \<and> profile_path S u = os_path_from store t"
    using S by (auto simp: profile_path_def join_path_def)
  have "user_object cli (join_text (sanitise_prefix (cli_plan_prefix cli)) (plan_file u))"
    unfolding user_object_def directly_below_def
    using assms(2) below by (intro exI [of _ u]) (simp add: plan_file_def)
  then show "\<exists>t. user_object cli t \<and> plan_path S u = os_path_from store t"
    using S by (auto simp: plan_path_def join_path_def)
qed

lemma answer_depends:
  assumes "\<And>q. query_parse raw = Inr q \<Longrightarrow> ld (fq_username q) (fq_verbose q) = h_load H (fq_username q) (fq_verbose q)"
  shows "answer (H\<lparr>h_load := ld\<rparr>) raw = answer H raw" "lookups (H\<lparr>h_load := ld\<rparr>) raw = lookups H raw"
  using assms by (auto simp: answer_def answer_lines_def lookups_def split: sum.split)

lemma serve_depends:
  assumes "\<And>u v. username_wf u \<Longrightarrow> ld u v = h_load H u v"
  shows "serve C D (H\<lparr>h_load := ld\<rparr>) K L addr now = serve C D H K L addr now"
proof -
  have "answer (H\<lparr>h_load := ld\<rparr>) raw = answer H raw" "lookups (H\<lparr>h_load := ld\<rparr>) raw = lookups H raw" for raw
    using assms by (auto intro!: answer_depends simp: query_wf_def dest: query_parse_wf)
  moreover have "read_request (H\<lparr>h_load := ld\<rparr>) K = read_request H K" by (simp add: read_request_def)
  ultimately have admitted: "serve_admitted (H\<lparr>h_load := ld\<rparr>) K = serve_admitted H K"
    unfolding serve_admitted_exact by (cases "read_request H K") (simp_all split: write_outcome.split)
  have refused: "write_response (H\<lparr>h_load := ld\<rparr>) K = write_response H K" by (simp add: write_response_def fun_eq_iff)
  show ?thesis unfolding serve_def enforce_rate_limit_def admitted refused by (rule refl)
qed

text \<open>A handler over a configuration and a store, for an example.\<close>

definition store_handler ::
  "hostname list server_config \<Rightarrow> (str, bytes, unit) object_store_ops \<Rightarrow>
   (hostname list, (str \<times> str) list, unit, unit) handler" where
  "store_handler cfg store = (sample_handler sample_objects)\<lparr>h_config := cfg,
     h_load := load_user (const_toml sample_table) assoc_index_map
       (user_store_new store (cfg_profile_prefix cfg) (cfg_plan_prefix cfg))\<rparr>"

text \<open>
  C21: Whatever a peer sends, a connection depends on no object but the users' files directly below
  the configured prefixes: if two stores agree on every path made from a text whose segments
  are those of the sanitised prefix and one more, the file of a well-formed user name, and which does
  not start with a slash, then the connection's result, actions and limiter are the same with both.
\<close>

theorem connection_paths_confined:
  fixes store :: "('p, 'r, 'e) object_store_ops"
  assumes "from_cli I cli = Inr cfg"
    and "h_load H = load_user T IM (user_store_new store (cfg_profile_prefix cfg) (cfg_plan_prefix cfg))"
    and "H' = H\<lparr>h_load :=
      load_user T IM (user_store_new (store\<lparr>os_get := get'\<rparr>) (cfg_profile_prefix cfg) (cfg_plan_prefix cfg))\<rparr>"
    and "\<forall>t. user_object cli t \<longrightarrow> get' (os_path_from store t) = os_get store (os_path_from store t)"
  shows "serve C D H' K L addr now = serve C D H K L addr now"
proof -
  let ?S = "user_store_new store (cfg_profile_prefix cfg) (cfg_plan_prefix cfg)"
  let ?load = "load_user T IM (user_store_new (store\<lparr>os_get := get'\<rparr>) (cfg_profile_prefix cfg) (cfg_plan_prefix cfg))"
  have "?load u v = h_load H u v" if u: "username_wf u" for u v
  proof -
    have store: "st_store ?S = store" by (simp add: user_store_new_def)
    have "get' (profile_path ?S u) = os_get (st_store ?S) (profile_path ?S u)"
      "get' (plan_path ?S u) = os_get (st_store ?S) (plan_path ?S u)"
      using user_paths [OF assms(1) u refl, of store] assms(4) unfolding store by metis+
    from load_user_footprint [of get', OF this] show ?thesis
      unfolding assms(2) by (simp add: user_store_new_def)
  qed
  then show ?thesis unfolding assms(3) by (rule serve_depends)
qed

lemma connection_paths_confined_witness:
  "\<exists>cfg. (from_cli list_index_set sample_cli :: unit anyhow + _) = Inr cfg \<and>
     serve sample_chrono assoc_dash_map (store_handler cfg (sample_store ((lit ''etc/passwd'', []) # sample_objects)))
       (scripted_socket terse_line Write_done) sample_limiter \<lparr>sa_ip = client_b, sa_port = 4000\<rparr> 130 =
     serve sample_chrono assoc_dash_map (store_handler cfg (sample_store sample_objects))
       (scripted_socket terse_line Write_done) sample_limiter \<lparr>sa_ip = client_b, sa_port = 4000\<rparr> 130"
proof -
  obtain cfg where cfg: "(from_cli list_index_set sample_cli :: unit anyhow + _) = Inr cfg"
    using sample_config by blast
  let ?store = "sample_store sample_objects" and ?other = "sample_store ((lit ''etc/passwd'', []) # sample_objects)"
  have other: "?other = ?store\<lparr>os_get := os_get ?other\<rparr>" by (simp add: sample_store_def)
  have "\<not> user_object sample_cli (lit ''etc/passwd'')"
    by (auto simp: user_object_def directly_below_def sample_cli_def sanitise_prefix_def text_eval lit_def)
  then have agree: "\<forall>t. user_object sample_cli t \<longrightarrow>
      os_get ?other (os_path_from ?store t) = os_get ?store (os_path_from ?store t)"
    by (auto simp: sample_store_def)
  have handlers: "h_load (store_handler cfg ?store) = load_user (const_toml sample_table) assoc_index_map
      (user_store_new ?store (cfg_profile_prefix cfg) (cfg_plan_prefix cfg))"
    "store_handler cfg ?other = (store_handler cfg ?store)\<lparr>h_load := load_user (const_toml sample_table) assoc_index_map
      (user_store_new (?store\<lparr>os_get := os_get ?other\<rparr>) (cfg_profile_prefix cfg) (cfg_plan_prefix cfg))\<rparr>"
    unfolding other [symmetric] by (simp_all add: store_handler_def)
  from connection_paths_confined [OF cfg handlers agree] cfg show ?thesis by blast
qed

subsection \<open>From the request to the answer\<close>

lemma until_byte_line:
  "d \<notin> set xs \<Longrightarrow> until_byte d (xs @ d # ys) = xs @ [d]"
  by (induction xs) auto

lemma as_bytes_no_LF:
  "(\<And>c. c \<in> set s \<Longrightarrow> is_ascii c \<and> c \<noteq> LF) \<Longrightarrow> 10 \<notin> set (as_bytes s)"
proof (induction s)
  case (Cons c s)
  have "is_ascii c" "c \<noteq> LF" using Cons.prems by auto
  then have "unat (byte c) \<noteq> unat (10 :: u8)" by (simp add: is_ascii_def)
  then have "byte c \<noteq> 10" by metis
  then show ?case using Cons \<open>is_ascii c\<close> by (simp add: encode_ascii)
qed simp

lemma wire_bytes:
  assumes "query_wf q"
  shows "until_byte 10 (as_bytes (wire_text (lit '' '') q @ crlf) @ later) = as_bytes (wire_text (lit '' '') q @ crlf)"
proof -
  have "is_ascii c \<and> c \<noteq> LF" if "c \<in> set (wire_text (lit '' '') q @ [CR])" for c
    using that user_token_chars [OF assms, of c]
    by (auto simp: wire_text_def lit_def is_ascii_def is_whitespace_def split: if_splits)
  then have "10 \<notin> set (as_bytes (wire_text (lit '' '') q @ [CR]))" by (intro as_bytes_no_LF) blast
  moreover have "as_bytes (wire_text (lit '' '') q @ crlf) = as_bytes (wire_text (lit '' '') q @ [CR]) @ 10 # []"
    by (simp add: as_bytes_append crlf_def encode_char_def byte_def)
  ultimately show ?thesis using until_byte_line [of 10 _ later] by simp
qed

text \<open>
  C1: End to end: an admitted client that sends a well-formed query for a served host and a
  stored user, in a line that fits the limit and is read in time, is sent one response, and, when the keys
  of stored profiles are printable, decoding it and splitting it at line ends gives exactly the
  rendered profile; this is also the only lookup made.
\<close>

theorem query_is_answered:
  assumes "check_inner C D L (sa_ip addr) now = Some (Done (Inr ()) L')"
    and "line_reader K (as_bytes (wire_text (lit '' '') q @ crlf) @ later)" and "query_wf q"
    and "sk_read_until K (Suc (unat (cfg_max_request_bytes (h_config H)))) 10
      (cfg_request_timeout (h_config H)) = Read_done n buf"
    and "length (as_bytes (wire_text (lit '' '') q @ crlf)) \<le> unat (cfg_max_request_bytes (h_config H))"
    and "cfg_max_request_bytes (h_config H) \<noteq> - 1"
    and "accepts_host (h_index H) (h_config H) (query_host (h_config H) q)"
    and "user_store (h_load H)" and "printable_keys H"
    and "h_load H (fq_username q) (fq_verbose q) = Inr record"
  shows "\<exists>r payload. serve C D H K L addr now = Some (Done (r,
      [Load (fq_username q) (fq_verbose q), Write payload] @ (if isl r then [] else [Shutdown])) L') \<and>
    map_option str_lines (from_utf8 payload) =
      Some (body_lines (render (h_maps H) (ur_profile record) (fq_verbose q) (ur_plan record)))"
proof -
  let ?line = "as_bytes (wire_text (lit '' '') q @ crlf)"
  have line: "until_byte 10 (?line @ later) = ?line" and "?line \<noteq> []"
    using wire_bytes [OF assms(3), of later] by (simp_all add: as_bytes_append crlf_def encode_char_def)
  then have read: "read_request H K = Inr ?line"
    using line_reader.read_request_line [OF assms(2,4,6)] assms(5) by simp
  have parse: "query_parse ?line = Inr q"
    using assms(3) by (rule query_parse_wire) (simp_all add: lit_def is_whitespace_def is_scalar_def control_char_def)
  have lines: "answer_lines H ?line =
      body_lines (render (h_maps H) (ur_profile record) (fq_verbose q) (ur_plan record))"
    using parse assms(7,10) by (simp add: answer_lines_def)
  have "map_option str_lines (from_utf8 (answer H ?line)) = Some (answer_lines H ?line)"
    using user_store.answer_lines_printable [OF assms(8) refl assms(9), of ?line]
    by (simp add: answer_def framed_printable)
  moreover have "lookups H ?line = [Load (fq_username q) (fq_verbose q)]"
    using parse assms(7) by (simp add: lookups_def)
  moreover obtain r where "serve_admitted H K =
      (r, lookups H ?line @ Write (answer H ?line) # (if isl r then [] else [Shutdown]))"
    using serve_admitted_aux [of H K] read by auto
  moreover obtain s where "serve C D H K L addr now = Some (Done (serve_admitted H K) L')"
    using serve_by_verdict [OF assms(1), of H K] by auto
  ultimately show ?thesis using lines by auto
qed

lemma query_is_answered_witness:
  "\<exists>r payload L'. serve sample_chrono assoc_dash_map (sample_handler sample_objects)
      (scripted_socket terse_line Write_done) sample_limiter \<lparr>sa_ip = client_b, sa_port = 4000\<rparr> 130 =
    Some (Done (r, [Load alice False, Write payload] @ (if isl r then [] else [Shutdown])) L') \<and>
    map_option str_lines (from_utf8 payload) =
      Some [lit ''User: alice'', lit ''Email: a@b'', [], lit ''Powered by fingermouse'']"
proof -
  let ?H = "sample_handler sample_objects"
  obtain L' where c: "check_inner sample_chrono assoc_dash_map sample_limiter client_b 130 = Some (Done (Inr ()) L')"
    using sample_admitted_check by blast
  have wf: "query_wf terse_query" using terse_line_parse by (rule query_parse_wf)
  have wire: "as_bytes (wire_text (lit '' '') terse_query @ crlf) = terse_line"
    by (simp add: wire_text_def user_token_def terse_query_def alice_def terse_line_def)
  have reader: "line_reader (scripted_socket terse_line Write_done) (as_bytes (wire_text (lit '' '') terse_query @ crlf) @ [])"
    unfolding wire using scripted.line_reader_axioms by simp
  have stored: "user_store (h_load ?H)"
    by (simp add: sample_handler_def object_store.user_store_axioms)
  have load: "h_load ?H (fq_username terse_query) (fq_verbose terse_query) =
      Inr \<lparr>ur_profile = \<lparr>fp_username = alice, fp_attributes = [(lit ''email'', lit ''a@b'')]\<rparr>, ur_plan = None\<rparr>"
    using sample_load [of False] by (simp add: terse_query_def)
  have body: "body_lines (render (h_maps ?H) \<lparr>fp_username = alice, fp_attributes = [(lit ''email'', lit ''a@b'')]\<rparr> False None) =
      [lit ''User: alice'', lit ''Email: a@b'', [], lit ''Powered by fingermouse'']"
    by (simp add: sample_handler_def render_def alice_def assoc_index_map_def)
      (simp add: lit_def ascii_upper_def is_lower_def sanitise_line_def printable_def)
  have max: "cfg_max_request_bytes (h_config ?H) = 64" by (simp add: sample_handler_def)
  have "length terse_line = 7"
    by (simp add: terse_line_def lit_def crlf_def encode_char_def)
  then have fits: "length (as_bytes (wire_text (lit '' '') terse_query @ crlf)) \<le> unat (cfg_max_request_bytes (h_config ?H))"
    unfolding wire max by simp
  have accepted: "accepts_host (h_index ?H) (h_config ?H) (query_host (h_config ?H) terse_query)"
    by (simp add: sample_handler_def accepts_host_def list_index_set_def query_host_def terse_query_def)
  have "\<exists>n buf. sk_read_until (scripted_socket terse_line Write_done)
      (Suc (unat (cfg_max_request_bytes (h_config ?H)))) 10 (cfg_request_timeout (h_config ?H)) = Read_done n buf"
    by (simp add: scripted_socket_def Let_def)
  then obtain n buf where done_reading: "sk_read_until (scripted_socket terse_line Write_done)
      (Suc (unat (cfg_max_request_bytes (h_config ?H)))) 10 (cfg_request_timeout (h_config ?H)) = Read_done n buf"
    by blast
  have room: "cfg_max_request_bytes (h_config ?H) \<noteq> - 1" unfolding max by simp
  have "check_inner sample_chrono assoc_dash_map sample_limiter (sa_ip \<lparr>sa_ip = client_b, sa_port = 4000\<rparr>) 130 =
      Some (Done (Inr ()) L')" using c by simp
  from query_is_answered [OF this reader wf done_reading fits room accepted stored sample_keys load] body
  show ?thesis by (auto simp: terse_query_def)
qed

end
